(* ===== verification/Prelude.thy ===== *)
theory Prelude
  imports Main "HOL-Library.Word" "HOL-Library.AList"
begin

text \<open>
  Shared vocabulary of the development: Go's fixed-width integers as words, byte slices as lists
  of bytes, Go maps as association lists (the list order is the iteration order a \<open>range\<close> loop
  happens to see), instants and durations as integers counting nanoseconds, and the big-endian
  wire helpers of \<open>encoding/binary\<close> that every parser and builder uses.
\<close>

unbundle bit_operations_syntax

section \<open>Types\<close>

type_synonym u8 = "8 word"
type_synonym u16 = "16 word"
type_synonym u32 = "32 word"
type_synonym u64 = "64 word"

type_synonym bytes = "u8 list"

text \<open>A Go \<open>string\<close> on the data path is a byte sequence; a rendered name is a byte sequence too.\<close>

type_synonym gostring = "u8 list"

type_synonym instant = int
type_synonym duration = int

named_theorems wire_simps \<open>reading back what the big-endian writers produce\<close>
named_theorems gomap_simps \<open>lookups after updates of a Go map\<close>

section \<open>Machine integers\<close>

lemma unat_u8_lt [simp]: "unat (b :: u8) < 256"
proof -
  have "unat b < 2 ^ LENGTH(8)" by (rule unsigned_less)
  then show ?thesis by simp
qed

lemma unat_u16_lt [simp]: "unat (w :: u16) < 65536"
proof -
  have "unat w < 2 ^ LENGTH(16)" by (rule unsigned_less)
  then show ?thesis by simp
qed

lemma unat_u8_le [simp]: "unat (b :: u8) \<le> 255"
  using unat_u8_lt [of b] by linarith

lemma unat_of_nat_u8: "n < 256 \<Longrightarrow> unat (of_nat n :: u8) = n"
  by (simp add: unat_of_nat)

lemma unat_of_nat_u16: "n < 65536 \<Longrightarrow> unat (of_nat n :: u16) = n"
  by (simp add: unat_of_nat)

lemma of_nat_unat_u8 [simp]: "of_nat (unat (b :: u8)) = b"
  by simp

section \<open>Big-endian fields\<close>

text \<open>\<open>byte(w >> 8)\<close>, \<open>byte(w)\<close> and \<open>uint16(hi) << 8 | uint16(lo)\<close>.\<close>

definition hi8 :: "u16 \<Rightarrow> u8" where
  "hi8 w = ucast (drop_bit 8 w)"

definition lo8 :: "u16 \<Rightarrow> u8" where
  "lo8 w = ucast w"

definition join16 :: "u8 \<Rightarrow> u8 \<Rightarrow> u16" where
  "join16 a b = push_bit 8 (ucast a) OR ucast b"

lemma join16_hi_lo [simp]: "join16 (hi8 w) (lo8 w) = w"
  by (rule bit_word_eqI) (auto simp: join16_def hi8_def lo8_def bit_simps)

lemma hi8_join16 [simp]: "hi8 (join16 a b) = a"
  by (rule bit_word_eqI) (auto simp: join16_def hi8_def bit_simps dest: bit_imp_le_length)

lemma lo8_join16 [simp]: "lo8 (join16 a b) = b"
  by (rule bit_word_eqI) (auto simp: join16_def lo8_def bit_simps)

lemma join16_plus: "join16 a b = ucast a * 256 + ucast b"
proof -
  have "push_bit 8 (ucast a) OR ucast b = push_bit 8 (ucast a) + (ucast b :: u16)"
    by (rule disjunctive_add [symmetric]) (auto simp: bit_simps dest: bit_imp_le_length)
  then show ?thesis by (simp add: join16_def push_bit_eq_mult)
qed

lemma unat_join16: "unat (join16 a b) = unat a * 256 + unat b"
proof -
  have "unat a * 256 + unat b < 65536"
    using unat_u8_lt [of a] unat_u8_lt [of b] by linarith
  then show ?thesis
    by (simp add: join16_plus unat_word_ariths unsigned_ucast_eq take_bit_eq_mod)
qed

text \<open>\<open>binary.BigEndian.PutUint16\<close> and \<open>PutUint32\<close> as the bytes they write.\<close>

definition be16 :: "u16 \<Rightarrow> bytes" where
  "be16 w = [hi8 w, lo8 w]"

definition be32 :: "u32 \<Rightarrow> bytes" where
  "be32 w = be16 (ucast (drop_bit 16 w)) @ be16 (ucast w)"

text \<open>\<open>binary.BigEndian.Uint16(data[i:i+2])\<close> and \<open>Uint32(data[i:i+4])\<close>, for indices in range.\<close>

definition rd16 :: "bytes \<Rightarrow> nat \<Rightarrow> u16" where
  "rd16 data i = join16 (data ! i) (data ! (i + 1))"

definition rd32 :: "bytes \<Rightarrow> nat \<Rightarrow> u32" where
  "rd32 data i = push_bit 16 (ucast (rd16 data i)) OR ucast (rd16 data (i + 2))"

lemma length_be16 [simp]: "length (be16 w) = 2"
  by (simp add: be16_def)

lemma length_be32 [simp]: "length (be32 w) = 4"
  by (simp add: be32_def)

lemma rd16_append_right [wire_simps]:
  "length xs \<le> i \<Longrightarrow> rd16 (xs @ ys) i = rd16 ys (i - length xs)"
  by (simp add: rd16_def nth_append Suc_diff_le)

lemma rd16_append_left [wire_simps]:
  "i + 1 < length xs \<Longrightarrow> rd16 (xs @ ys) i = rd16 xs i"
  by (simp add: rd16_def nth_append)

lemma rd16_be16 [wire_simps]: "rd16 (be16 w @ ys) 0 = w"
  by (simp add: rd16_def be16_def)

lemma rd16_Cons [wire_simps]: "0 < i \<Longrightarrow> rd16 (x # xs) i = rd16 xs (i - 1)"
  using rd16_append_right [of "[x]" i xs] by simp

lemma join32_hi_lo:
  "push_bit 16 (ucast (ucast (drop_bit 16 w) :: u16)) OR ucast (ucast w :: u16) = (w :: u32)"
  by (rule bit_word_eqI) (auto simp: bit_simps)

lemma rd32_be32 [wire_simps]: "rd32 (be32 w @ ys) 0 = w"
proof -
  have "rd16 (be32 w @ ys) 0 = ucast (drop_bit 16 w)"
    by (simp add: be32_def rd16_be16)
  moreover have "rd16 (be32 w @ ys) 2 = ucast w"
    by (simp add: be32_def rd16_append_right rd16_be16)
  ultimately show ?thesis
    by (simp add: rd32_def numeral_2_eq_2 join32_hi_lo)
qed

lemma rd32_append_right [wire_simps]:
  "length xs \<le> i \<Longrightarrow> rd32 (xs @ ys) i = rd32 ys (i - length xs)"
  by (simp add: rd32_def rd16_append_right Suc_diff_le)

section \<open>Slices\<close>

text \<open>\<open>xs[i:j]\<close> for bounds in range.\<close>

definition slice :: "'a list \<Rightarrow> nat \<Rightarrow> nat \<Rightarrow> 'a list" where
  "slice xs i j = take (j - i) (drop i xs)"

lemma length_slice [simp]: "j \<le> length xs \<Longrightarrow> length (slice xs i j) = j - i"
  by (simp add: slice_def)

lemma slice_append_mid [simp]:
  "slice (xs @ ys @ zs) (length xs) (length xs + length ys) = ys"
  by (simp add: slice_def)

lemma slice_append_right:
  "length xs \<le> i \<Longrightarrow> slice (xs @ ys) i j = slice ys (i - length xs) (j - length xs)"
  by (simp add: slice_def)

lemma drop_eq_Cons: "i < length xs \<Longrightarrow> drop i xs = xs ! i # drop (Suc i) xs"
  by (rule Cons_nth_drop_Suc [symmetric])

section \<open>ASCII case\<close>

text \<open>\<open>ch + ('a' - 'A')\<close> for upper-case letters, as the lower-casing loops write it.\<close>

definition asciiLower :: "u8 \<Rightarrow> u8" where
  "asciiLower ch = (if 65 \<le> ch \<and> ch \<le> 90 then ch + 32 else ch)"

section \<open>Go maps\<close>

type_synonym ('k, 'v) gomap = "('k \<times> 'v) list"

abbreviation mget :: "('k, 'v) gomap \<Rightarrow> 'k \<Rightarrow> 'v option" where
  "mget m k \<equiv> map_of m k"

abbreviation mput :: "('k, 'v) gomap \<Rightarrow> 'k \<Rightarrow> 'v \<Rightarrow> ('k, 'v) gomap" where
  "mput m k v \<equiv> AList.update k v m"

abbreviation mdel :: "('k, 'v) gomap \<Rightarrow> 'k \<Rightarrow> ('k, 'v) gomap" where
  "mdel m k \<equiv> AList.delete k m"

text \<open>Every key of a Go map occurs once, so \<open>len(m)\<close> is the length of the list.\<close>

definition gomap_wf :: "('k, 'v) gomap \<Rightarrow> bool" where
  "gomap_wf m \<longleftrightarrow> distinct (map fst m)"

lemma gomap_wf_Nil [simp]: "gomap_wf []"
  by (simp add: gomap_wf_def)

lemma gomap_wf_mput [simp]: "gomap_wf m \<Longrightarrow> gomap_wf (mput m k v)"
  by (simp add: gomap_wf_def distinct_update)

lemma gomap_wf_mdel [simp]: "gomap_wf m \<Longrightarrow> gomap_wf (mdel m k)"
  by (simp add: gomap_wf_def distinct_delete)

lemma mget_mput [simp, gomap_simps]: "mget (mput m k v) x = (if x = k then Some v else mget m x)"
  by (simp add: update_conv')

lemma mget_mdel [simp, gomap_simps]: "mget (mdel m k) x = (if x = k then None else mget m x)"
  by (simp add: delete_conv')

lemma gomap_len_mput:
  "length (mput m k v) = (if mget m k = None then Suc (length m) else length m)"
  by (induction m) auto

lemma gomap_len_mdel:
  "gomap_wf m \<Longrightarrow> length (mdel m k) = (if mget m k = None then length m else length m - 1)"
proof (induction m)
  case Nil
  then show ?case by simp
next
  case (Cons p m)
  then have wf: "gomap_wf m" and notin: "fst p \<notin> set (map fst m)"
    by (auto simp: gomap_wf_def)
  show ?case
  proof (cases "fst p = k")
    case True
    with notin have "mdel m k = m"
      by (simp add: delete_id)
    with True show ?thesis by (cases p) (simp add: AList.delete_eq)
  next
    case False
    have "mget m k \<noteq> None \<Longrightarrow> 0 < length m"
      by (cases m) auto
    with False Cons.IH [OF wf] show ?thesis by (cases p) (auto simp: AList.delete_eq)
  qed
qed

lemma gomap_filter_wf [simp]: "gomap_wf m \<Longrightarrow> gomap_wf (filter P m)"
  by (induction m) (auto simp: gomap_wf_def)

lemma mget_filter_key:
  "gomap_wf m \<Longrightarrow>
   mget (filter P m) k = (case mget m k of None \<Rightarrow> None | Some v \<Rightarrow> if P (k, v) then Some v else None)"
proof (induction m)
  case Nil
  then show ?case by simp
next
  case (Cons p m)
  have "fst p \<notin> fst ` set m" and wf: "gomap_wf m"
    using Cons.prems by (auto simp: gomap_wf_def)
  then have "mget m (fst p) = None"
    by (metis map_of_eq_None_iff)
  with Cons.IH [OF wf] show ?case
    by (cases p) (auto split: option.splits)
qed

section \<open>Instants and durations\<close>

text \<open>
  An instant counts nanoseconds from Go's zero \<open>time.Time\<close>; \<open>IsZero\<close> is equality with 0.
  \<open>t.Sub(u)\<close> saturates at the ends of \<open>time.Duration\<close>, which matters when \<open>u\<close> is the zero time.
\<close>

definition maxDuration :: duration where
  "maxDuration = 2 ^ 63 - 1"

definition minDuration :: duration where
  "minDuration = - (2 ^ 63)"

definition timeSub :: "instant \<Rightarrow> instant \<Rightarrow> duration" where
  "timeSub t u = max minDuration (min maxDuration (t - u))"

abbreviation (input) nanosecond :: duration where "nanosecond \<equiv> 1"
abbreviation (input) millisecond :: duration where "millisecond \<equiv> 1000000"
abbreviation (input) second :: duration where "second \<equiv> 1000000000"

lemma timeSub_ge_iff:
  "minDuration < d \<Longrightarrow> d \<le> maxDuration \<Longrightarrow> (d \<le> timeSub t u) = (u + d \<le> t)"
  by (auto simp: timeSub_def)

lemma timeSub_self [simp]: "timeSub t t = 0"
  by (simp add: timeSub_def minDuration_def maxDuration_def)

end
