(* ===== verification/Enums.thy ===== *)
theory Enums
  imports Prelude
begin

text \<open>
  The protocol vocabulary (\<open>internal/enums\<close>): packet types, the DNS codes the tunnel uses, the
  control-packet acknowledgement tables, the 64-bit identity keys under which the transmit queues
  deduplicate packets, and the default queue priorities. The lemmas show that acknowledging is a
  bijection between requests and replies, that identity keys separate streams, types, sequence
  numbers and fragments, and that every priority is a valid queue index.
\<close>

section \<open>Packet types (\<open>dns.go\<close>)\<close>

abbreviation (input) PACKET_MTU_UP_REQ :: u8 where "PACKET_MTU_UP_REQ \<equiv> 1"
abbreviation (input) PACKET_MTU_UP_RES :: u8 where "PACKET_MTU_UP_RES \<equiv> 2"
abbreviation (input) PACKET_MTU_DOWN_REQ :: u8 where "PACKET_MTU_DOWN_REQ \<equiv> 3"
abbreviation (input) PACKET_MTU_DOWN_RES :: u8 where "PACKET_MTU_DOWN_RES \<equiv> 4"
abbreviation (input) PACKET_SESSION_INIT :: u8 where "PACKET_SESSION_INIT \<equiv> 5"
abbreviation (input) PACKET_SESSION_ACCEPT :: u8 where "PACKET_SESSION_ACCEPT \<equiv> 6"
abbreviation (input) PACKET_PING :: u8 where "PACKET_PING \<equiv> 7"
abbreviation (input) PACKET_PONG :: u8 where "PACKET_PONG \<equiv> 8"
abbreviation (input) PACKET_STREAM_SYN :: u8 where "PACKET_STREAM_SYN \<equiv> 9"
abbreviation (input) PACKET_STREAM_SYN_ACK :: u8 where "PACKET_STREAM_SYN_ACK \<equiv> 10"
abbreviation (input) PACKET_STREAM_CONNECTED :: u8 where "PACKET_STREAM_CONNECTED \<equiv> 11"
abbreviation (input) PACKET_STREAM_CONNECTED_ACK :: u8 where "PACKET_STREAM_CONNECTED_ACK \<equiv> 12"
abbreviation (input) PACKET_STREAM_CONNECT_FAIL :: u8 where "PACKET_STREAM_CONNECT_FAIL \<equiv> 13"
abbreviation (input) PACKET_STREAM_CONNECT_FAIL_ACK :: u8 where "PACKET_STREAM_CONNECT_FAIL_ACK \<equiv> 14"
abbreviation (input) PACKET_STREAM_DATA :: u8 where "PACKET_STREAM_DATA \<equiv> 15"
abbreviation (input) PACKET_STREAM_DATA_ACK :: u8 where "PACKET_STREAM_DATA_ACK \<equiv> 16"
abbreviation (input) PACKET_STREAM_DATA_NACK :: u8 where "PACKET_STREAM_DATA_NACK \<equiv> 17"
abbreviation (input) PACKET_STREAM_RESEND :: u8 where "PACKET_STREAM_RESEND \<equiv> 18"
abbreviation (input) PACKET_PACKED_CONTROL_BLOCKS :: u8 where "PACKET_PACKED_CONTROL_BLOCKS \<equiv> 19"
abbreviation (input) PACKET_STREAM_CLOSE_WRITE :: u8 where "PACKET_STREAM_CLOSE_WRITE \<equiv> 20"
abbreviation (input) PACKET_STREAM_CLOSE_WRITE_ACK :: u8 where "PACKET_STREAM_CLOSE_WRITE_ACK \<equiv> 21"
abbreviation (input) PACKET_STREAM_CLOSE_READ :: u8 where "PACKET_STREAM_CLOSE_READ \<equiv> 22"
abbreviation (input) PACKET_STREAM_CLOSE_READ_ACK :: u8 where "PACKET_STREAM_CLOSE_READ_ACK \<equiv> 23"
abbreviation (input) PACKET_STREAM_RST :: u8 where "PACKET_STREAM_RST \<equiv> 24"
abbreviation (input) PACKET_STREAM_RST_ACK :: u8 where "PACKET_STREAM_RST_ACK \<equiv> 25"
abbreviation (input) PACKET_SOCKS5_SYN :: u8 where "PACKET_SOCKS5_SYN \<equiv> 26"
abbreviation (input) PACKET_SOCKS5_SYN_ACK :: u8 where "PACKET_SOCKS5_SYN_ACK \<equiv> 27"
abbreviation (input) PACKET_SOCKS5_CONNECT_FAIL :: u8 where "PACKET_SOCKS5_CONNECT_FAIL \<equiv> 28"
abbreviation (input) PACKET_SOCKS5_CONNECT_FAIL_ACK :: u8 where "PACKET_SOCKS5_CONNECT_FAIL_ACK \<equiv> 29"
abbreviation (input) PACKET_SOCKS5_RULESET_DENIED :: u8 where "PACKET_SOCKS5_RULESET_DENIED \<equiv> 30"
abbreviation (input) PACKET_SOCKS5_RULESET_DENIED_ACK :: u8 where "PACKET_SOCKS5_RULESET_DENIED_ACK \<equiv> 31"
abbreviation (input) PACKET_SOCKS5_NETWORK_UNREACHABLE :: u8 where "PACKET_SOCKS5_NETWORK_UNREACHABLE \<equiv> 32"
abbreviation (input) PACKET_SOCKS5_NETWORK_UNREACHABLE_ACK :: u8 where "PACKET_SOCKS5_NETWORK_UNREACHABLE_ACK \<equiv> 33"
abbreviation (input) PACKET_SOCKS5_HOST_UNREACHABLE :: u8 where "PACKET_SOCKS5_HOST_UNREACHABLE \<equiv> 34"
abbreviation (input) PACKET_SOCKS5_HOST_UNREACHABLE_ACK :: u8 where "PACKET_SOCKS5_HOST_UNREACHABLE_ACK \<equiv> 35"
abbreviation (input) PACKET_SOCKS5_CONNECTION_REFUSED :: u8 where "PACKET_SOCKS5_CONNECTION_REFUSED \<equiv> 36"
abbreviation (input) PACKET_SOCKS5_CONNECTION_REFUSED_ACK :: u8 where "PACKET_SOCKS5_CONNECTION_REFUSED_ACK \<equiv> 37"
abbreviation (input) PACKET_SOCKS5_TTL_EXPIRED :: u8 where "PACKET_SOCKS5_TTL_EXPIRED \<equiv> 38"
abbreviation (input) PACKET_SOCKS5_TTL_EXPIRED_ACK :: u8 where "PACKET_SOCKS5_TTL_EXPIRED_ACK \<equiv> 39"
abbreviation (input) PACKET_SOCKS5_COMMAND_UNSUPPORTED :: u8 where "PACKET_SOCKS5_COMMAND_UNSUPPORTED \<equiv> 40"
abbreviation (input) PACKET_SOCKS5_COMMAND_UNSUPPORTED_ACK :: u8 where "PACKET_SOCKS5_COMMAND_UNSUPPORTED_ACK \<equiv> 41"
abbreviation (input) PACKET_SOCKS5_ADDRESS_TYPE_UNSUPPORTED :: u8 where "PACKET_SOCKS5_ADDRESS_TYPE_UNSUPPORTED \<equiv> 42"
abbreviation (input) PACKET_SOCKS5_ADDRESS_TYPE_UNSUPPORTED_ACK :: u8 where "PACKET_SOCKS5_ADDRESS_TYPE_UNSUPPORTED_ACK \<equiv> 43"
abbreviation (input) PACKET_SOCKS5_AUTH_FAILED :: u8 where "PACKET_SOCKS5_AUTH_FAILED \<equiv> 44"
abbreviation (input) PACKET_SOCKS5_AUTH_FAILED_ACK :: u8 where "PACKET_SOCKS5_AUTH_FAILED_ACK \<equiv> 45"
abbreviation (input) PACKET_SOCKS5_UPSTREAM_UNAVAILABLE :: u8 where "PACKET_SOCKS5_UPSTREAM_UNAVAILABLE \<equiv> 46"
abbreviation (input) PACKET_SOCKS5_UPSTREAM_UNAVAILABLE_ACK :: u8 where "PACKET_SOCKS5_UPSTREAM_UNAVAILABLE_ACK \<equiv> 47"
abbreviation (input) PACKET_SOCKS5_CONNECTED :: u8 where "PACKET_SOCKS5_CONNECTED \<equiv> 48"
abbreviation (input) PACKET_SOCKS5_CONNECTED_ACK :: u8 where "PACKET_SOCKS5_CONNECTED_ACK \<equiv> 49"
abbreviation (input) PACKET_DNS_QUERY_REQ :: u8 where "PACKET_DNS_QUERY_REQ \<equiv> 50"
abbreviation (input) PACKET_DNS_QUERY_RES :: u8 where "PACKET_DNS_QUERY_RES \<equiv> 51"
abbreviation (input) PACKET_DNS_QUERY_REQ_ACK :: u8 where "PACKET_DNS_QUERY_REQ_ACK \<equiv> 52"
abbreviation (input) PACKET_DNS_QUERY_RES_ACK :: u8 where "PACKET_DNS_QUERY_RES_ACK \<equiv> 53"
abbreviation (input) PACKET_SESSION_CLOSE :: u8 where "PACKET_SESSION_CLOSE \<equiv> 54"
abbreviation (input) PACKET_SESSION_BUSY :: u8 where "PACKET_SESSION_BUSY \<equiv> 55"
abbreviation (input) PACKET_ERROR_DROP :: u8 where "PACKET_ERROR_DROP \<equiv> 255"

section \<open>DNS record types, response codes and classes the tunnel uses (\<open>dns.go\<close>)\<close>

abbreviation (input) DNS_RECORD_TYPE_A :: u16 where "DNS_RECORD_TYPE_A \<equiv> 1"
abbreviation (input) DNS_RECORD_TYPE_NS :: u16 where "DNS_RECORD_TYPE_NS \<equiv> 2"
abbreviation (input) DNS_RECORD_TYPE_CNAME :: u16 where "DNS_RECORD_TYPE_CNAME \<equiv> 5"
abbreviation (input) DNS_RECORD_TYPE_SOA :: u16 where "DNS_RECORD_TYPE_SOA \<equiv> 6"
abbreviation (input) DNS_RECORD_TYPE_PTR :: u16 where "DNS_RECORD_TYPE_PTR \<equiv> 12"
abbreviation (input) DNS_RECORD_TYPE_MX :: u16 where "DNS_RECORD_TYPE_MX \<equiv> 15"
abbreviation (input) DNS_RECORD_TYPE_TXT :: u16 where "DNS_RECORD_TYPE_TXT \<equiv> 16"
abbreviation (input) DNS_RECORD_TYPE_AAAA :: u16 where "DNS_RECORD_TYPE_AAAA \<equiv> 28"
abbreviation (input) DNS_RECORD_TYPE_SRV :: u16 where "DNS_RECORD_TYPE_SRV \<equiv> 33"
abbreviation (input) DNS_RECORD_TYPE_NAPTR :: u16 where "DNS_RECORD_TYPE_NAPTR \<equiv> 35"
abbreviation (input) DNS_RECORD_TYPE_OPT :: u16 where "DNS_RECORD_TYPE_OPT \<equiv> 41"
abbreviation (input) DNS_RECORD_TYPE_TLSA :: u16 where "DNS_RECORD_TYPE_TLSA \<equiv> 52"
abbreviation (input) DNS_RECORD_TYPE_SVCB :: u16 where "DNS_RECORD_TYPE_SVCB \<equiv> 64"
abbreviation (input) DNS_RECORD_TYPE_HTTPS :: u16 where "DNS_RECORD_TYPE_HTTPS \<equiv> 65"
abbreviation (input) DNS_RECORD_TYPE_CAA :: u16 where "DNS_RECORD_TYPE_CAA \<equiv> 257"
abbreviation (input) DNSR_CODE_NO_ERROR :: u8 where "DNSR_CODE_NO_ERROR \<equiv> 0"
abbreviation (input) DNSR_CODE_FORMAT_ERROR :: u8 where "DNSR_CODE_FORMAT_ERROR \<equiv> 1"
abbreviation (input) DNSR_CODE_SERVER_FAILURE :: u8 where "DNSR_CODE_SERVER_FAILURE \<equiv> 2"
abbreviation (input) DNSR_CODE_NAME_ERROR :: u8 where "DNSR_CODE_NAME_ERROR \<equiv> 3"
abbreviation (input) DNSR_CODE_NOT_IMPLEMENTED :: u8 where "DNSR_CODE_NOT_IMPLEMENTED \<equiv> 4"
abbreviation (input) DNSR_CODE_REFUSED :: u8 where "DNSR_CODE_REFUSED \<equiv> 5"
abbreviation (input) DNSR_CODE_YXDOMAIN :: u8 where "DNSR_CODE_YXDOMAIN \<equiv> 6"
abbreviation (input) DNSR_CODE_YXRRSET :: u8 where "DNSR_CODE_YXRRSET \<equiv> 7"
abbreviation (input) DNSR_CODE_NXRRSET :: u8 where "DNSR_CODE_NXRRSET \<equiv> 8"
abbreviation (input) DNSR_CODE_NOT_AUTHORIZED :: u8 where "DNSR_CODE_NOT_AUTHORIZED \<equiv> 9"
abbreviation (input) DNSR_CODE_NOT_ZONE :: u8 where "DNSR_CODE_NOT_ZONE \<equiv> 10"
abbreviation (input) DNSQ_CLASS_IN :: u16 where "DNSQ_CLASS_IN \<equiv> 1"
abbreviation (input) DNSQ_CLASS_CS :: u16 where "DNSQ_CLASS_CS \<equiv> 2"
abbreviation (input) DNSQ_CLASS_CH :: u16 where "DNSQ_CLASS_CH \<equiv> 3"
abbreviation (input) DNSQ_CLASS_HS :: u16 where "DNSQ_CLASS_HS \<equiv> 4"
abbreviation (input) DNSQ_CLASS_ANY :: u16 where "DNSQ_CLASS_ANY \<equiv> 255"

section \<open>Names for log lines (\<open>dns_names.go\<close>)\<close>

text \<open>\<open>strconv.FormatUint(n, 10)\<close> and \<open>strconv.Itoa\<close> on non-negative numbers.\<close>

fun formatUint :: "nat \<Rightarrow> string" where
  "formatUint n =
     (if n < 10 then [char_of (48 + n)] else formatUint (n div 10) @ [char_of (48 + n mod 10)])"

declare formatUint.simps [simp del]

definition DNSRecordTypeName :: "u16 \<Rightarrow> string" where
  "DNSRecordTypeName qType =
     (case map_of
       [(DNS_RECORD_TYPE_A, ''A''),
        (DNS_RECORD_TYPE_AAAA, ''AAAA''),
        (DNS_RECORD_TYPE_CNAME, ''CNAME''),
        (DNS_RECORD_TYPE_MX, ''MX''),
        (DNS_RECORD_TYPE_NS, ''NS''),
        (DNS_RECORD_TYPE_PTR, ''PTR''),
        (DNS_RECORD_TYPE_SRV, ''SRV''),
        (DNS_RECORD_TYPE_SVCB, ''SVCB''),
        (DNS_RECORD_TYPE_CAA, ''CAA''),
        (DNS_RECORD_TYPE_NAPTR, ''NAPTR''),
        (DNS_RECORD_TYPE_SOA, ''SOA''),
        (DNS_RECORD_TYPE_TXT, ''TXT''),
        (DNS_RECORD_TYPE_HTTPS, ''HTTPS'')] qType of
        Some name \<Rightarrow> name
      | None \<Rightarrow> ''TYPE'' @ formatUint (unat qType))"

definition packetTypeNames :: "(u8 \<times> string) list" where
  "packetTypeNames =
    [(PACKET_MTU_UP_REQ, ''PACKET_MTU_UP_REQ''),
     (PACKET_MTU_UP_RES, ''PACKET_MTU_UP_RES''),
     (PACKET_MTU_DOWN_REQ, ''PACKET_MTU_DOWN_REQ''),
     (PACKET_MTU_DOWN_RES, ''PACKET_MTU_DOWN_RES''),
     (PACKET_SESSION_INIT, ''PACKET_SESSION_INIT''),
     (PACKET_SESSION_ACCEPT, ''PACKET_SESSION_ACCEPT''),
     (PACKET_PING, ''PACKET_PING''),
     (PACKET_PONG, ''PACKET_PONG''),
     (PACKET_STREAM_SYN, ''PACKET_STREAM_SYN''),
     (PACKET_STREAM_SYN_ACK, ''PACKET_STREAM_SYN_ACK''),
     (PACKET_STREAM_CONNECTED, ''PACKET_STREAM_CONNECTED''),
     (PACKET_STREAM_CONNECTED_ACK, ''PACKET_STREAM_CONNECTED_ACK''),
     (PACKET_STREAM_CONNECT_FAIL, ''PACKET_STREAM_CONNECT_FAIL''),
     (PACKET_STREAM_CONNECT_FAIL_ACK, ''PACKET_STREAM_CONNECT_FAIL_ACK''),
     (PACKET_STREAM_DATA, ''PACKET_STREAM_DATA''),
     (PACKET_STREAM_DATA_ACK, ''PACKET_STREAM_DATA_ACK''),
     (PACKET_STREAM_RESEND, ''PACKET_STREAM_RESEND''),
     (PACKET_PACKED_CONTROL_BLOCKS, ''PACKET_PACKED_CONTROL_BLOCKS''),
     (PACKET_STREAM_CLOSE_WRITE, ''PACKET_STREAM_CLOSE_WRITE''),
     (PACKET_STREAM_CLOSE_WRITE_ACK, ''PACKET_STREAM_CLOSE_WRITE_ACK''),
     (PACKET_STREAM_CLOSE_READ, ''PACKET_STREAM_CLOSE_READ''),
     (PACKET_STREAM_CLOSE_READ_ACK, ''PACKET_STREAM_CLOSE_READ_ACK''),
     (PACKET_STREAM_RST, ''PACKET_STREAM_RST''),
     (PACKET_STREAM_RST_ACK, ''PACKET_STREAM_RST_ACK''),
     (PACKET_SOCKS5_SYN, ''PACKET_SOCKS5_SYN''),
     (PACKET_SOCKS5_SYN_ACK, ''PACKET_SOCKS5_SYN_ACK''),
     (PACKET_SOCKS5_CONNECT_FAIL, ''PACKET_SOCKS5_CONNECT_FAIL''),
     (PACKET_SOCKS5_CONNECT_FAIL_ACK, ''PACKET_SOCKS5_CONNECT_FAIL_ACK''),
     (PACKET_SOCKS5_RULESET_DENIED, ''PACKET_SOCKS5_RULESET_DENIED''),
     (PACKET_SOCKS5_RULESET_DENIED_ACK, ''PACKET_SOCKS5_RULESET_DENIED_ACK''),
     (PACKET_SOCKS5_NETWORK_UNREACHABLE, ''PACKET_SOCKS5_NETWORK_UNREACHABLE''),
     (PACKET_SOCKS5_HOST_UNREACHABLE, ''PACKET_SOCKS5_HOST_UNREACHABLE''),
     (PACKET_SOCKS5_HOST_UNREACHABLE_ACK, ''PACKET_SOCKS5_HOST_UNREACHABLE_ACK''),
     (PACKET_SOCKS5_CONNECTION_REFUSED, ''PACKET_SOCKS5_CONNECTION_REFUSED''),
     (PACKET_SOCKS5_CONNECTION_REFUSED_ACK, ''PACKET_SOCKS5_CONNECTION_REFUSED_ACK''),
     (PACKET_SOCKS5_TTL_EXPIRED, ''PACKET_SOCKS5_TTL_EXPIRED''),
     (PACKET_SOCKS5_TTL_EXPIRED_ACK, ''PACKET_SOCKS5_TTL_EXPIRED_ACK''),
     (PACKET_SOCKS5_COMMAND_UNSUPPORTED, ''PACKET_SOCKS5_COMMAND_UNSUPPORTED''),
     (PACKET_SOCKS5_COMMAND_UNSUPPORTED_ACK, ''PACKET_SOCKS5_COMMAND_UNSUPPORTED_ACK''),
     (PACKET_SOCKS5_ADDRESS_TYPE_UNSUPPORTED, ''PACKET_SOCKS5_ADDRESS_TYPE_UNSUPPORTED''),
     (PACKET_SOCKS5_ADDRESS_TYPE_UNSUPPORTED_ACK, ''PACKET_SOCKS5_ADDRESS_TYPE_UNSUPPORTED_ACK''),
     (PACKET_SOCKS5_AUTH_FAILED, ''PACKET_SOCKS5_AUTH_FAILED''),
     (PACKET_SOCKS5_AUTH_FAILED_ACK, ''PACKET_SOCKS5_AUTH_FAILED_ACK''),
     (PACKET_SOCKS5_UPSTREAM_UNAVAILABLE, ''PACKET_SOCKS5_UPSTREAM_UNAVAILABLE''),
     (PACKET_SOCKS5_UPSTREAM_UNAVAILABLE_ACK, ''PACKET_SOCKS5_UPSTREAM_UNAVAILABLE_ACK''),
     (PACKET_SOCKS5_CONNECTED, ''PACKET_SOCKS5_CONNECTED''),
     (PACKET_SOCKS5_CONNECTED_ACK, ''PACKET_SOCKS5_CONNECTED_ACK''),
     (PACKET_DNS_QUERY_REQ, ''PACKET_DNS_QUERY_REQ''),
     (PACKET_DNS_QUERY_RES, ''PACKET_DNS_QUERY_RES''),
     (PACKET_DNS_QUERY_REQ_ACK, ''PACKET_DNS_QUERY_REQ_ACK''),
     (PACKET_DNS_QUERY_RES_ACK, ''PACKET_DNS_QUERY_RES_ACK''),
     (PACKET_SESSION_CLOSE, ''PACKET_SESSION_CLOSE''),
     (PACKET_SESSION_BUSY, ''PACKET_SESSION_BUSY''),
     (PACKET_STREAM_DATA_NACK, ''PACKET_STREAM_DATA_NACK''),
     (PACKET_ERROR_DROP, ''PACKET_ERROR_DROP'')]"

definition PacketTypeName :: "u8 \<Rightarrow> string" where
  "PacketTypeName packetType =
     (case map_of packetTypeNames packetType of
        Some name \<Rightarrow> name
      | None \<Rightarrow> ''PACKET_'' @ formatUint (unat packetType))"

section \<open>Acknowledgement pairs (\<open>packet_ack.go\<close>)\<close>

definition ControlAckPairs :: "(u8, u8) gomap" where
  "ControlAckPairs =
    [(PACKET_DNS_QUERY_REQ, PACKET_DNS_QUERY_REQ_ACK),
     (PACKET_DNS_QUERY_RES, PACKET_DNS_QUERY_RES_ACK),
     (PACKET_STREAM_SYN, PACKET_STREAM_SYN_ACK),
     (PACKET_STREAM_CONNECTED, PACKET_STREAM_CONNECTED_ACK),
     (PACKET_STREAM_CONNECT_FAIL, PACKET_STREAM_CONNECT_FAIL_ACK),
     (PACKET_STREAM_CLOSE_WRITE, PACKET_STREAM_CLOSE_WRITE_ACK),
     (PACKET_STREAM_CLOSE_READ, PACKET_STREAM_CLOSE_READ_ACK),
     (PACKET_STREAM_RST, PACKET_STREAM_RST_ACK),
     (PACKET_SOCKS5_SYN, PACKET_SOCKS5_SYN_ACK),
     (PACKET_SOCKS5_CONNECT_FAIL, PACKET_SOCKS5_CONNECT_FAIL_ACK),
     (PACKET_SOCKS5_RULESET_DENIED, PACKET_SOCKS5_RULESET_DENIED_ACK),
     (PACKET_SOCKS5_NETWORK_UNREACHABLE, PACKET_SOCKS5_NETWORK_UNREACHABLE_ACK),
     (PACKET_SOCKS5_HOST_UNREACHABLE, PACKET_SOCKS5_HOST_UNREACHABLE_ACK),
     (PACKET_SOCKS5_CONNECTION_REFUSED, PACKET_SOCKS5_CONNECTION_REFUSED_ACK),
     (PACKET_SOCKS5_TTL_EXPIRED, PACKET_SOCKS5_TTL_EXPIRED_ACK),
     (PACKET_SOCKS5_COMMAND_UNSUPPORTED, PACKET_SOCKS5_COMMAND_UNSUPPORTED_ACK),
     (PACKET_SOCKS5_ADDRESS_TYPE_UNSUPPORTED, PACKET_SOCKS5_ADDRESS_TYPE_UNSUPPORTED_ACK),
     (PACKET_SOCKS5_AUTH_FAILED, PACKET_SOCKS5_AUTH_FAILED_ACK),
     (PACKET_SOCKS5_UPSTREAM_UNAVAILABLE, PACKET_SOCKS5_UPSTREAM_UNAVAILABLE_ACK),
     (PACKET_SOCKS5_CONNECTED, PACKET_SOCKS5_CONNECTED_ACK)]"

definition PacketsCloseStream :: "(u8, u8) gomap" where
  "PacketsCloseStream =
    [(PACKET_STREAM_RST, PACKET_STREAM_RST_ACK),
     (PACKET_STREAM_CLOSE_WRITE, PACKET_STREAM_CLOSE_WRITE_ACK),
     (PACKET_STREAM_CLOSE_READ, PACKET_STREAM_CLOSE_READ_ACK),
     (PACKET_SOCKS5_RULESET_DENIED, PACKET_SOCKS5_RULESET_DENIED_ACK),
     (PACKET_SOCKS5_NETWORK_UNREACHABLE, PACKET_SOCKS5_NETWORK_UNREACHABLE_ACK),
     (PACKET_SOCKS5_HOST_UNREACHABLE, PACKET_SOCKS5_HOST_UNREACHABLE_ACK),
     (PACKET_SOCKS5_CONNECTION_REFUSED, PACKET_SOCKS5_CONNECTION_REFUSED_ACK),
     (PACKET_SOCKS5_TTL_EXPIRED, PACKET_SOCKS5_TTL_EXPIRED_ACK),
     (PACKET_SOCKS5_COMMAND_UNSUPPORTED, PACKET_SOCKS5_COMMAND_UNSUPPORTED_ACK),
     (PACKET_SOCKS5_ADDRESS_TYPE_UNSUPPORTED, PACKET_SOCKS5_ADDRESS_TYPE_UNSUPPORTED_ACK),
     (PACKET_SOCKS5_AUTH_FAILED, PACKET_SOCKS5_AUTH_FAILED_ACK),
     (PACKET_SOCKS5_UPSTREAM_UNAVAILABLE, PACKET_SOCKS5_UPSTREAM_UNAVAILABLE_ACK),
     (PACKET_STREAM_CONNECT_FAIL, PACKET_STREAM_CONNECT_FAIL_ACK),
     (PACKET_SOCKS5_CONNECT_FAIL, PACKET_SOCKS5_CONNECT_FAIL_ACK)]"

text \<open>A Go \<open>(value, ok)\<close> map read is an option.\<close>

definition GetPacketCloseStream :: "u8 \<Rightarrow> u8 option" where
  "GetPacketCloseStream packetType = mget PacketsCloseStream packetType"

text \<open>\<open>init()\<close> fills the reverse table entry by entry.\<close>

definition reverseControlAckPairs :: "(u8, u8) gomap" where
  "reverseControlAckPairs = fold (\<lambda>(packetType, ackType) m. mput m ackType packetType) ControlAckPairs []"

definition ControlAckFor :: "u8 \<Rightarrow> u8 option" where
  "ControlAckFor packetType = mget ControlAckPairs packetType"

definition ReverseControlAckFor :: "u8 \<Rightarrow> u8 option" where
  "ReverseControlAckFor ackType = mget reverseControlAckPairs ackType"

section \<open>Identity keys (\<open>packet_identity.go\<close>)\<close>

definition PacketTypeStreamKey :: "u16 \<Rightarrow> u8 \<Rightarrow> u64" where
  "PacketTypeStreamKey streamID packetType =
     push_bit 40 (ucast streamID) OR push_bit 32 (ucast packetType)"

definition packetIdentitySeq :: "u16 \<Rightarrow> u8 \<Rightarrow> u16 \<Rightarrow> u64" where
  "packetIdentitySeq streamID packetType sequenceNum =
     push_bit 40 (ucast streamID) OR push_bit 32 (ucast packetType) OR push_bit 8 (ucast sequenceNum)"

definition packetIdentitySeqFrag :: "u16 \<Rightarrow> u8 \<Rightarrow> u16 \<Rightarrow> u8 \<Rightarrow> u64" where
  "packetIdentitySeqFrag streamID packetType sequenceNum fragmentID =
     push_bit 40 (ucast streamID) OR push_bit 32 (ucast packetType) OR
     push_bit 8 (ucast sequenceNum) OR ucast fragmentID"

definition identityPerFragment :: "u8 list" where
  "identityPerFragment =
     [PACKET_STREAM_DATA, PACKET_STREAM_RESEND, PACKET_STREAM_DATA_ACK, PACKET_STREAM_DATA_NACK,
      PACKET_STREAM_SYN, PACKET_STREAM_SYN_ACK, PACKET_SOCKS5_SYN, PACKET_SOCKS5_SYN_ACK,
      PACKET_DNS_QUERY_REQ, PACKET_DNS_QUERY_REQ_ACK, PACKET_DNS_QUERY_RES,
      PACKET_DNS_QUERY_RES_ACK]"

definition identityPerSequence :: "u8 list" where
  "identityPerSequence =
     [PACKET_STREAM_CLOSE_WRITE, PACKET_STREAM_CLOSE_WRITE_ACK, PACKET_STREAM_CLOSE_READ,
      PACKET_STREAM_CLOSE_READ_ACK, PACKET_STREAM_RST, PACKET_STREAM_RST_ACK,
      PACKET_STREAM_CONNECTED, PACKET_STREAM_CONNECTED_ACK, PACKET_STREAM_CONNECT_FAIL,
      PACKET_STREAM_CONNECT_FAIL_ACK, PACKET_SOCKS5_CONNECT_FAIL, PACKET_SOCKS5_CONNECT_FAIL_ACK,
      PACKET_SOCKS5_RULESET_DENIED, PACKET_SOCKS5_RULESET_DENIED_ACK,
      PACKET_SOCKS5_NETWORK_UNREACHABLE, PACKET_SOCKS5_NETWORK_UNREACHABLE_ACK,
      PACKET_SOCKS5_HOST_UNREACHABLE, PACKET_SOCKS5_HOST_UNREACHABLE_ACK,
      PACKET_SOCKS5_CONNECTION_REFUSED, PACKET_SOCKS5_CONNECTION_REFUSED_ACK,
      PACKET_SOCKS5_TTL_EXPIRED, PACKET_SOCKS5_TTL_EXPIRED_ACK,
      PACKET_SOCKS5_COMMAND_UNSUPPORTED, PACKET_SOCKS5_COMMAND_UNSUPPORTED_ACK,
      PACKET_SOCKS5_ADDRESS_TYPE_UNSUPPORTED, PACKET_SOCKS5_ADDRESS_TYPE_UNSUPPORTED_ACK,
      PACKET_SOCKS5_AUTH_FAILED, PACKET_SOCKS5_AUTH_FAILED_ACK,
      PACKET_SOCKS5_UPSTREAM_UNAVAILABLE, PACKET_SOCKS5_UPSTREAM_UNAVAILABLE_ACK,
      PACKET_SOCKS5_CONNECTED, PACKET_SOCKS5_CONNECTED_ACK, PACKET_PACKED_CONTROL_BLOCKS,
      PACKET_ERROR_DROP, PACKET_PING, PACKET_PONG]"

definition PacketIdentityKey :: "u16 \<Rightarrow> u8 \<Rightarrow> u16 \<Rightarrow> u8 \<Rightarrow> u64" where
  "PacketIdentityKey streamID packetType sequenceNum fragmentID =
     (if packetType \<in> set identityPerFragment
        then packetIdentitySeqFrag streamID packetType sequenceNum fragmentID
      else if packetType \<in> set identityPerSequence
        then packetIdentitySeq streamID packetType sequenceNum
      else if packetType \<in> set [PACKET_SESSION_CLOSE, PACKET_SESSION_BUSY]
        then PacketTypeStreamKey streamID packetType
      else packetIdentitySeqFrag streamID packetType sequenceNum fragmentID)"

section \<open>Queue priorities (\<open>packet_priority.go\<close>)\<close>

abbreviation (input) PacketPriorityCritical :: int where "PacketPriorityCritical \<equiv> 0"
abbreviation (input) PacketPriorityRetry :: int where "PacketPriorityRetry \<equiv> 1"
abbreviation (input) PacketPriorityHigh :: int where "PacketPriorityHigh \<equiv> 2"
abbreviation (input) PacketPriorityNormal :: int where "PacketPriorityNormal \<equiv> 3"
abbreviation (input) PacketPriorityLow :: int where "PacketPriorityLow \<equiv> 4"
abbreviation (input) PacketPriorityIdle :: int where "PacketPriorityIdle \<equiv> 5"

definition criticalPackets :: "u8 list" where
  "criticalPackets =
     [PACKET_STREAM_DATA_ACK, PACKET_STREAM_DATA_NACK, PACKET_STREAM_SYN, PACKET_STREAM_SYN_ACK,
      PACKET_STREAM_CONNECTED, PACKET_STREAM_CONNECTED_ACK, PACKET_STREAM_CONNECT_FAIL,
      PACKET_STREAM_CONNECT_FAIL_ACK, PACKET_STREAM_CLOSE_WRITE_ACK, PACKET_STREAM_CLOSE_READ,
      PACKET_STREAM_CLOSE_READ_ACK, PACKET_STREAM_RST, PACKET_STREAM_RST_ACK, PACKET_SOCKS5_SYN,
      PACKET_SOCKS5_SYN_ACK, PACKET_SOCKS5_CONNECT_FAIL, PACKET_SOCKS5_CONNECT_FAIL_ACK,
      PACKET_SOCKS5_RULESET_DENIED, PACKET_SOCKS5_RULESET_DENIED_ACK,
      PACKET_SOCKS5_NETWORK_UNREACHABLE, PACKET_SOCKS5_NETWORK_UNREACHABLE_ACK,
      PACKET_SOCKS5_HOST_UNREACHABLE, PACKET_SOCKS5_HOST_UNREACHABLE_ACK,
      PACKET_SOCKS5_CONNECTION_REFUSED, PACKET_SOCKS5_CONNECTION_REFUSED_ACK,
      PACKET_SOCKS5_TTL_EXPIRED, PACKET_SOCKS5_TTL_EXPIRED_ACK,
      PACKET_SOCKS5_COMMAND_UNSUPPORTED, PACKET_SOCKS5_COMMAND_UNSUPPORTED_ACK,
      PACKET_SOCKS5_ADDRESS_TYPE_UNSUPPORTED, PACKET_SOCKS5_ADDRESS_TYPE_UNSUPPORTED_ACK,
      PACKET_SOCKS5_AUTH_FAILED, PACKET_SOCKS5_AUTH_FAILED_ACK,
      PACKET_SOCKS5_UPSTREAM_UNAVAILABLE, PACKET_SOCKS5_UPSTREAM_UNAVAILABLE_ACK,
      PACKET_SOCKS5_CONNECTED, PACKET_SOCKS5_CONNECTED_ACK, PACKET_DNS_QUERY_REQ_ACK,
      PACKET_DNS_QUERY_RES_ACK]"

definition DefaultPacketPriority :: "u8 \<Rightarrow> int" where
  "DefaultPacketPriority packetType =
     (if packetType \<in> set criticalPackets then PacketPriorityCritical
      else if packetType \<in> set [PACKET_STREAM_RESEND, PACKET_DNS_QUERY_RES, PACKET_DNS_QUERY_REQ] then PacketPriorityRetry
      else if packetType \<in> set [PACKET_STREAM_DATA] then PacketPriorityNormal
      else if packetType \<in> set [PACKET_STREAM_CLOSE_WRITE, PACKET_SESSION_CLOSE] then PacketPriorityLow
      else if packetType \<in> set [PACKET_PING, PACKET_PONG] then PacketPriorityIdle
      else PacketPriorityNormal)"

definition NormalizePacketPriority :: "u8 \<Rightarrow> int \<Rightarrow> int" where
  "NormalizePacketPriority packetType priority =
     (if PacketPriorityCritical \<le> priority \<and> priority \<le> PacketPriorityIdle then priority
      else DefaultPacketPriority packetType)"

section \<open>Acknowledgement tables are mutually inverse\<close>

lemma fold_mput_swap:
  "mget (fold (\<lambda>(p, a) m. mput m a p) ps m0) x =
   (case map_of (rev (map prod.swap ps)) x of Some p \<Rightarrow> Some p | None \<Rightarrow> mget m0 x)"
proof (induction ps arbitrary: m0)
  case Nil
  then show ?case by simp
next
  case (Cons q ps)
  then show ?case by (cases q) (auto simp: map_add_def split: option.splits)
qed

lemma map_of_swap_iff:
  assumes "distinct (map fst ps)" and "distinct (map snd ps)"
  shows "map_of (map prod.swap ps) a = Some p \<longleftrightarrow> map_of ps p = Some a"
proof -
  have d: "distinct (map fst (map prod.swap ps))"
    using assms(2) by (simp add: comp_def)
  have "map_of (map prod.swap ps) a = Some p \<longleftrightarrow> (a, p) \<in> set (map prod.swap ps)"
    using d by (simp only: map_of_eq_Some_iff)
  also have "\<dots> \<longleftrightarrow> (p, a) \<in> set ps"
    by force
  finally show ?thesis using assms(1) by simp
qed

lemma ControlAckPairs_distinct:
  "distinct (map fst ControlAckPairs)" "distinct (map snd ControlAckPairs)"
  by (simp_all add: ControlAckPairs_def)

lemma ReverseControlAckFor_iff:
  "ReverseControlAckFor a = Some p \<longleftrightarrow> ControlAckFor p = Some a"
proof -
  have "distinct (map fst (map prod.swap ControlAckPairs))"
    using ControlAckPairs_distinct(2) by (simp add: comp_def)
  then have "map_of (rev (map prod.swap ControlAckPairs)) = map_of (map prod.swap ControlAckPairs)"
    by (intro map_of_inject_set [THEN iffD2]) (simp_all add: rev_map [symmetric] del: map_map)
  then have "ReverseControlAckFor a = map_of (map prod.swap ControlAckPairs) a"
    by (simp add: ReverseControlAckFor_def reverseControlAckPairs_def fold_mput_swap split: option.splits)
  then show ?thesis
    by (simp add: ControlAckFor_def map_of_swap_iff ControlAckPairs_distinct)
qed

lemma close_stream_ack_is_control_ack:
  "GetPacketCloseStream p = Some a \<Longrightarrow> ControlAckFor p = Some a"
  by (auto simp: GetPacketCloseStream_def ControlAckFor_def PacketsCloseStream_def ControlAckPairs_def
      split: if_splits)

section \<open>Identity keys separate packets\<close>

text \<open>The key's bit fields: fragment 0--7, sequence 8--23, type 32--39, stream 40--55.\<close>

lemma identity_frag: "(ucast (packetIdentitySeqFrag s t n f) :: u8) = f"
  by (rule bit_word_eqI) (auto simp: packetIdentitySeqFrag_def bit_simps)

lemma identity_seq: "(ucast (drop_bit 8 (packetIdentitySeqFrag s t n f)) :: u16) = n"
  by (rule bit_word_eqI) (auto simp: packetIdentitySeqFrag_def bit_simps dest: bit_imp_le_length)

lemma identity_type: "(ucast (drop_bit 32 (packetIdentitySeqFrag s t n f)) :: u8) = t"
  by (rule bit_word_eqI) (auto simp: packetIdentitySeqFrag_def bit_simps dest: bit_imp_le_length)

lemma identity_stream: "(ucast (drop_bit 40 (packetIdentitySeqFrag s t n f)) :: u16) = s"
  by (rule bit_word_eqI) (auto simp: packetIdentitySeqFrag_def bit_simps dest: bit_imp_le_length)

lemma packetIdentitySeqFrag_inj:
  "packetIdentitySeqFrag s t n f = packetIdentitySeqFrag s' t' n' f' \<longleftrightarrow>
   s = s' \<and> t = t' \<and> n = n' \<and> f = f'"
  by (metis identity_frag identity_seq identity_type identity_stream)

lemma packetIdentitySeq_frag0: "packetIdentitySeq s t n = packetIdentitySeqFrag s t n 0"
  by (simp add: packetIdentitySeq_def packetIdentitySeqFrag_def)

lemma PacketTypeStreamKey_frag0: "PacketTypeStreamKey s t = packetIdentitySeqFrag s t 0 0"
  by (simp add: PacketTypeStreamKey_def packetIdentitySeqFrag_def)

text \<open>Which of the sequence number and the fragment number a packet type's key keeps.\<close>

definition keyKeepsSeq :: "u8 \<Rightarrow> bool" where
  "keyKeepsSeq t \<longleftrightarrow> t \<noteq> PACKET_SESSION_CLOSE \<and> t \<noteq> PACKET_SESSION_BUSY"

definition keyKeepsFrag :: "u8 \<Rightarrow> bool" where
  "keyKeepsFrag t \<longleftrightarrow> keyKeepsSeq t \<and> t \<notin> set identityPerSequence"

lemma identity_classes_disjoint:
  "t \<in> set identityPerFragment \<Longrightarrow> t \<notin> set identityPerSequence \<and> keyKeepsSeq t"
  "t \<in> set identityPerSequence \<Longrightarrow> keyKeepsSeq t"
  by (auto simp: identityPerFragment_def identityPerSequence_def keyKeepsSeq_def)

lemma PacketIdentityKey_normal:
  "PacketIdentityKey s t n f =
     packetIdentitySeqFrag s t (if keyKeepsSeq t then n else 0) (if keyKeepsFrag t then f else 0)"
  using identity_classes_disjoint [of t]
  by (auto simp: PacketIdentityKey_def packetIdentitySeq_frag0 PacketTypeStreamKey_frag0
      keyKeepsFrag_def keyKeepsSeq_def)

lemma PacketIdentityKey_eq_iff:
  "PacketIdentityKey s t n f = PacketIdentityKey s' t' n' f' \<longleftrightarrow>
   s = s' \<and> t = t' \<and> (keyKeepsSeq t \<longrightarrow> n = n') \<and> (keyKeepsFrag t \<longrightarrow> f = f')"
  by (auto simp: PacketIdentityKey_normal packetIdentitySeqFrag_inj)

section \<open>Priorities are queue indices\<close>

lemma DefaultPacketPriority_range: "0 \<le> DefaultPacketPriority t \<and> DefaultPacketPriority t \<le> 5"
  by (simp add: DefaultPacketPriority_def)

lemma NormalizePacketPriority_range [simp]:
  "0 \<le> NormalizePacketPriority t p" "NormalizePacketPriority t p \<le> 5"
  using DefaultPacketPriority_range [of t] by (simp_all add: NormalizePacketPriority_def)

end
