(* ===== verification/Mlq.thy ===== *)
theory Mlq
  imports Prelude
begin

text \<open>
  The multi-level transmit queue (\<open>internal/mlq/mlq.go\<close>): six FIFO lists indexed by priority, a
  bit mask of the non-empty levels, an atomic element counter and a census map from identity key
  to queue element. The invariant ties the four together; the operations are shown to implement
  the queue interface \<open>keyed_queue\<close>, whose laws the stream theories use.
\<close>

section \<open>State\<close>

text \<open>
  A \<open>container/list\<close> element is a heap object. It is modelled by a value together with the
  allocation number \<open>eid\<close> that stands for its address, so \<open>Remove(elem)\<close> removes that very object.
\<close>

record 'a queueEntry =
  qkey :: u64
  qitem :: 'a

record 'a element =
  eid :: nat
  evalue :: "'a queueEntry"

record 'a censusEntry =
  cpriority :: nat
  celem :: "'a element"

record 'a mlq =
  queues :: "'a element list list"
  bitmask :: u16
  fastSize :: u32
  census :: "(u64, 'a censusEntry) gomap"
  nextElem :: nat

definition queueLevels :: nat where
  "queueLevels = 6"

definition mlq_New :: "'a mlq" where
  "mlq_New = \<lparr>queues = replicate 6 [], bitmask = 0, fastSize = 0, census = [], nextElem = 0\<rparr>"

section \<open>Operations\<close>

text \<open>\<open>bits.TrailingZeros16\<close>.\<close>

definition trailingZeros16 :: "u16 \<Rightarrow> nat" where
  "trailingZeros16 w = length (takeWhile (\<lambda>i. \<not> bit w i) [0..<16])"

definition setLevelBit :: "u16 \<Rightarrow> nat \<Rightarrow> u16" where
  "setLevelBit w p = w OR push_bit p 1"

definition clearLevelBit :: "u16 \<Rightarrow> nat \<Rightarrow> u16" where
  "clearLevelBit w p = w AND NOT (push_bit p 1)"

text \<open>\<open>list.Remove(elem)\<close>.\<close>

definition removeElem :: "'a element \<Rightarrow> 'a element list \<Rightarrow> 'a element list" where
  "removeElem e q = filter (\<lambda>x. eid x \<noteq> eid e) q"

definition mlq_Push :: "'a mlq \<Rightarrow> int \<Rightarrow> u64 \<Rightarrow> 'a \<Rightarrow> 'a mlq \<times> bool" where
  "mlq_Push m priority key item =
     (if mget (census m) key \<noteq> None then (m, False)
      else
        let p = (if priority < 0 \<or> int (length (queues m)) \<le> priority then 3 else nat priority);
            elem = \<lparr>eid = nextElem m, evalue = \<lparr>qkey = key, qitem = item\<rparr>\<rparr>
        in (m\<lparr>queues := (queues m)[p := queues m ! p @ [elem]],
              census := mput (census m) key \<lparr>cpriority = p, celem = elem\<rparr>,
              bitmask := setLevelBit (bitmask m) p,
              fastSize := fastSize m + 1,
              nextElem := Suc (nextElem m)\<rparr>, True))"

text \<open>What \<open>popLocked\<close>, \<open>PopIf\<close>, \<open>PopAnyIf\<close> and \<open>RemoveByKey\<close> do once they chose an element.\<close>

definition takeElem :: "'a mlq \<Rightarrow> nat \<Rightarrow> 'a element \<Rightarrow> u64 \<Rightarrow> 'a mlq" where
  "takeElem m p e key =
     (let q = removeElem e (queues m ! p)
      in m\<lparr>queues := (queues m)[p := q],
           census := mdel (census m) key,
           fastSize := fastSize m - 1,
           bitmask := (if q = [] then clearLevelBit (bitmask m) p else bitmask m)\<rparr>)"

lemma bit_push_1 [simp]: "bit (push_bit p (1 :: u16)) i \<longleftrightarrow> i = p \<and> p < 16"
  by (auto simp: bit_simps)

lemma bit_clearLevelBit [simp]: "bit (clearLevelBit w p) i \<longleftrightarrow> bit w i \<and> i \<noteq> p"
  by (auto simp: clearLevelBit_def bit_simps dest: bit_imp_le_length)

lemma bit_setLevelBit [simp]: "bit (setLevelBit w p) i \<longleftrightarrow> bit w i \<or> i = p \<and> p < 16"
  by (auto simp: setLevelBit_def bit_simps)

lemma trailingZeros16_bit:
  assumes "w \<noteq> 0"
  shows "bit w (trailingZeros16 w)" and "trailingZeros16 w < 16"
    and "i < trailingZeros16 w \<Longrightarrow> \<not> bit w i"
proof -
  let ?P = "\<lambda>i. \<not> bit w i"
  obtain n where "bit w n" using assms by (auto simp: bit_eq_iff)
  then have "n < 16" by (auto dest: bit_imp_le_length)
  then have ex: "\<exists>x \<in> set [0..<16]. \<not> ?P x" using \<open>bit w n\<close> by auto
  then have "\<not> (\<forall>x \<in> set [0..<16]. ?P x)" by blast
  then have lt: "length (takeWhile ?P [0..<16]) < length [0..<16::nat]"
    by (metis length_takeWhile_le le_neq_implies_less takeWhile_eq_all_conv takeWhile_eq_take take_all order_refl)
  then show "trailingZeros16 w < 16" by (simp add: trailingZeros16_def)
  show "bit w (trailingZeros16 w)"
    using nth_length_takeWhile [OF lt] lt by (simp add: trailingZeros16_def)
  assume "i < trailingZeros16 w"
  then show "\<not> bit w i"
    using lt takeWhile_nth [of i ?P "[0..<16]"] set_takeWhileD
    by (metis (no_types, lifting) add_0 length_upt minus_nat.diff_0 nth_mem nth_upt order.strict_trans trailingZeros16_def)
qed

text \<open>The scan for the highest non-empty level clears stale bits, so it ends.\<close>

lemma clearLevelBit_decreases:
  "w \<noteq> 0 \<Longrightarrow> card {i. bit (clearLevelBit w (trailingZeros16 w)) i} < card {i. bit (w :: u16) i}"
proof (rule psubset_card_mono)
  have "{i. bit w i} \<subseteq> {..<16}" by (auto dest: bit_imp_le_length)
  then show "finite {i. bit w i}" by (rule finite_subset) simp
  show "w \<noteq> 0 \<Longrightarrow> {i. bit (clearLevelBit w (trailingZeros16 w)) i} \<subset> {i. bit w i}"
    using trailingZeros16_bit(1) [of w] by auto
qed

function mlq_popLocked :: "'a mlq \<Rightarrow> 'a mlq \<times> ('a \<times> nat) option" where
  "mlq_popLocked m =
     (if bitmask m = 0 then (m, None)
      else
        let p = trailingZeros16 (bitmask m)
        in case queues m ! p of
             [] \<Rightarrow> mlq_popLocked (m\<lparr>bitmask := clearLevelBit (bitmask m) p\<rparr>)
           | e # _ \<Rightarrow> (takeElem m p e (qkey (evalue e)), Some (qitem (evalue e), p)))"
  by pat_completeness auto
termination
  by (relation "measure (\<lambda>m. card {i. bit (bitmask m) i})") (simp_all add: clearLevelBit_decreases)

declare mlq_popLocked.simps [simp del]

definition mlq_Pop :: "'a mlq \<Rightarrow> 'a mlq \<times> ('a \<times> nat) option" where
  "mlq_Pop m = mlq_popLocked m"

function mlq_peekFrom :: "'a mlq \<Rightarrow> u16 \<Rightarrow> ('a \<times> nat) option" where
  "mlq_peekFrom m tempMask =
     (if tempMask = 0 then None
      else
        let p = trailingZeros16 tempMask
        in case queues m ! p of
             e # _ \<Rightarrow> Some (qitem (evalue e), p)
           | [] \<Rightarrow> mlq_peekFrom m (clearLevelBit tempMask p))"
  by pat_completeness auto
termination
  by (relation "measure (\<lambda>(m, w). card {i. bit w i})") (simp_all add: clearLevelBit_decreases)

declare mlq_peekFrom.simps [simp del]

definition mlq_Peek :: "'a mlq \<Rightarrow> ('a \<times> nat) option" where
  "mlq_Peek m = (if bitmask m = 0 then None else mlq_peekFrom m (bitmask m))"

definition mlq_Get :: "'a mlq \<Rightarrow> u64 \<Rightarrow> 'a option" where
  "mlq_Get m key =
     (case mget (census m) key of
        None \<Rightarrow> None
      | Some c \<Rightarrow> Some (qitem (evalue (celem c))))"

definition mlq_RemoveByKey :: "'a mlq \<Rightarrow> u64 \<Rightarrow> 'a mlq \<times> 'a option" where
  "mlq_RemoveByKey m key =
     (case mget (census m) key of
        None \<Rightarrow> (m, None)
      | Some c \<Rightarrow>
          if length (queues m) \<le> cpriority c then (m, None)
          else (takeElem m (cpriority c) (celem c) key, Some (qitem (evalue (celem c)))))"

definition mlq_Count :: "'a mlq \<Rightarrow> int \<Rightarrow> nat" where
  "mlq_Count m priority =
     (if priority < 0 \<or> int (length (queues m)) \<le> priority then 0
      else length (queues m ! nat priority))"

definition mlq_Size :: "'a mlq \<Rightarrow> nat" where
  "mlq_Size m = length (census m)"

definition mlq_FastSize :: "'a mlq \<Rightarrow> int" where
  "mlq_FastSize m = sint (fastSize m)"

text \<open>\<open>Clear\<close> returns the items its callback is called with, in that order.\<close>

definition mlq_Clear :: "'a mlq \<Rightarrow> 'a mlq \<times> 'a list" where
  "mlq_Clear m =
     (m\<lparr>queues := map (\<lambda>_. []) (queues m), census := [], bitmask := 0, fastSize := 0\<rparr>,
      concat (map (map (\<lambda>e. qitem (evalue e))) (queues m)))"

definition mlq_HighestPriority :: "'a mlq \<Rightarrow> int" where
  "mlq_HighestPriority m = (if bitmask m = 0 then -1 else int (trailingZeros16 (bitmask m)))"

text \<open>A nil predicate accepts every item.\<close>

definition accepts :: "('a \<Rightarrow> bool) option \<Rightarrow> 'a \<Rightarrow> bool" where
  "accepts predicate x = (case predicate of None \<Rightarrow> True | Some P \<Rightarrow> P x)"

definition mlq_PopIf :: "'a mlq \<Rightarrow> int \<Rightarrow> ('a \<Rightarrow> bool) option \<Rightarrow> 'a mlq \<times> 'a option" where
  "mlq_PopIf m priority predicate =
     (if bitmask m = 0 \<or> priority < 0 \<or> int (length (queues m)) \<le> priority then (m, None)
      else if \<not> bit (bitmask m) (nat priority) then (m, None)
      else case queues m ! nat priority of
             [] \<Rightarrow> (m\<lparr>bitmask := clearLevelBit (bitmask m) (nat priority)\<rparr>, None)
           | e # _ \<Rightarrow>
               if \<not> accepts predicate (qitem (evalue e)) then (m, None)
               else (takeElem m (nat priority) e (qkey (evalue e)), Some (qitem (evalue e))))"

function mlq_popAnyFrom :: "'a mlq \<Rightarrow> u16 \<Rightarrow> int \<Rightarrow> ('a \<Rightarrow> bool) option \<Rightarrow> 'a mlq \<times> 'a option" where
  "mlq_popAnyFrom m tempMask maxPriority predicate =
     (if tempMask = 0 then (m, None)
      else
        let p = trailingZeros16 tempMask
        in if maxPriority < int p then (m, None)
           else case find (\<lambda>e. accepts predicate (qitem (evalue e))) (queues m ! p) of
                  Some e \<Rightarrow> (takeElem m p e (qkey (evalue e)), Some (qitem (evalue e)))
                | None \<Rightarrow> mlq_popAnyFrom m (clearLevelBit tempMask p) maxPriority predicate)"
  by pat_completeness auto
termination
  by (relation "measure (\<lambda>(m, w, k, P). card {i. bit w i})") (simp_all add: clearLevelBit_decreases)

declare mlq_popAnyFrom.simps [simp del]

definition mlq_PopAnyIf :: "'a mlq \<Rightarrow> int \<Rightarrow> ('a \<Rightarrow> bool) option \<Rightarrow> 'a mlq \<times> 'a option" where
  "mlq_PopAnyIf m maxPriority predicate =
     (if bitmask m = 0 then (m, None) else mlq_popAnyFrom m (bitmask m) maxPriority predicate)"

section \<open>Invariant\<close>

definition queuedAt :: "'a mlq \<Rightarrow> nat \<Rightarrow> 'a element set" where
  "queuedAt m p = set (queues m ! p)"

definition mlq_inv :: "'a mlq \<Rightarrow> bool" where
  "mlq_inv m \<longleftrightarrow>
     length (queues m) = 6 \<and>
     (\<forall>i. bit (bitmask m) i \<longleftrightarrow> i < 6 \<and> queues m ! i \<noteq> []) \<and>
     (\<forall>p < 6. distinct (queues m ! p)) \<and>
     (\<forall>p < 6. \<forall>e \<in> queuedAt m p. eid e < nextElem m) \<and>
     (\<forall>p < 6. \<forall>p' < 6. \<forall>e \<in> queuedAt m p. \<forall>e' \<in> queuedAt m p'. eid e = eid e' \<longrightarrow> e = e') \<and>
     gomap_wf (census m) \<and>
     (\<forall>k p e. mget (census m) k = Some \<lparr>cpriority = p, celem = e\<rparr> \<longleftrightarrow>
        p < 6 \<and> e \<in> queuedAt m p \<and> qkey (evalue e) = k) \<and>
     length (census m) = sum_list (map length (queues m)) \<and>
     fastSize m = of_nat (sum_list (map length (queues m)))"

lemma mlq_invD:
  assumes "mlq_inv m"
  shows "length (queues m) = 6"
    and "bit (bitmask m) i \<longleftrightarrow> i < 6 \<and> queues m ! i \<noteq> []"
    and "p < 6 \<Longrightarrow> distinct (queues m ! p)"
    and "p < 6 \<Longrightarrow> e \<in> queuedAt m p \<Longrightarrow> eid e < nextElem m"
    and "p < 6 \<Longrightarrow> p' < 6 \<Longrightarrow> e \<in> queuedAt m p \<Longrightarrow> e' \<in> queuedAt m p' \<Longrightarrow> eid e = eid e' \<Longrightarrow> e = e'"
    and "gomap_wf (census m)"
    and "mget (census m) k = Some \<lparr>cpriority = p, celem = e\<rparr> \<longleftrightarrow>
           p < 6 \<and> e \<in> queuedAt m p \<and> qkey (evalue e) = k"
    and "length (census m) = sum_list (map length (queues m))"
    and "fastSize m = of_nat (sum_list (map length (queues m)))"
  using assms unfolding mlq_inv_def by auto

lemma mlq_inv_New: "mlq_inv mlq_New"
  by (auto simp: mlq_inv_def mlq_New_def queuedAt_def sum_list_replicate)

lemma census_entry_cases:
  "mlq_inv m \<Longrightarrow> mget (census m) k = Some c \<Longrightarrow>
   cpriority c < 6 \<and> celem c \<in> queuedAt m (cpriority c) \<and> qkey (evalue (celem c)) = k"
  using mlq_invD(7) [of m k "cpriority c" "celem c"] by simp

lemma census_of_queued:
  "mlq_inv m \<Longrightarrow> p < 6 \<Longrightarrow> e \<in> queuedAt m p \<Longrightarrow>
   mget (census m) (qkey (evalue e)) = Some \<lparr>cpriority = p, celem = e\<rparr>"
  by (simp add: mlq_invD(7))

text \<open>A key names at most one queued element.\<close>

lemma queued_key_unique:
  assumes "mlq_inv m" "p < 6" "p' < 6" "e \<in> queuedAt m p" "e' \<in> queuedAt m p'"
    and "qkey (evalue e) = qkey (evalue e')"
  shows "p = p' \<and> e = e'"
proof -
  have "Some \<lparr>cpriority = p, celem = e\<rparr> = Some \<lparr>cpriority = p', celem = e'\<rparr>"
    unfolding census_of_queued [OF assms(1,2,4), symmetric] assms(6)
    by (rule census_of_queued [OF assms(1,3,5)])
  then show ?thesis by simp
qed

section \<open>The operations keep the invariant\<close>

lemma sum_length_update:
  "p < length qs \<Longrightarrow>
   sum_list (map length (qs[p := q])) + length (qs ! p) = sum_list (map length qs) + length q"
  by (induction qs arbitrary: p) (auto split: nat.splits)

lemma removeElem_remove1:
  assumes "distinct q" and "\<And>x. x \<in> set q \<Longrightarrow> eid x = eid e \<Longrightarrow> x = e"
  shows "removeElem e q = remove1 e q"
proof -
  have "removeElem e q = filter ((\<noteq>) e) q"
    unfolding removeElem_def using assms(2) by (intro filter_cong) auto
  also have "\<dots> = removeAll e q" by (simp add: removeAll_filter_not_eq)
  finally show ?thesis using assms(1) by (simp add: distinct_remove1_removeAll)
qed

lemma removeElem_queued:
  assumes "mlq_inv m" "p < 6" "e \<in> queuedAt m p"
  shows "removeElem e (queues m ! p) = remove1 e (queues m ! p)"
proof (rule removeElem_remove1)
  show "distinct (queues m ! p)" using mlq_invD(3) assms by blast
  show "x = e" if "x \<in> set (queues m ! p)" "eid x = eid e" for x
    using mlq_invD(5) [OF assms(1,2,2) _ assms(3), of x] that by (simp add: queuedAt_def)
qed

lemma takeElem_queuedAt:
  assumes "mlq_inv m" "p < 6" "e \<in> queuedAt m p" "p' < 6"
  shows "queuedAt (takeElem m p e k) p' = queuedAt m p' - (if p' = p then {e} else {})"
  using assms mlq_invD(1,3) [OF assms(1)] removeElem_queued [OF assms(1-3)]
  by (auto simp: takeElem_def queuedAt_def Let_def nth_list_update)

lemma takeElem_inv:
  assumes inv: "mlq_inv m" and p: "p < 6" and e: "e \<in> queuedAt m p"
  shows "mlq_inv (takeElem m p e (qkey (evalue e)))"
proof -
  let ?m = "takeElem m p e (qkey (evalue e))"
  let ?k = "qkey (evalue e)"
  note q = takeElem_queuedAt [OF inv p e]
  have len: "length (queues m) = 6" using mlq_invD(1) [OF inv] .
  have queues: "queues ?m = (queues m)[p := remove1 e (queues m ! p)]"
    by (simp add: takeElem_def Let_def removeElem_queued [OF inv p e])
  have "e \<in> set (queues m ! p)" using e by (simp add: queuedAt_def)
  then have "Suc (length (remove1 e (queues m ! p))) = length (queues m ! p)"
    using length_pos_if_in_set [of e "queues m ! p"] by (simp only: length_remove1 if_True Suc_pred' [symmetric])
  then have sum: "sum_list (map length (queues m)) = Suc (sum_list (map length (queues ?m)))"
    using sum_length_update [of p "queues m" "remove1 e (queues m ! p)"] len p
    by (simp add: queues)
  have cen: "mget (census ?m) k = (if k = ?k then None else mget (census m) k)" for k
    by (simp add: takeElem_def Let_def)
  have "mget (census m) ?k \<noteq> None"
    using census_of_queued [OF inv p e] by simp
  then have clen: "length (census ?m) = length (census m) - 1"
    using gomap_len_mdel [OF mlq_invD(6) [OF inv], of ?k] by (auto simp: takeElem_def Let_def)
  show ?thesis
    unfolding mlq_inv_def
  proof (intro conjI allI ballI impI)
    show "length (queues ?m) = 6" by (simp add: queues len)
    show "bit (bitmask ?m) i \<longleftrightarrow> i < 6 \<and> queues ?m ! i \<noteq> []" for i
      using mlq_invD(2) [OF inv, of i] p len removeElem_queued [OF inv p e]
      by (cases "i = p") (auto simp: takeElem_def Let_def)
    show "distinct (queues ?m ! i)" if "i < 6" for i
      using mlq_invD(3) [OF inv that] len that
      by (cases "i = p") (simp_all add: queues)
    show "eid x < nextElem ?m" if "i < 6" "x \<in> queuedAt ?m i" for i x
      using mlq_invD(4) [OF inv that(1), of x] that q [OF that(1)] by (auto simp: takeElem_def Let_def)
    show "x = x'" if "i < 6" "j < 6" "x \<in> queuedAt ?m i" "x' \<in> queuedAt ?m j" "eid x = eid x'"
      for i j x x'
      using mlq_invD(5) [OF inv that(1,2), of x x'] that q [OF that(1)] q [OF that(2)] by auto
    show "gomap_wf (census ?m)"
      using mlq_invD(6) [OF inv] by (simp add: takeElem_def Let_def)
    show "mget (census ?m) k = Some \<lparr>cpriority = i, celem = x\<rparr> \<longleftrightarrow>
        i < 6 \<and> x \<in> queuedAt ?m i \<and> qkey (evalue x) = k" for k i x
    proof (cases "k = ?k")
      case True
      have "\<not> (i < 6 \<and> x \<in> queuedAt ?m i \<and> qkey (evalue x) = k)"
      proof
        assume *: "i < 6 \<and> x \<in> queuedAt ?m i \<and> qkey (evalue x) = k"
        then have "x \<in> queuedAt m i" using q [of i] by blast
        then have "i = p \<and> x = e"
          using queued_key_unique [OF inv _ p _ e, of i x] * True by blast
        with * q [OF p] show False by simp
      qed
      with True show ?thesis by (simp add: cen)
    next
      case False
      then have "i < 6 \<Longrightarrow> qkey (evalue x) = k \<Longrightarrow> x \<in> queuedAt ?m i \<longleftrightarrow> x \<in> queuedAt m i"
        using q [of i] by auto
      with False mlq_invD(7) [OF inv, of k i x] show ?thesis by (simp add: cen) blast
    qed
    show "length (census ?m) = sum_list (map length (queues ?m))"
      using clen sum mlq_invD(8) [OF inv] by simp
    show "fastSize ?m = of_nat (sum_list (map length (queues ?m)))"
      using sum mlq_invD(9) [OF inv] by (simp add: takeElem_def Let_def)
  qed
qed

text \<open>The level a priority argument selects.\<close>

definition levelOf :: "int \<Rightarrow> nat" where
  "levelOf priority = (if priority < 0 \<or> 6 \<le> priority then 3 else nat priority)"

lemma levelOf_lt [simp]: "levelOf priority < 6" "levelOf priority < 16"
  by (auto simp: levelOf_def)

definition newElem :: "'a mlq \<Rightarrow> u64 \<Rightarrow> 'a \<Rightarrow> 'a element" where
  "newElem m key item = \<lparr>eid = nextElem m, evalue = \<lparr>qkey = key, qitem = item\<rparr>\<rparr>"

lemma mlq_Push_eq:
  assumes "mlq_inv m"
  shows "mlq_Push m priority key item =
     (if mget (census m) key \<noteq> None then (m, False)
      else (m\<lparr>queues := (queues m)[levelOf priority := queues m ! levelOf priority @ [newElem m key item]],
              census := mput (census m) key \<lparr>cpriority = levelOf priority, celem = newElem m key item\<rparr>,
              bitmask := setLevelBit (bitmask m) (levelOf priority),
              fastSize := fastSize m + 1,
              nextElem := Suc (nextElem m)\<rparr>, True))"
  using mlq_invD(1) [OF assms] by (simp add: mlq_Push_def levelOf_def newElem_def Let_def)

lemma newElem_fresh: "mlq_inv m \<Longrightarrow> p < 6 \<Longrightarrow> newElem m key item \<notin> queuedAt m p"
  using mlq_invD(4) [of m p "newElem m key item"] by (auto simp: newElem_def)

lemma mlq_Push_inv:
  assumes inv: "mlq_inv m"
  shows "mlq_inv (fst (mlq_Push m priority key item))"
proof (cases "mget (census m) key = None")
  case False
  then show ?thesis using inv by (simp add: mlq_Push_def)
next
  case True
  let ?m = "fst (mlq_Push m priority key item)"
  let ?l = "levelOf priority"
  let ?e = "newElem m key item"
  have len: "length (queues m) = 6" using mlq_invD(1) [OF inv] .
  have queues: "queues ?m = (queues m)[?l := queues m ! ?l @ [?e]]"
    using True by (simp add: mlq_Push_eq [OF inv])
  have cen: "mget (census ?m) k = (if k = key then Some \<lparr>cpriority = ?l, celem = ?e\<rparr> else mget (census m) k)" for k
    using True by (simp add: mlq_Push_eq [OF inv])
  have q: "queuedAt ?m i = queuedAt m i \<union> (if i = ?l then {?e} else {})" if "i < 6" for i
    using that len by (auto simp: queuedAt_def queues nth_list_update)
  have sum: "sum_list (map length (queues ?m)) = Suc (sum_list (map length (queues m)))"
    using sum_length_update [of ?l "queues m" "queues m ! ?l @ [?e]"] len by (simp add: queues)
  have nokey: "qkey (evalue x) \<noteq> key" if "i < 6" "x \<in> queuedAt m i" for i x
    using census_of_queued [OF inv that] True by auto
  have eid: "eid ?e = nextElem m" and ekey: "qkey (evalue ?e) = key"
    by (simp_all add: newElem_def)
  have old: "x = ?e \<or> x \<in> queuedAt m i \<and> eid x < nextElem m" if "i < 6" "x \<in> queuedAt ?m i" for i x
    using q [OF that(1)] that(2) mlq_invD(4) [OF inv that(1), of x] by (auto split: if_splits)
  show ?thesis
    unfolding mlq_inv_def
  proof (intro conjI allI ballI impI)
    show "length (queues ?m) = 6" by (simp add: queues len)
    show "bit (bitmask ?m) i \<longleftrightarrow> i < 6 \<and> queues ?m ! i \<noteq> []" for i
      using mlq_invD(2) [OF inv, of i] len True levelOf_lt [of priority]
      by (cases "i = ?l") (auto simp: mlq_Push_eq [OF inv])
    show "distinct (queues ?m ! i)" if "i < 6" for i
      using mlq_invD(3) [OF inv that] len that newElem_fresh [OF inv that, of key item]
      by (cases "i = ?l") (simp_all add: queues queuedAt_def)
    show "eid x < nextElem ?m" if "i < 6" "x \<in> queuedAt ?m i" for i x
      using mlq_invD(4) [OF inv that(1), of x] that q [OF that(1)] eid True
      by (auto simp: mlq_Push_eq [OF inv] split: if_splits)
    show "x = x'" if "i < 6" "j < 6" "x \<in> queuedAt ?m i" "x' \<in> queuedAt ?m j" "eid x = eid x'"
      for i j x x'
      using old [OF that(1,3)] old [OF that(2,4)] mlq_invD(5) [OF inv that(1,2)] that(5) eid
      by (metis less_irrefl)
    show "gomap_wf (census ?m)"
      using mlq_invD(6) [OF inv] True by (simp add: mlq_Push_eq [OF inv])
    show "mget (census ?m) k = Some \<lparr>cpriority = i, celem = x\<rparr> \<longleftrightarrow>
        i < 6 \<and> x \<in> queuedAt ?m i \<and> qkey (evalue x) = k" for k i x
      using mlq_invD(7) [OF inv, of k i x] q [of i] nokey [of i x] ekey
      by (auto simp: cen split: if_splits)
    show "length (census ?m) = sum_list (map length (queues ?m))"
      using sum mlq_invD(8) [OF inv] True
      by (simp add: mlq_Push_eq [OF inv] gomap_len_mput)
    show "fastSize ?m = of_nat (sum_list (map length (queues ?m)))"
      using sum mlq_invD(9) [OF inv] True by (simp add: mlq_Push_eq [OF inv])
  qed
qed

section \<open>The queue as a list of levels\<close>

definition entryOf :: "'a element \<Rightarrow> u64 \<times> 'a" where
  "entryOf e = (qkey (evalue e), qitem (evalue e))"

definition mlq_levels :: "'a mlq \<Rightarrow> (u64 \<times> 'a) list list" where
  "mlq_levels m = map (map entryOf) (queues m)"

lemma fst_entryOf [simp]: "fst (entryOf e) = qkey (evalue e)"
  by (simp add: entryOf_def)

lemma length_mlq_levels [simp]: "mlq_inv m \<Longrightarrow> length (mlq_levels m) = 6"
  by (simp add: mlq_levels_def mlq_invD(1))

lemma nth_mlq_levels: "mlq_inv m \<Longrightarrow> p < 6 \<Longrightarrow> mlq_levels m ! p = map entryOf (queues m ! p)"
  by (simp add: mlq_levels_def mlq_invD(1))

lemma distinct_concat_nth:
  assumes "\<And>i. i < length xss \<Longrightarrow> distinct (xss ! i)"
    and "\<And>i j x. i < length xss \<Longrightarrow> j < length xss \<Longrightarrow> x \<in> set (xss ! i) \<Longrightarrow> x \<in> set (xss ! j) \<Longrightarrow> i = j"
  shows "distinct (concat xss)"
  using assms
proof (induction xss)
  case Nil
  then show ?case by simp
next
  case (Cons xs xss)
  have "distinct (concat xss)"
  proof (rule Cons.IH)
    show "distinct (xss ! i)" if "i < length xss" for i
      using Cons.prems(1) [of "Suc i"] that by simp
    show "i = j" if "i < length xss" "j < length xss" "x \<in> set (xss ! i)" "x \<in> set (xss ! j)" for i j x
      using Cons.prems(2) [of "Suc i" "Suc j" x] that by simp
  qed
  moreover have "x \<notin> set ys" if "x \<in> set xs" "ys \<in> set xss" for x ys
  proof
    assume "x \<in> set ys"
    from that(2) obtain j where "j < length xss" "xss ! j = ys"
      by (auto simp: in_set_conv_nth)
    then show False
      using Cons.prems(2) [of 0 "Suc j" x] that(1) \<open>x \<in> set ys\<close> by simp
  qed
  ultimately show ?case using Cons.prems(1) [of 0] by auto
qed

lemma mlq_distinct_keys:
  assumes inv: "mlq_inv m"
  shows "distinct (map fst (concat (mlq_levels m)))"
proof -
  have eq: "map fst (concat (mlq_levels m)) = concat (map (map (\<lambda>e. qkey (evalue e))) (queues m))"
    by (simp add: mlq_levels_def map_concat comp_def)
  have len: "length (queues m) = 6" using mlq_invD(1) [OF inv] .
  show ?thesis
    unfolding eq
  proof (rule distinct_concat_nth)
    fix i assume "i < length (map (map (\<lambda>e. qkey (evalue e))) (queues m))"
    then have i: "i < 6" using len by simp
    have "inj_on (\<lambda>e. qkey (evalue e)) (set (queues m ! i))"
      using queued_key_unique [OF inv i i] by (auto simp: inj_on_def queuedAt_def)
    then show "distinct (map (map (\<lambda>e. qkey (evalue e))) (queues m) ! i)"
      using mlq_invD(3) [OF inv i] i len by (simp add: distinct_map)
  next
    fix i j x
    assume "i < length (map (map (\<lambda>e. qkey (evalue e))) (queues m))"
      and "j < length (map (map (\<lambda>e. qkey (evalue e))) (queues m))"
      and "x \<in> set (map (map (\<lambda>e. qkey (evalue e))) (queues m) ! i)"
      and "x \<in> set (map (map (\<lambda>e. qkey (evalue e))) (queues m) ! j)"
    then show "i = j"
      using queued_key_unique [OF inv] len by (fastforce simp: queuedAt_def)
  qed
qed

lemma in_levels_iff:
  assumes "mlq_inv m"
  shows "(k, x) \<in> set (concat (mlq_levels m)) \<longleftrightarrow> (\<exists>p < 6. \<exists>e \<in> queuedAt m p. entryOf e = (k, x))"
  using mlq_invD(1) [OF assms]
  by (auto simp: mlq_levels_def queuedAt_def in_set_conv_nth image_iff) (metis nth_mem)+

lemma mlq_Get_levels:
  assumes inv: "mlq_inv m"
  shows "mlq_Get m k = map_of (concat (mlq_levels m)) k"
proof (cases "mget (census m) k")
  case None
  have "k \<notin> fst ` set (concat (mlq_levels m))"
  proof
    assume "k \<in> fst ` set (concat (mlq_levels m))"
    then obtain x where "(k, x) \<in> set (concat (mlq_levels m))" by (metis imageE prod.collapse)
    then obtain p e where "p < 6" "e \<in> queuedAt m p" "entryOf e = (k, x)"
      using in_levels_iff [OF inv] by blast
    then show False using census_of_queued [OF inv] None by (metis fst_conv fst_entryOf option.distinct(1))
  qed
  then have "map_of (concat (mlq_levels m)) k = None"
    by (metis map_of_eq_None_iff)
  with None show ?thesis by (simp add: mlq_Get_def)
next
  case (Some c)
  then have "(k, qitem (evalue (celem c))) \<in> set (concat (mlq_levels m))"
    using in_levels_iff [OF inv] census_entry_cases [OF inv Some] by (metis entryOf_def)
  then have "map_of (concat (mlq_levels m)) k = Some (qitem (evalue (celem c)))"
    using mlq_distinct_keys [OF inv] map_of_eq_Some_iff by metis
  with Some show ?thesis by (simp add: mlq_Get_def)
qed

lemma census_None_iff:
  "mlq_inv m \<Longrightarrow> mget (census m) k = None \<longleftrightarrow> k \<notin> fst ` set (concat (mlq_levels m))"
  using mlq_Get_levels [of m k] map_of_eq_None_iff [of "concat (mlq_levels m)" k]
  by (auto simp: mlq_Get_def split: option.splits)

lemma mlq_levels_Push:
  assumes inv: "mlq_inv m"
  shows "mlq_levels (fst (mlq_Push m priority k x)) =
    (if k \<in> fst ` set (concat (mlq_levels m)) then mlq_levels m
     else (mlq_levels m)[levelOf priority := mlq_levels m ! levelOf priority @ [(k, x)]])"
  using census_None_iff [OF inv, of k] mlq_invD(1) [OF inv]
  by (auto simp: mlq_Push_eq [OF inv] mlq_levels_def map_update newElem_def entryOf_def)

lemma mlq_levels_takeElem:
  assumes inv: "mlq_inv m" and p: "p < 6" and e: "e \<in> queuedAt m p"
  shows "mlq_levels (takeElem m p e k) =
    (mlq_levels m)[p := filter (\<lambda>y. fst y \<noteq> qkey (evalue e)) (mlq_levels m ! p)]"
proof -
  have "filter (\<lambda>x. eid x \<noteq> eid e) (queues m ! p) =
      filter (\<lambda>x. qkey (evalue x) \<noteq> qkey (evalue e)) (queues m ! p)"
    using mlq_invD(5) [OF inv p p _ e] queued_key_unique [OF inv p p _ e]
    by (intro filter_cong) (auto simp: queuedAt_def)
  then show ?thesis
    using mlq_invD(1) [OF inv] p
    by (simp add: mlq_levels_def takeElem_def Let_def removeElem_def map_update filter_map comp_def)
qed

lemma filter_level_eq_map_filter:
  assumes inv: "mlq_inv m" and p: "p < 6" and e: "e \<in> queuedAt m p"
  shows "(mlq_levels m)[p := filter (\<lambda>y. fst y \<noteq> qkey (evalue e)) (mlq_levels m ! p)] =
    map (filter (\<lambda>y. fst y \<noteq> qkey (evalue e))) (mlq_levels m)"
proof (rule nth_equalityI)
  fix i assume "i < length ((mlq_levels m)[p := filter (\<lambda>y. fst y \<noteq> qkey (evalue e)) (mlq_levels m ! p)])"
  then have i: "i < 6" using inv by simp
  have "filter (\<lambda>y. fst y \<noteq> qkey (evalue e)) (mlq_levels m ! i) = mlq_levels m ! i" if "i \<noteq> p"
    using queued_key_unique [OF inv i p _ e] that
    by (auto simp: filter_id_conv nth_mlq_levels [OF inv i] queuedAt_def)
  then show "(mlq_levels m)[p := filter (\<lambda>y. fst y \<noteq> qkey (evalue e)) (mlq_levels m ! p)] ! i =
      map (filter (\<lambda>y. fst y \<noteq> qkey (evalue e))) (mlq_levels m) ! i"
    using i p inv by (cases "i = p") simp_all
qed simp

lemma mlq_RemoveByKey_cases:
  assumes inv: "mlq_inv m"
  shows "mlq_RemoveByKey m k =
    (case mget (census m) k of None \<Rightarrow> (m, None)
     | Some c \<Rightarrow> (takeElem m (cpriority c) (celem c) (qkey (evalue (celem c))),
                  Some (qitem (evalue (celem c)))))"
  using census_entry_cases [OF inv, of k] mlq_invD(1) [OF inv]
  by (auto simp: mlq_RemoveByKey_def split: option.splits)

lemma mlq_RemoveByKey_inv: "mlq_inv m \<Longrightarrow> mlq_inv (fst (mlq_RemoveByKey m k))"
  using census_entry_cases [of m k] takeElem_inv
  by (auto simp: mlq_RemoveByKey_cases split: option.splits)

lemma mlq_RemoveByKey_result: "mlq_inv m \<Longrightarrow> snd (mlq_RemoveByKey m k) = mlq_Get m k"
  by (simp add: mlq_RemoveByKey_cases mlq_Get_def split: option.splits)

lemma mlq_levels_RemoveByKey:
  assumes inv: "mlq_inv m"
  shows "mlq_levels (fst (mlq_RemoveByKey m k)) = map (filter (\<lambda>y. fst y \<noteq> k)) (mlq_levels m)"
proof (cases "mget (census m) k")
  case None
  then have "k \<notin> fst ` set (concat (mlq_levels m))"
    using census_None_iff [OF inv] by blast
  then have "map (filter (\<lambda>y. fst y \<noteq> k)) (mlq_levels m) = mlq_levels m"
    by (intro map_idI) (force simp: filter_id_conv)
  with None show ?thesis by (simp add: mlq_RemoveByKey_cases [OF inv])
next
  case (Some c)
  note c = census_entry_cases [OF inv Some]
  show ?thesis
    using Some c mlq_levels_takeElem [OF inv, of "cpriority c" "celem c" "qkey (evalue (celem c))"]
      filter_level_eq_map_filter [OF inv, of "cpriority c" "celem c"]
    by (simp add: mlq_RemoveByKey_cases [OF inv])
qed

text \<open>With an exact bit mask the scan stops at its first level.\<close>

lemma first_level:
  assumes inv: "mlq_inv m" and nz: "bitmask m \<noteq> 0"
  shows "trailingZeros16 (bitmask m) < 6"
    and "queues m ! trailingZeros16 (bitmask m) \<noteq> []"
    and "i < trailingZeros16 (bitmask m) \<Longrightarrow> queues m ! i = []"
  using trailingZeros16_bit [OF nz] mlq_invD(2) [OF inv] by (auto intro: order.strict_trans)

lemma bitmask_zero_iff: "mlq_inv m \<Longrightarrow> bitmask m = 0 \<longleftrightarrow> concat (mlq_levels m) = []"
proof -
  assume inv: "mlq_inv m"
  have "bitmask m = 0 \<longleftrightarrow> (\<forall>i. \<not> bit (bitmask m) i)"
    by (metis bit_0_eq bit_eqI bot_apply bot_bool_def)
  also have "\<dots> \<longleftrightarrow> (\<forall>q \<in> set (queues m). q = [])"
    using mlq_invD(1) [OF inv] by (auto simp: mlq_invD(2) [OF inv] all_set_conv_all_nth)
  finally show ?thesis by (auto simp: mlq_levels_def)
qed

lemma mlq_Pop_cases:
  assumes inv: "mlq_inv m"
  shows "mlq_Pop m =
    (if concat (mlq_levels m) = [] then (m, None)
     else let p = trailingZeros16 (bitmask m); e = hd (queues m ! p)
          in (takeElem m p e (qkey (evalue e)), Some (qitem (evalue e), p)))"
  using first_level(2) [OF inv] bitmask_zero_iff [OF inv]
  by (auto simp: mlq_Pop_def mlq_popLocked.simps [of m] Let_def split: list.splits)

lemma mlq_Pop_inv:
  assumes inv: "mlq_inv m"
  shows "mlq_inv (fst (mlq_Pop m))"
proof (cases "concat (mlq_levels m) = []")
  case False
  then have nz: "bitmask m \<noteq> 0" using bitmask_zero_iff [OF inv] by blast
  have "hd (queues m ! trailingZeros16 (bitmask m)) \<in> queuedAt m (trailingZeros16 (bitmask m))"
    using first_level(2) [OF inv nz] by (simp add: queuedAt_def)
  then show ?thesis
    using False takeElem_inv [OF inv first_level(1) [OF inv nz]] by (auto simp: mlq_Pop_cases [OF inv] Let_def)
qed (simp add: mlq_Pop_cases [OF inv] inv)

lemma mlq_Pop_None: "mlq_inv m \<Longrightarrow> snd (mlq_Pop m) = None \<longleftrightarrow> concat (mlq_levels m) = []"
  by (simp add: mlq_Pop_cases Let_def)

lemma mlq_Pop_Some:
  assumes inv: "mlq_inv m" and pop: "snd (mlq_Pop m) = Some (x, p)"
  shows "\<exists>k rest. p < 6 \<and> mlq_levels m ! p = (k, x) # rest \<and> (\<forall>i < p. mlq_levels m ! i = []) \<and>
    mlq_levels (fst (mlq_Pop m)) = (mlq_levels m)[p := rest]"
proof -
  have ne: "concat (mlq_levels m) \<noteq> []" using pop mlq_Pop_None [OF inv] by auto
  then have nz: "bitmask m \<noteq> 0" using bitmask_zero_iff [OF inv] by blast
  let ?p = "trailingZeros16 (bitmask m)"
  note lev = first_level [OF inv nz]
  obtain e es where q: "queues m ! ?p = e # es"
    using lev(2) by (cases "queues m ! ?p") auto
  then have pe: "p = ?p" "x = qitem (evalue e)"
    using pop ne by (auto simp: mlq_Pop_cases [OF inv] Let_def split: if_splits)
  have e: "e \<in> queuedAt m ?p" by (simp add: queuedAt_def q)
  have lp: "mlq_levels m ! ?p = entryOf e # map entryOf es"
    by (simp add: nth_mlq_levels [OF inv lev(1)] q)
  have "distinct (map fst (mlq_levels m ! ?p))"
    using mlq_invD(3) [OF inv lev(1)] queued_key_unique [OF inv lev(1,1)] q
    by (auto simp: nth_mlq_levels [OF inv lev(1)] distinct_map inj_on_def queuedAt_def)
  then have "filter (\<lambda>y. fst y \<noteq> qkey (evalue e)) (mlq_levels m ! ?p) = map entryOf es"
    unfolding lp by (simp add: entryOf_def filter_id_conv) (metis image_eqI)
  then have "mlq_levels (fst (mlq_Pop m)) = (mlq_levels m)[?p := map entryOf es]"
    using mlq_levels_takeElem [OF inv lev(1) e] q ne by (auto simp: mlq_Pop_cases [OF inv] Let_def)
  moreover have "\<forall>i < ?p. mlq_levels m ! i = []"
    using lev(1,3) nth_mlq_levels [OF inv] by simp
  ultimately show ?thesis
    using lp lev(1) pe by (auto simp: entryOf_def)
qed

lemma mlq_HighestPriority_spec:
  assumes inv: "mlq_inv m"
  shows "mlq_HighestPriority m =
    (if concat (mlq_levels m) = [] then -1 else int (LEAST p. p < 6 \<and> mlq_levels m ! p \<noteq> []))"
proof (cases "bitmask m = 0")
  case False
  note lev = first_level [OF inv False]
  have "(LEAST p. p < 6 \<and> mlq_levels m ! p \<noteq> []) = trailingZeros16 (bitmask m)"
  proof (rule Least_equality)
    show "trailingZeros16 (bitmask m) < 6 \<and> mlq_levels m ! trailingZeros16 (bitmask m) \<noteq> []"
      using lev nth_mlq_levels [OF inv] by simp
    show "trailingZeros16 (bitmask m) \<le> p" if "p < 6 \<and> mlq_levels m ! p \<noteq> []" for p
      using lev(3) [of p] that nth_mlq_levels [OF inv, of p] by (metis list.simps(8) not_le_imp_less)
  qed
  with False show ?thesis using bitmask_zero_iff [OF inv] by (auto simp: mlq_HighestPriority_def)
next
  case True
  with bitmask_zero_iff [OF inv] show ?thesis by (auto simp: mlq_HighestPriority_def)
qed

lemma mlq_Peek_Pop: "mlq_inv m \<Longrightarrow> mlq_Peek m = snd (mlq_Pop m)"
  by (auto simp: mlq_Peek_def mlq_Pop_def mlq_popLocked.simps [of m] mlq_peekFrom.simps [of m "bitmask m"]
      Let_def dest: first_level(2) split: list.splits)

lemma mlq_PopIf_inv:
  assumes inv: "mlq_inv m"
  shows "mlq_inv (fst (mlq_PopIf m priority predicate))"
proof (cases "queues m ! nat priority")
  case Nil
  then show ?thesis
    using mlq_invD(2) [OF inv, of "nat priority"] inv by (simp add: mlq_PopIf_def)
next
  case (Cons e es)
  show ?thesis
  proof (cases "priority < 0 \<or> 6 \<le> priority")
    case True
    then show ?thesis using inv mlq_invD(1) [OF inv] by (auto simp: mlq_PopIf_def)
  next
    case False
    then have p: "nat priority < 6" by auto
    have "e \<in> queuedAt m (nat priority)" using Cons by (simp add: queuedAt_def)
    then show ?thesis
      using takeElem_inv [OF inv p] inv Cons by (simp add: mlq_PopIf_def)
  qed
qed

lemma mlq_popAnyFrom_inv:
  assumes inv: "mlq_inv m"
  shows "(\<And>i. bit w i \<Longrightarrow> i < 6) \<Longrightarrow> mlq_inv (fst (mlq_popAnyFrom m w maxPriority predicate))"
  using inv
proof (induction m w maxPriority predicate rule: mlq_popAnyFrom.induct)
  case (1 m w maxPriority predicate)
  show ?case
  proof (cases "w = 0 \<or> maxPriority < int (trailingZeros16 w)")
    case True
    then show ?thesis using "1.prems" by (auto simp: mlq_popAnyFrom.simps [of m w] Let_def)
  next
    case False
    let ?p = "trailingZeros16 w"
    have p: "?p < 6" using False trailingZeros16_bit(1) [of w] "1.prems"(1) by blast
    show ?thesis
    proof (cases "find (\<lambda>e. accepts predicate (qitem (evalue e))) (queues m ! ?p)")
      case None
      have "mlq_inv (fst (mlq_popAnyFrom m (clearLevelBit w ?p) maxPriority predicate))"
        using "1.IH" [of ?p] False None "1.prems" by simp
      with False None show ?thesis by (simp add: mlq_popAnyFrom.simps [of m w] Let_def)
    next
      case (Some e)
      then have "e \<in> queuedAt m ?p"
        by (auto simp: queuedAt_def find_Some_iff)
      with False Some show ?thesis
        using takeElem_inv [OF "1.prems"(2) p] by (simp add: mlq_popAnyFrom.simps [of m w] Let_def)
    qed
  qed
qed

lemma mlq_PopAnyIf_inv: "mlq_inv m \<Longrightarrow> mlq_inv (fst (mlq_PopAnyIf m maxPriority predicate))"
  using mlq_popAnyFrom_inv [of m "bitmask m"] mlq_invD(2) [of m] by (simp add: mlq_PopAnyIf_def)

lemma mlq_Clear_inv: "mlq_inv m \<Longrightarrow> mlq_inv (fst (mlq_Clear m))"
  by (auto simp: mlq_inv_def mlq_Clear_def queuedAt_def comp_def)

section \<open>The keyed queue interface\<close>

text \<open>
  What the stream and client code relies on: a queue of levels in which a key occurs at most once,
  a push is refused exactly for a key that is present, a removal takes the key out of its level,
  and a pop takes the oldest entry of the first non-empty level.
\<close>

fun drain :: "('q \<Rightarrow> 'q \<times> 'b option) \<Rightarrow> nat \<Rightarrow> 'q \<Rightarrow> 'b list" where
  "drain pop 0 q = []"
| "drain pop (Suc n) q = (case pop q of (q', None) \<Rightarrow> [] | (q', Some y) \<Rightarrow> y # drain pop n q')"

text \<open>The items of a list of levels with the level each comes from, first level first.\<close>

definition taggedItems :: "('k \<times> 'a) list list \<Rightarrow> ('a \<times> nat) list" where
  "taggedItems ls = concat (map (\<lambda>p. map (\<lambda>y. (snd y, p)) (ls ! p)) [0..<length ls])"

lemma concat_map_upt_split:
  "p < n \<Longrightarrow> concat (map f [0..<n]) =
     concat (map f [0..<p]) @ f p @ concat (map f [Suc p..<n])"
proof -
  assume p: "p < n"
  then have "[0..<n] = [0..<p] @ [p..<n]"
    by (metis le_add_diff_inverse less_imp_le upt_add_eq_append zero_le)
  moreover have "[p..<n] = p # [Suc p..<n]" using p by (rule upt_conv_Cons)
  ultimately show ?thesis by simp
qed

lemma taggedItems_head:
  assumes "p < length ls" "ls ! p = (k, x) # rest" "\<And>i. i < p \<Longrightarrow> ls ! i = []"
  shows "taggedItems ls = (x, p) # taggedItems (ls[p := rest])"
proof -
  have pre: "concat (map (\<lambda>q. map (\<lambda>y. (snd y, q)) (ls ! q)) [0..<p]) = []"
    and pre': "concat (map (\<lambda>q. map (\<lambda>y. (snd y, q)) (ls[p := rest] ! q)) [0..<p]) = []"
    using assms(3) by auto
  have post: "map (\<lambda>q. map (\<lambda>y. (snd y, q)) (ls[p := rest] ! q)) [Suc p..<length ls] =
      map (\<lambda>q. map (\<lambda>y. (snd y, q)) (ls ! q)) [Suc p..<length ls]"
    by (rule map_cong) auto
  show ?thesis
    using assms(1,2) unfolding taggedItems_def length_list_update
    by (simp only: concat_map_upt_split [OF assms(1)] pre pre' post) simp
qed

lemma fst_taggedItems: "map fst (taggedItems ls) = map snd (concat ls)"
proof -
  have "map fst (taggedItems ls) = concat (map (map snd) (map ((!) ls) [0..<length ls]))"
    by (simp add: taggedItems_def map_concat comp_def)
  then show ?thesis by (simp add: map_nth map_concat)
qed

lemma taggedItems_Nil_iff: "taggedItems ls = [] \<longleftrightarrow> concat ls = []"
  using fst_taggedItems [of ls] by (metis map_is_Nil_conv)

lemma set_concat_update_append:
  assumes "p < length ls"
  shows "set (concat (ls[p := ls ! p @ [y]])) = insert y (set (concat ls))"
proof -
  have "set (concat ls) = set (concat (take p ls @ ls ! p # drop (Suc p) ls))"
    using id_take_nth_drop [OF assms] by simp
  then show ?thesis by (auto simp: upd_conv_take_nth_drop [OF assms] simp del: set_concat)
qed

locale keyed_queue =
  fixes inv :: "'q \<Rightarrow> bool"
    and levels :: "'q \<Rightarrow> ('k \<times> 'a) list list"
    and lev :: "int \<Rightarrow> nat"
    and push :: "'q \<Rightarrow> int \<Rightarrow> 'k \<Rightarrow> 'a \<Rightarrow> 'q \<times> bool"
    and pop :: "'q \<Rightarrow> 'q \<times> ('a \<times> nat) option"
    and getk :: "'q \<Rightarrow> 'k \<Rightarrow> 'a option"
    and remove :: "'q \<Rightarrow> 'k \<Rightarrow> 'q \<times> 'a option"
  assumes inv_push: "inv q \<Longrightarrow> inv (fst (push q pr k x))"
    and inv_pop: "inv q \<Longrightarrow> inv (fst (pop q))"
    and inv_remove: "inv q \<Longrightarrow> inv (fst (remove q k))"
    and distinct_keys: "inv q \<Longrightarrow> distinct (map fst (concat (levels q)))"
    and lev_lt: "inv q \<Longrightarrow> lev pr < length (levels q)"
    and push_accepts: "inv q \<Longrightarrow> snd (push q pr k x) \<longleftrightarrow> k \<notin> fst ` set (concat (levels q))"
    and levels_push: "inv q \<Longrightarrow> levels (fst (push q pr k x)) =
      (if k \<in> fst ` set (concat (levels q)) then levels q
       else (levels q)[lev pr := levels q ! lev pr @ [(k, x)]])"
    and getk_levels: "inv q \<Longrightarrow> getk q k = map_of (concat (levels q)) k"
    and remove_result: "inv q \<Longrightarrow> snd (remove q k) = getk q k"
    and levels_remove: "inv q \<Longrightarrow>
      levels (fst (remove q k)) = map (filter (\<lambda>y. fst y \<noteq> k)) (levels q)"
    and pop_None: "inv q \<Longrightarrow> snd (pop q) = None \<longleftrightarrow> concat (levels q) = []"
    and pop_Some: "inv q \<Longrightarrow> snd (pop q) = Some (x, p) \<Longrightarrow>
      \<exists>k rest. p < length (levels q) \<and> levels q ! p = (k, x) # rest \<and>
        (\<forall>i < p. levels q ! i = []) \<and> levels (fst (pop q)) = (levels q)[p := rest]"
begin

definition keys :: "'q \<Rightarrow> 'k set" where
  "keys q = fst ` set (concat (levels q))"

lemma getk_None_iff: "inv q \<Longrightarrow> getk q k = None \<longleftrightarrow> k \<notin> keys q"
  unfolding keys_def by (simp only: getk_levels map_of_eq_None_iff)

lemma keys_push: "inv q \<Longrightarrow> keys (fst (push q pr k x)) = insert k (keys q)"
  unfolding keys_def by (auto simp: levels_push lev_lt set_concat_update_append simp del: set_concat)

lemma keys_remove: "inv q \<Longrightarrow> keys (fst (remove q k)) = keys q - {k}"
  unfolding keys_def by (auto simp: levels_remove)

lemma getk_remove: "inv q \<Longrightarrow> getk (fst (remove q k)) k' = (if k' = k then None else getk q k')"
proof -
  assume inv: "inv q"
  have "concat (levels (fst (remove q k))) = filter (\<lambda>y. fst y \<noteq> k) (concat (levels q))"
    by (simp add: levels_remove [OF inv] filter_concat)
  then show ?thesis
    using mget_filter_key [of "concat (levels q)" "\<lambda>y. fst y \<noteq> k" k'] distinct_keys [OF inv]
    by (auto simp: getk_levels inv inv_remove gomap_wf_def split: option.splits)
qed

lemma getk_push:
  assumes inv: "inv q"
  shows "getk (fst (push q pr k x)) k' = (if k' = k \<and> k \<notin> keys q then Some x else getk q k')"
proof -
  let ?q = "fst (push q pr k x)"
  have eq: "getk q k' = Some v \<longleftrightarrow> (k', v) \<in> set (concat (levels q))" if "inv q" for q k' v
    using map_of_eq_Some_iff [OF distinct_keys [OF that]] by (simp add: getk_levels [OF that])
  have set: "set (concat (levels ?q)) =
      (if k \<in> keys q then set (concat (levels q)) else insert (k, x) (set (concat (levels q))))"
    unfolding keys_def
    by (auto simp: levels_push inv lev_lt set_concat_update_append simp del: set_concat)
  show ?thesis
  proof (cases "k' = k \<and> k \<notin> keys q")
    case True
    then show ?thesis using eq [OF inv_push [OF inv], of pr k x k x] set by (simp del: set_concat)
  next
    case False
    then have "(k', v) \<in> set (concat (levels ?q)) \<longleftrightarrow> (k', v) \<in> set (concat (levels q))" for v
      using set by (cases "k \<in> keys q") (simp_all del: set_concat)
    then have "getk ?q k' = Some v \<longleftrightarrow> getk q k' = Some v" for v
      by (simp only: eq [OF inv_push [OF inv]] eq [OF inv])
    with False show ?thesis by (metis option.exhaust)
  qed
qed

lemma drain_all:
  "inv q \<Longrightarrow> length (taggedItems (levels q)) \<le> n \<Longrightarrow> drain pop n q = taggedItems (levels q)"
proof (induction n arbitrary: q)
  case 0
  then show ?case by simp
next
  case (Suc n)
  show ?case
  proof (cases "snd (pop q)")
    case None
    with Suc.prems(1) have "taggedItems (levels q) = []" by (simp add: pop_None taggedItems_Nil_iff)
    with None show ?thesis by (simp add: split_beta)
  next
    case (Some y)
    obtain x p where y: "y = (x, p)" by (cases y)
    obtain k rest where l: "p < length (levels q)" "levels q ! p = (k, x) # rest"
        "\<forall>i < p. levels q ! i = []" "levels (fst (pop q)) = (levels q)[p := rest]"
      using pop_Some [OF Suc.prems(1)] Some y by blast
    have head: "taggedItems (levels q) = (x, p) # taggedItems (levels (fst (pop q)))"
      using taggedItems_head [OF l(1,2)] l(3,4) by simp
    then have "drain pop n (fst (pop q)) = taggedItems (levels (fst (pop q)))"
      using Suc.IH [OF inv_pop [OF Suc.prems(1)]] Suc.prems(2) by simp
    with head Some y show ?thesis by (simp add: split_beta)
  qed
qed

end

text \<open>The queue of \<open>mlq.go\<close> provides the interface.\<close>

lemma mlq_Push_accepts:
  "mlq_inv m \<Longrightarrow> snd (mlq_Push m priority k x) \<longleftrightarrow> k \<notin> fst ` set (concat (mlq_levels m))"
  using census_None_iff [of m k] by (auto simp: mlq_Push_def Let_def)

interpretation mq: keyed_queue mlq_inv mlq_levels levelOf mlq_Push mlq_Pop mlq_Get mlq_RemoveByKey
proof unfold_locales
  fix q :: "'a mlq" and pr :: int and k :: u64 and x :: 'a and p :: nat
  assume inv: "mlq_inv q"
  show "mlq_inv (fst (mlq_Push q pr k x))" by (rule mlq_Push_inv [OF inv])
  show "mlq_inv (fst (mlq_Pop q))" by (rule mlq_Pop_inv [OF inv])
  show "mlq_inv (fst (mlq_RemoveByKey q k))" by (rule mlq_RemoveByKey_inv [OF inv])
  show "distinct (map fst (concat (mlq_levels q)))" by (rule mlq_distinct_keys [OF inv])
  show "levelOf pr < length (mlq_levels q)" by (simp add: inv levelOf_lt)
  show "snd (mlq_Push q pr k x) \<longleftrightarrow> k \<notin> fst ` set (concat (mlq_levels q))"
    by (rule mlq_Push_accepts [OF inv])
  show "mlq_levels (fst (mlq_Push q pr k x)) =
      (if k \<in> fst ` set (concat (mlq_levels q)) then mlq_levels q
       else (mlq_levels q)[levelOf pr := mlq_levels q ! levelOf pr @ [(k, x)]])"
    by (rule mlq_levels_Push [OF inv])
  show "mlq_Get q k = map_of (concat (mlq_levels q)) k" by (rule mlq_Get_levels [OF inv])
  show "snd (mlq_RemoveByKey q k) = mlq_Get q k" by (rule mlq_RemoveByKey_result [OF inv])
  show "mlq_levels (fst (mlq_RemoveByKey q k)) = map (filter (\<lambda>y. fst y \<noteq> k)) (mlq_levels q)"
    by (rule mlq_levels_RemoveByKey [OF inv])
  show "snd (mlq_Pop q) = None \<longleftrightarrow> concat (mlq_levels q) = []" by (rule mlq_Pop_None [OF inv])
  show "\<exists>k rest. p < length (mlq_levels q) \<and> mlq_levels q ! p = (k, x) # rest \<and>
      (\<forall>i < p. mlq_levels q ! i = []) \<and> mlq_levels (fst (mlq_Pop q)) = (mlq_levels q)[p := rest]"
    if "snd (mlq_Pop q) = Some (x, p)"
    using mlq_Pop_Some [OF inv that] by (simp add: inv)
qed

section \<open>Predicate-driven removal\<close>

lemma find_append: "find P (xs @ ys) = (case find P xs of None \<Rightarrow> find P ys | Some x \<Rightarrow> Some x)"
  by (induction xs) auto

text \<open>The entries of the levels selected by a bit mask, up to level \<open>n\<close>.\<close>

definition maskedEntries :: "'a mlq \<Rightarrow> u16 \<Rightarrow> nat \<Rightarrow> (u64 \<times> 'a) list" where
  "maskedEntries m w n = concat (map (\<lambda>p. if bit w p then mlq_levels m ! p else []) [0..<n])"

lemma maskedEntries_empty: "(\<And>p. p < n \<Longrightarrow> \<not> bit w p) \<Longrightarrow> maskedEntries m w n = []"
  by (auto simp: maskedEntries_def)

lemma maskedEntries_first:
  assumes "w \<noteq> 0" "trailingZeros16 w < n"
  shows "maskedEntries m w n =
    mlq_levels m ! trailingZeros16 w @ maskedEntries m (clearLevelBit w (trailingZeros16 w)) n"
proof -
  let ?p = "trailingZeros16 w"
  let ?w = "clearLevelBit w ?p"
  have "maskedEntries m w n = mlq_levels m ! ?p @
      concat (map (\<lambda>p. if bit w p then mlq_levels m ! p else []) [Suc ?p..<n])"
    using trailingZeros16_bit [OF assms(1)]
    by (auto simp: maskedEntries_def concat_map_upt_split [OF assms(2)])
  moreover have "maskedEntries m ?w n =
      concat (map (\<lambda>p. if bit ?w p then mlq_levels m ! p else []) [Suc ?p..<n])"
    using trailingZeros16_bit [OF assms(1)]
    by (auto simp: maskedEntries_def concat_map_upt_split [OF assms(2)])
  moreover have "map (\<lambda>p. if bit ?w p then mlq_levels m ! p else []) [Suc ?p..<n] =
      map (\<lambda>p. if bit w p then mlq_levels m ! p else []) [Suc ?p..<n]"
    by (rule map_cong) auto
  ultimately show ?thesis by (simp only:)
qed

lemma find_level:
  assumes "mlq_inv m" "p < 6"
  shows "find (\<lambda>y. accepts predicate (snd y)) (mlq_levels m ! p) =
    map_option entryOf (find (\<lambda>e. accepts predicate (qitem (evalue e))) (queues m ! p))"
proof -
  have "find (\<lambda>y. accepts predicate (snd y)) (map entryOf es) =
      map_option entryOf (find (\<lambda>e. accepts predicate (qitem (evalue e))) es)" for es
    by (induction es) (simp_all add: entryOf_def)
  then show ?thesis by (simp add: nth_mlq_levels assms)
qed

text \<open>\<open>popAnyFrom\<close> takes the first acceptable entry of the selected levels, and only that one.\<close>

lemma mlq_popAnyFrom_spec:
  assumes inv: "mlq_inv m"
  shows "(\<And>i. bit w i \<Longrightarrow> i < 6) \<Longrightarrow>
    (case find (\<lambda>y. accepts predicate (snd y)) (maskedEntries m w (nat (maxPriority + 1))) of
       None \<Rightarrow> mlq_popAnyFrom m w maxPriority predicate = (m, None)
     | Some (k, x) \<Rightarrow> snd (mlq_popAnyFrom m w maxPriority predicate) = Some x \<and>
         mlq_levels (fst (mlq_popAnyFrom m w maxPriority predicate)) =
           map (filter (\<lambda>y. fst y \<noteq> k)) (mlq_levels m))"
  using inv
proof (induction m w maxPriority predicate rule: mlq_popAnyFrom.induct)
  case (1 m w maxPriority predicate)
  let ?p = "trailingZeros16 w"
  note step = mlq_popAnyFrom.simps [of m w maxPriority predicate]
  consider (stop) "w = 0 \<or> maxPriority < int ?p" | (go) "w \<noteq> 0" "?p < nat (maxPriority + 1)"
    "\<not> maxPriority < int ?p" by linarith
  then show ?case
  proof cases
    case stop
    then have "maskedEntries m w (nat (maxPriority + 1)) = []"
      using trailingZeros16_bit(3) [of w] by (intro maskedEntries_empty) force
    with stop show ?thesis by (auto simp: step Let_def)
  next
    case go
    have p: "?p < 6" using go(1) trailingZeros16_bit(1) [of w] "1.prems"(1) by blast
    show ?thesis
    proof (cases "find (\<lambda>e. accepts predicate (qitem (evalue e))) (queues m ! ?p)")
      case None
      have r: "mlq_popAnyFrom m w maxPriority predicate =
          mlq_popAnyFrom m (clearLevelBit w ?p) maxPriority predicate"
        using go None by (simp add: step Let_def)
      have "find (\<lambda>y. accepts predicate (snd y)) (maskedEntries m w (nat (maxPriority + 1))) =
          find (\<lambda>y. accepts predicate (snd y)) (maskedEntries m (clearLevelBit w ?p) (nat (maxPriority + 1)))"
        by (simp add: maskedEntries_first [OF go(1,2)] find_append find_level [OF "1.prems"(2) p] None)
      then show ?thesis unfolding r using "1.IH" [of ?p] go None "1.prems" by simp
    next
      case (Some e)
      then have e: "e \<in> queuedAt m ?p" by (auto simp: queuedAt_def find_Some_iff)
      have "find (\<lambda>y. accepts predicate (snd y)) (maskedEntries m w (nat (maxPriority + 1))) = Some (entryOf e)"
        by (simp add: maskedEntries_first [OF go(1,2)] find_append find_level [OF "1.prems"(2) p] Some)
      then show ?thesis
        using go Some mlq_levels_takeElem [OF "1.prems"(2) p e] filter_level_eq_map_filter [OF "1.prems"(2) p e]
        by (simp add: step Let_def entryOf_def)
    qed
  qed
qed

lemma maskedEntries_bitmask:
  assumes inv: "mlq_inv m"
  shows "maskedEntries m (bitmask m) n = concat (take n (mlq_levels m))"
proof -
  have "(if bit (bitmask m) p then mlq_levels m ! p else []) = (if p < 6 then mlq_levels m ! p else [])" for p
    using mlq_invD(2) [OF inv, of p] nth_mlq_levels [OF inv, of p] by auto
  then have "maskedEntries m (bitmask m) n = concat (map (\<lambda>p. if p < 6 then mlq_levels m ! p else []) [0..<n])"
    by (simp add: maskedEntries_def)
  also have "\<dots> = concat (map ((!) (mlq_levels m)) [0..<min n 6])"
  proof (induction n)
    case (Suc n)
    then show ?case by (cases "n < 6") (simp_all add: min_def)
  qed simp
  also have "map ((!) (mlq_levels m)) [0..<min n 6] = take n (mlq_levels m)"
    using inv by (intro nth_equalityI) auto
  finally show ?thesis .
qed

lemma mlq_PopAnyIf_spec:
  assumes inv: "mlq_inv m"
  shows "case find (\<lambda>y. accepts predicate (snd y)) (concat (take (nat (maxPriority + 1)) (mlq_levels m))) of
       None \<Rightarrow> mlq_PopAnyIf m maxPriority predicate = (m, None)
     | Some (k, x) \<Rightarrow> snd (mlq_PopAnyIf m maxPriority predicate) = Some x \<and>
         mlq_levels (fst (mlq_PopAnyIf m maxPriority predicate)) =
           map (filter (\<lambda>y. fst y \<noteq> k)) (mlq_levels m)"
proof -
  have eq: "mlq_PopAnyIf m maxPriority predicate = mlq_popAnyFrom m (bitmask m) maxPriority predicate"
    by (simp add: mlq_PopAnyIf_def mlq_popAnyFrom.simps)
  show ?thesis
    unfolding eq
    using mlq_popAnyFrom_spec [OF inv, of "bitmask m" maxPriority predicate] mlq_invD(2) [OF inv]
    by (simp add: maskedEntries_bitmask [OF inv])
qed

section \<open>Reachable queues\<close>

inductive mlq_reachable :: "'a mlq \<Rightarrow> bool" where
  new: "mlq_reachable mlq_New"
| push: "mlq_reachable m \<Longrightarrow> mlq_reachable (fst (mlq_Push m priority key item))"
| pop: "mlq_reachable m \<Longrightarrow> mlq_reachable (fst (mlq_Pop m))"
| popIf: "mlq_reachable m \<Longrightarrow> mlq_reachable (fst (mlq_PopIf m priority predicate))"
| popAnyIf: "mlq_reachable m \<Longrightarrow> mlq_reachable (fst (mlq_PopAnyIf m maxPriority predicate))"
| removeByKey: "mlq_reachable m \<Longrightarrow> mlq_reachable (fst (mlq_RemoveByKey m key))"
| clear: "mlq_reachable m \<Longrightarrow> mlq_reachable (fst (mlq_Clear m))"

lemma mlq_reachable_inv: "mlq_reachable m \<Longrightarrow> mlq_inv m"
  by (induction rule: mlq_reachable.induct)
    (simp_all add: mlq_inv_New mlq_Push_inv mlq_Pop_inv mlq_PopIf_inv mlq_PopAnyIf_inv
      mlq_RemoveByKey_inv mlq_Clear_inv)

lemma mlq_Size_levels: "mlq_inv m \<Longrightarrow> mlq_Size m = length (concat (mlq_levels m))"
  by (simp add: mlq_Size_def mlq_invD(8) mlq_levels_def length_concat comp_def)

lemma mlq_FastSize_Size:
  assumes "mlq_inv m" "mlq_Size m < 2 ^ 31"
  shows "mlq_FastSize m = int (mlq_Size m)"
proof -
  have "fastSize m = of_nat (mlq_Size m)"
    by (simp add: mlq_Size_def mlq_invD(8,9) [OF assms(1)])
  moreover have "sint (of_nat (mlq_Size m) :: u32) = int (mlq_Size m)"
    using assms(2) by (simp add: signed_of_nat signed_take_bit_int_eq_self)
  ultimately show ?thesis by (simp add: mlq_FastSize_def)
qed

fun mlq_pushAll :: "'a mlq \<Rightarrow> (int \<times> u64 \<times> 'a) list \<Rightarrow> 'a mlq" where
  "mlq_pushAll m [] = m"
| "mlq_pushAll m ((pr, k, x) # ps) = mlq_pushAll (fst (mlq_Push m pr k x)) ps"

text \<open>The pushes a queue accepts: the first of each key.\<close>

fun firstByKey :: "u64 list \<Rightarrow> (int \<times> u64 \<times> 'a) list \<Rightarrow> (int \<times> u64 \<times> 'a) list" where
  "firstByKey seen [] = []"
| "firstByKey seen ((pr, k, x) # ps) =
     (if k \<in> set seen then firstByKey seen ps else (pr, k, x) # firstByKey (k # seen) ps)"

definition pushedAt :: "nat \<Rightarrow> (int \<times> u64 \<times> 'a) list \<Rightarrow> (u64 \<times> 'a) list" where
  "pushedAt p ps = map snd (filter (\<lambda>(pr, k, x). levelOf pr = p) ps)"

lemma mlq_pushAll_spec:
  "mlq_inv m \<Longrightarrow> set seen = fst ` set (concat (mlq_levels m)) \<Longrightarrow>
   mlq_inv (mlq_pushAll m ps) \<and>
   (\<forall>p < 6. mlq_levels (mlq_pushAll m ps) ! p = mlq_levels m ! p @ pushedAt p (firstByKey seen ps))"
proof (induction ps arbitrary: m seen)
  case Nil
  then show ?case by (simp add: pushedAt_def)
next
  case (Cons a ps)
  obtain pr k x where a: "a = (pr, k, x)" by (cases a)
  let ?m = "fst (mlq_Push m pr k x)"
  have inv: "mlq_inv ?m" using Cons.prems(1) by (rule mlq_Push_inv)
  have keys: "fst ` set (concat (mlq_levels ?m)) = insert k (set seen)"
    using mq.keys_push [OF Cons.prems(1), of pr k x] Cons.prems(2)
    by (simp only: mq.keys_def)
  show ?case
  proof (cases "k \<in> set seen")
    case True
    then have "mlq_levels ?m = mlq_levels m"
      using mlq_levels_Push [OF Cons.prems(1)] Cons.prems(2) by simp
    then show ?thesis
      using Cons.IH [OF inv, of seen] keys True by (simp add: a insert_absorb)
  next
    case False
    then have l: "mlq_levels ?m = (mlq_levels m)[levelOf pr := mlq_levels m ! levelOf pr @ [(k, x)]]"
      using mlq_levels_Push [OF Cons.prems(1)] Cons.prems(2) by simp
    show ?thesis
      using Cons.IH [OF inv, of "k # seen"] keys False Cons.prems(1)
      by (auto simp: a l pushedAt_def nth_list_update)
  qed
qed

lemma mlq_pushAll_Size:
  "mlq_inv m \<Longrightarrow> mlq_Size (mlq_pushAll m ps) \<le> mlq_Size m + length ps"
proof (induction ps arbitrary: m)
  case (Cons a ps)
  obtain pr k x where a: "a = (pr, k, x)" by (cases a)
  have "mlq_Size (fst (mlq_Push m pr k x)) \<le> Suc (mlq_Size m)"
    by (simp add: mlq_Size_def mlq_Push_def Let_def gomap_len_mput)
  with Cons.IH [OF mlq_Push_inv [OF Cons.prems], of pr k x] show ?case by (simp add: a)
qed simp

lemma length_taggedItems: "length (taggedItems ls) = length (concat ls)"
  using fst_taggedItems [of ls] by (metis length_map)

lemma mlq_levels_New [simp]: "mlq_levels mlq_New = replicate 6 []"
  by (simp add: mlq_levels_def mlq_New_def)

section \<open>Properties\<close>

text \<open>
  C8. Draining a queue that was filled by any sequence of pushes yields every accepted item
  exactly once, urgent levels before later ones and in push order inside a level; a push is
  accepted when its key is the first of its kind, and a priority outside 0..5 counts as level 3.
  Any number of pops from the number of accepted pushes on gives this list, so the drain loop ends.
\<close>

theorem mlq_drain_order:
  assumes "length ps \<le> n"
  shows "drain mlq_Pop n (mlq_pushAll mlq_New ps) =
    concat (map (\<lambda>p. map (\<lambda>y. (snd y, p)) (pushedAt p (firstByKey [] ps))) [0..<6])"
proof -
  let ?m = "mlq_pushAll mlq_New ps"
  have m: "mlq_inv ?m" and l: "\<And>p. p < 6 \<Longrightarrow> mlq_levels ?m ! p = pushedAt p (firstByKey [] ps)"
    using mlq_pushAll_spec [OF mlq_inv_New, of "[]" ps] by simp_all
  have tagged: "taggedItems (mlq_levels ?m) =
      concat (map (\<lambda>p. map (\<lambda>y. (snd y, p)) (pushedAt p (firstByKey [] ps))) [0..<6])"
    using m unfolding taggedItems_def by (intro arg_cong [of _ _ concat] map_cong) (simp_all add: l)
  have "length (taggedItems (mlq_levels ?m)) \<le> length ps"
    using mlq_pushAll_Size [OF mlq_inv_New, of ps] mlq_Size_levels [OF m]
    by (simp add: length_taggedItems mlq_Size_levels mlq_inv_New)
  then show ?thesis using mq.drain_all [OF m, of n] assms tagged by simp
qed

theorem mlq_drain_order_witness:
  "drain mlq_Pop 4 (mlq_pushAll mlq_New [(2, 7, ''a''), (0, 8, ''b''), (9, 7, ''c''), (9, 9, ''d'')]) =
    [(''b'', 0), (''a'', 2), (''d'', 3)]"
  using mlq_drain_order [of "[(2, 7, ''a''), (0, 8, ''b''), (9, 7, ''c''), (9, 9, ''d'')]" 4]
  by (simp add: pushedAt_def levelOf_def upt_rec)

text \<open>
  C19. In every state the public operations can reach, the atomic counter \<open>FastSize\<close> agrees with
  the census size (while that fits the 32-bit counter) and with the sum of the level counts, no
  key is queued twice, \<open>Get\<close> finds exactly the queued keys, and \<open>Peek\<close> shows what \<open>Pop\<close> takes.
\<close>

theorem mlq_reachable_consistent:
  assumes "mlq_reachable m" "mlq_Size m < 2 ^ 31"
  shows "mlq_FastSize m = int (mlq_Size m) \<and>
    mlq_Size m = (\<Sum>p<6. mlq_Count m (int p)) \<and>
    distinct (map fst (concat (mlq_levels m))) \<and>
    mlq_Get m k = map_of (concat (mlq_levels m)) k \<and>
    mlq_Peek m = snd (mlq_Pop m)"
proof (intro conjI)
  have inv: "mlq_inv m" using assms(1) by (rule mlq_reachable_inv)
  show "mlq_FastSize m = int (mlq_Size m)" using inv assms(2) by (rule mlq_FastSize_Size)
  show "mlq_Size m = (\<Sum>p<6. mlq_Count m (int p))"
    using inv by (simp add: mlq_Size_def mlq_Count_def mlq_invD(1,8) sum_list_sum_nth atLeast0LessThan)
  show "distinct (map fst (concat (mlq_levels m)))" using inv by (rule mlq_distinct_keys)
  show "mlq_Get m k = map_of (concat (mlq_levels m)) k" using inv by (rule mlq_Get_levels)
  show "mlq_Peek m = snd (mlq_Pop m)" using inv by (rule mlq_Peek_Pop)
qed

theorem mlq_reachable_consistent_witness:
  "mlq_FastSize (fst (mlq_Push mlq_New 0 5 ''x'')) = 1"
proof -
  have "mlq_reachable (fst (mlq_Push mlq_New 0 5 ''x''))" by (intro mlq_reachable.intros)
  moreover have "mlq_Size (fst (mlq_Push mlq_New 0 5 ''x'')) = 1"
    by (simp add: mlq_Size_def mlq_Push_def mlq_New_def Let_def)
  ultimately show ?thesis using mlq_reachable_consistent [of "fst (mlq_Push mlq_New 0 5 ''x'')"] by simp
qed

text \<open>
  C20. \<open>PopAnyIf\<close> on a reachable queue takes the first entry the predicate accepts, scanning levels
  0 to \<open>maxPriority\<close> and each level from its oldest entry; it removes that entry only, and leaves
  the queue untouched when no entry qualifies.
\<close>

theorem mlq_PopAnyIf_first_match:
  assumes "mlq_reachable m"
  shows "case find (\<lambda>y. accepts predicate (snd y)) (concat (take (nat (maxPriority + 1)) (mlq_levels m))) of
       None \<Rightarrow> mlq_PopAnyIf m maxPriority predicate = (m, None)
     | Some (k, x) \<Rightarrow> snd (mlq_PopAnyIf m maxPriority predicate) = Some x \<and>
         mlq_levels (fst (mlq_PopAnyIf m maxPriority predicate)) =
           map (filter (\<lambda>y. fst y \<noteq> k)) (mlq_levels m)"
  using mlq_PopAnyIf_spec [OF mlq_reachable_inv [OF assms]] .

theorem mlq_PopAnyIf_first_match_witness:
  "snd (mlq_PopAnyIf (fst (mlq_Push (fst (mlq_Push mlq_New 4 5 (10 :: int))) 1 6 11)) 4 (Some (\<lambda>x. x < 11))) = Some 10"
proof -
  let ?m = "fst (mlq_Push (fst (mlq_Push mlq_New 4 5 (10 :: int))) 1 6 11)"
  have r: "mlq_reachable ?m" by (intro mlq_reachable.intros)
  have "mlq_levels ?m = [[], [(6, 11)], [], [], [(5, 10)], []]"
    by (simp add: mlq_levels_def mlq_Push_def mlq_New_def Let_def entryOf_def eval_nat_numeral)
  then show ?thesis
    using mlq_PopAnyIf_first_match [OF r, of 4 "Some (\<lambda>x. x < 11)"] by (simp add: accepts_def)
qed

end
