(* ===== verification/Base_Codec.thy ===== *)
theory Base_Codec
  imports Prelude
begin

text \<open>
  Text encodings of tunnel frames (\<open>internal/basecodec\<close>): the block-wise lower-case base 36 used in
  query names (\<open>lowerbase36.go\<close>, selected by \<open>codec.go\<close>) and the unpadded base 64 used in TXT answers
  (\<open>rawbase64.go\<close> over \<open>encoding/base64\<close>). Both are shown to be inverted by their decoders; base 36
  output has the length \<open>EncodedLen\<close> predicts, stays inside the host-name alphabet, and decoding does
  not depend on the case of letters.
\<close>

section \<open>Lower-case base 36 (\<open>lowerbase36.go\<close>)\<close>

datatype baseError = ErrInvalidLowerBase36 | ErrCorruptBase64

text \<open>A Go string literal as its bytes.\<close>

definition gostr :: "string \<Rightarrow> gostring" where
  "gostr s = map of_char s"

definition lowerBase36Alphabet :: "u8 list" where
  "lowerBase36Alphabet = map of_nat ([48..<58] @ [97..<123])"

definition lowerBase36EncodedCharsByBytes :: "nat list" where
  "lowerBase36EncodedCharsByBytes = [0, 2, 4, 5, 7, 8, 10, 11]"

definition lowerBase36DecodedBytesByChars :: "nat list" where
  "lowerBase36DecodedBytesByChars = [0, 0, 1, 0, 2, 3, 0, 4, 5, 0, 6, 7]"

definition EncodedLenLowerBase36 :: "int \<Rightarrow> int" where
  "EncodedLenLowerBase36 n =
     (if n \<le> 0 then 0
      else (n div 7) * 11 + int (lowerBase36EncodedCharsByBytes ! nat (n mod 7)))"

fun writeBase36Block :: "u64 \<Rightarrow> nat \<Rightarrow> bytes" where
  "writeBase36Block val 0 = []"
| "writeBase36Block val (Suc n) =
     writeBase36Block (val div 36) n @ [lowerBase36Alphabet ! unat (val mod 36)]"

text \<open>\<open>val = (val << 8) | uint64(b)\<close> over the bytes of a block.\<close>

definition packBytes :: "bytes \<Rightarrow> u64" where
  "packBytes src = foldl (\<lambda>val b. push_bit 8 val OR ucast b) 0 src"

definition packSeven :: "bytes \<Rightarrow> u64" where
  "packSeven src =
     push_bit 48 (ucast (src ! 0)) OR push_bit 40 (ucast (src ! 1)) OR
     push_bit 32 (ucast (src ! 2)) OR push_bit 24 (ucast (src ! 3)) OR
     push_bit 16 (ucast (src ! 4)) OR push_bit 8 (ucast (src ! 5)) OR ucast (src ! 6)"

text \<open>The two loops of \<open>EncodeLowerBase36To\<close>: full blocks of seven bytes, then the remainder.\<close>

function encodeBlocks :: "bytes \<Rightarrow> bytes" where
  "encodeBlocks src =
     (if 7 \<le> length src then writeBase36Block (packSeven src) 11 @ encodeBlocks (drop 7 src)
      else if src = [] then []
      else writeBase36Block (packBytes src) (lowerBase36EncodedCharsByBytes ! length src))"
  by pat_completeness auto
termination by (relation "measure length") auto

declare encodeBlocks.simps [simp del]

text \<open>\<open>dst\<close> is the destination at its full capacity; writing past it panics (\<open>None\<close>).\<close>

definition EncodeLowerBase36To :: "bytes \<Rightarrow> bytes \<Rightarrow> (bytes \<times> nat) option" where
  "EncodeLowerBase36To dst data =
     (if data = [] then Some (dst, 0)
      else let e = encodeBlocks data in
        if length dst < length e then None else Some (e @ drop (length e) dst, length e))"

definition EncodeLowerBase36Bytes :: "bytes \<Rightarrow> bytes option" where
  "EncodeLowerBase36Bytes data =
     (case EncodeLowerBase36To (replicate (nat (EncodedLenLowerBase36 (int (length data)))) 0) data of
        None \<Rightarrow> None
      | Some (out, n) \<Rightarrow> Some (take n out))"

definition EncodeLowerBase36 :: "bytes \<Rightarrow> gostring option" where
  "EncodeLowerBase36 data = (if data = [] then Some [] else EncodeLowerBase36Bytes data)"

definition decodeMapStep :: "nat \<Rightarrow> (u8 \<Rightarrow> u8) \<Rightarrow> u8 \<Rightarrow> u8" where
  "decodeMapStep i table =
     (let ch = lowerBase36Alphabet ! i; table = table(ch := of_nat i)
      in if 97 \<le> ch \<and> ch \<le> 122 then table(ch - 97 + 65 := of_nat i) else table)"

definition newLowerBase36DecodeMap :: "u8 \<Rightarrow> u8" where
  "newLowerBase36DecodeMap = fold decodeMapStep [0..<36] (\<lambda>_. 0xFF)"

definition lowerBase36DecodeMap :: "u8 \<Rightarrow> u8" where
  "lowerBase36DecodeMap = newLowerBase36DecodeMap"

definition decodedLenLowerBase36 :: "int \<Rightarrow> baseError + int" where
  "decodedLenLowerBase36 encodedLen =
     (if encodedLen \<le> 0 then Inr 0
      else
        let blocks = encodedLen div 11; rem = nat (encodedLen mod 11)
        in if length lowerBase36DecodedBytesByChars \<le> rem then Inl ErrInvalidLowerBase36
           else
             let decodedRem = lowerBase36DecodedBytesByChars ! rem
             in if rem \<noteq> 0 \<and> decodedRem = 0 then Inl ErrInvalidLowerBase36
                else Inr (blocks * 7 + int decodedRem))"

definition lowerBase36NextDecodeBlock :: "nat \<Rightarrow> nat \<times> nat" where
  "lowerBase36NextDecodeBlock remaining =
     (if 11 \<le> remaining then (7, 11) else (lowerBase36DecodedBytesByChars ! remaining, remaining))"

fun readBase36From :: "u64 \<Rightarrow> bytes \<Rightarrow> baseError + u64" where
  "readBase36From val [] = Inr val"
| "readBase36From val (ch # data) =
     (let digit = lowerBase36DecodeMap ch
      in if digit = 0xFF then Inl ErrInvalidLowerBase36
         else readBase36From (val * 36 + ucast digit) data)"

definition readBase36Block :: "bytes \<Rightarrow> baseError + u64" where
  "readBase36Block data = readBase36From 0 data"

text \<open>\<open>out[offset+i] = byte(val); val >>= 8\<close> from the last byte of a block to its first.\<close>

fun unpackBytes :: "nat \<Rightarrow> u64 \<Rightarrow> bytes" where
  "unpackBytes 0 val = []"
| "unpackBytes (Suc n) val = unpackBytes n (drop_bit 8 val) @ [ucast val]"

function decodeBlocks :: "bytes \<Rightarrow> baseError + bytes" where
  "decodeBlocks src =
     (if src = [] then Inr []
      else case lowerBase36NextDecodeBlock (length src) of (blockSize, charCount) \<Rightarrow>
        (case readBase36Block (take charCount src) of
           Inl err \<Rightarrow> Inl err
         | Inr val \<Rightarrow>
             (case decodeBlocks (drop charCount src) of
                Inl err \<Rightarrow> Inl err
              | Inr rest \<Rightarrow> Inr (unpackBytes blockSize val @ rest))))"
  by pat_completeness auto
termination
  by (relation "measure length") (auto simp: lowerBase36NextDecodeBlock_def split: if_splits)

declare decodeBlocks.simps [simp del]

definition DecodeLowerBase36 :: "bytes \<Rightarrow> baseError + bytes" where
  "DecodeLowerBase36 data =
     (if data = [] then Inr []
      else case decodedLenLowerBase36 (int (length data)) of
        Inl err \<Rightarrow> Inl err
      | Inr totalBytes \<Rightarrow> decodeBlocks data)"

text \<open>The string variants run the same loops over the bytes of the string.\<close>

definition DecodeLowerBase36String :: "gostring \<Rightarrow> baseError + bytes" where
  "DecodeLowerBase36String data = DecodeLowerBase36 data"

section \<open>The active scheme (\<open>codec.go\<close>)\<close>

definition EncodedLen :: "int \<Rightarrow> int" where
  "EncodedLen n = EncodedLenLowerBase36 n"

definition EncodeTo :: "bytes \<Rightarrow> bytes \<Rightarrow> (bytes \<times> nat) option" where
  "EncodeTo dst data = EncodeLowerBase36To dst data"

definition EncodeToBytes :: "bytes \<Rightarrow> bytes option" where
  "EncodeToBytes data = EncodeLowerBase36Bytes data"

definition Encode :: "bytes \<Rightarrow> gostring option" where
  "Encode data = EncodeLowerBase36 data"

definition Decode :: "bytes \<Rightarrow> baseError + bytes" where
  "Decode data = DecodeLowerBase36 data"

definition DecodeString :: "gostring \<Rightarrow> baseError + bytes" where
  "DecodeString data = DecodeLowerBase36String data"

section \<open>Base 36 blocks\<close>

lemma packBytes_Nil [simp]: "packBytes [] = 0"
  by (simp add: packBytes_def)

lemma packBytes_snoc [simp]: "packBytes (bs @ [b]) = push_bit 8 (packBytes bs) OR ucast b"
  by (simp add: packBytes_def)

lemma packBytes_bits: "bit (packBytes bs) n \<Longrightarrow> n < 8 * length bs"
proof (induction bs arbitrary: n rule: rev_induct)
  case (snoc b bs)
  then show ?case
    by (cases "n < 8") (auto simp: bit_simps dest: snoc.IH bit_imp_le_length)
qed simp

lemma unpack_packBytes: "length bs \<le> 7 \<Longrightarrow> unpackBytes (length bs) (packBytes bs) = bs"
proof (induction bs rule: rev_induct)
  case (snoc b bs)
  have "drop_bit 8 (push_bit 8 (packBytes bs) OR ucast b) = packBytes bs"
    using snoc.prems
    by (intro bit_word_eqI) (auto simp: bit_simps dest: packBytes_bits bit_imp_le_length)
  moreover have "(ucast (push_bit 8 (packBytes bs) OR ucast b) :: u8) = b"
    by (intro bit_word_eqI) (auto simp: bit_simps)
  ultimately show ?case using snoc by simp
qed simp

lemma length_unpackBytes [simp]: "length (unpackBytes n val) = n"
  by (induction n val rule: unpackBytes.induct) auto

lemma unat_packBytes_less: "length bs \<le> 7 \<Longrightarrow> unat (packBytes bs) < 256 ^ length bs"
proof -
  assume "length bs \<le> 7"
  have "take_bit (8 * length bs) (packBytes bs) = packBytes bs"
    by (rule bit_word_eqI) (auto simp: bit_simps dest: packBytes_bits)
  then have "take_bit (8 * length bs) (unat (packBytes bs)) = unat (packBytes bs)"
    by (metis unsigned_take_bit_eq)
  then have "unat (packBytes bs) < 2 ^ (8 * length bs)"
    by (metis take_bit_nat_less_exp)
  then show ?thesis by (simp add: power_mult)
qed

lemma packSeven_packBytes: "length src = 7 \<Longrightarrow> packSeven src = packBytes src"
proof -
  assume "length src = 7"
  then obtain a b c d e f g where src: "src = [a, b, c, d, e, f, g]"
    by (auto simp: length_Suc_conv numeral_eq_Suc)
  show ?thesis
    by (simp add: src packSeven_def packBytes_def push_bit_or or.assoc)
qed

lemma packSeven_take: "7 \<le> length src \<Longrightarrow> packSeven src = packBytes (take 7 src)"
  using packSeven_packBytes [of "take 7 src"] by (simp add: packSeven_def)

lemma length_writeBase36Block [simp]: "length (writeBase36Block val n) = n"
  by (induction val n rule: writeBase36Block.induct) auto

lemma length_lowerBase36Alphabet [simp]: "length lowerBase36Alphabet = 36"
  by (simp add: lowerBase36Alphabet_def)

text \<open>The decode table inverts the alphabet.\<close>

lemma decodeMap_alphabet_all:
  "\<forall>i \<in> set [0..<36]. lowerBase36DecodeMap (lowerBase36Alphabet ! i) = of_nat i"
  by (simp add: lowerBase36DecodeMap_def newLowerBase36DecodeMap_def decodeMapStep_def
      lowerBase36Alphabet_def upt_rec Let_def)

lemma decodeMap_alphabet: "i < 36 \<Longrightarrow> lowerBase36DecodeMap (lowerBase36Alphabet ! i) = of_nat i"
  using decodeMap_alphabet_all by simp

lemma readBase36From_append:
  "readBase36From v (xs @ ys) =
    (case readBase36From v xs of Inl e \<Rightarrow> Inl e | Inr v' \<Rightarrow> readBase36From v' ys)"
  by (induction v xs rule: readBase36From.induct) (auto simp: Let_def)

lemma read_writeBase36Block:
  "unat val < 36 ^ n \<Longrightarrow> readBase36Block (writeBase36Block val n) = Inr val"
proof (induction n arbitrary: val)
  case 0
  then show ?case by (simp add: readBase36Block_def unat_eq_0)
next
  case (Suc n)
  have m: "unat (val mod 36) = unat val mod 36" and d: "unat (val div 36) = unat val div 36"
    by (simp_all add: unat_div unat_mod)
  have "unat val div 36 < 36 ^ n" using Suc.prems by (simp add: less_mult_imp_div_less mult.commute)
  then have IH: "readBase36From 0 (writeBase36Block (val div 36) n) = Inr (val div 36)"
    using Suc.IH [of "val div 36"] by (simp add: readBase36Block_def d)
  let ?i = "unat val mod 36"
  have i: "?i < 36" by simp
  have dig: "lowerBase36DecodeMap (lowerBase36Alphabet ! ?i) = of_nat ?i"
    using decodeMap_alphabet [OF i] .
  have "unat (of_nat ?i :: u8) = ?i" using i by (intro unat_of_nat_u8) linarith
  then have "unat (of_nat ?i :: u8) \<noteq> unat (0xFF :: u8)" using i by (simp del: unsigned_of_nat)
  then have ne: "(of_nat ?i :: u8) \<noteq> 0xFF" by metis
  have "ucast (of_nat ?i :: u8) = (val mod 36 :: u64)"
    using i m by (intro word_unat_eq_iff [THEN iffD2]) (simp add: unat_of_nat_u8 unsigned_ucast_eq take_bit_nat_eq_self)
  moreover have "(val div 36) * 36 + val mod 36 = val" by (rule div_mult_mod_eq)
  ultimately show ?case
    using IH dig ne by (simp add: readBase36Block_def readBase36From_append Let_def m)
qed

section \<open>Base 36 round trip\<close>

lemma block_tables:
  "\<forall>n \<in> set [0..<8]. 256 ^ n \<le> (36 :: nat) ^ (lowerBase36EncodedCharsByBytes ! n) \<and>
    lowerBase36EncodedCharsByBytes ! n \<le> 11 \<and>
    (n < 7 \<longrightarrow> lowerBase36EncodedCharsByBytes ! n < 11) \<and>
    (0 < n \<longrightarrow> 0 < lowerBase36EncodedCharsByBytes ! n) \<and>
    lowerBase36DecodedBytesByChars ! (lowerBase36EncodedCharsByBytes ! n) = n"
  by (simp add: upt_rec lowerBase36EncodedCharsByBytes_def lowerBase36DecodedBytesByChars_def)

lemma block_table:
  assumes "n < 8"
  shows "256 ^ n \<le> (36 :: nat) ^ (lowerBase36EncodedCharsByBytes ! n)"
    and "n < 7 \<Longrightarrow> lowerBase36EncodedCharsByBytes ! n < 11"
    and "0 < n \<Longrightarrow> 0 < lowerBase36EncodedCharsByBytes ! n"
    and "lowerBase36DecodedBytesByChars ! (lowerBase36EncodedCharsByBytes ! n) = n"
  using block_tables assms by auto

lemma chars_seven [simp]: "lowerBase36EncodedCharsByBytes ! 7 = 11"
  by (simp add: lowerBase36EncodedCharsByBytes_def)

lemma read_block:
  "length bs \<le> 7 \<Longrightarrow>
   readBase36Block (writeBase36Block (packBytes bs) (lowerBase36EncodedCharsByBytes ! length bs)) =
     Inr (packBytes bs)"
  using unat_packBytes_less [of bs] block_table(1) [of "length bs"]
  by (intro read_writeBase36Block) simp

lemma decode_encodeBlocks: "decodeBlocks (encodeBlocks data) = Inr data"
proof (induction data rule: encodeBlocks.induct)
  case (1 src)
  consider (full) "7 \<le> length src" | (part) "0 < length src" "length src < 7" | (none) "src = []"
    by fastforce
  then show ?case
  proof cases
    case full
    let ?b = "writeBase36Block (packBytes (take 7 src)) 11"
    have e: "encodeBlocks src = ?b @ encodeBlocks (drop 7 src)"
      using full by (simp add: encodeBlocks.simps [of src] packSeven_take)
    have r: "readBase36Block ?b = Inr (packBytes (take 7 src))"
      using read_block [of "take 7 src"] full by simp
    have u: "unpackBytes 7 (packBytes (take 7 src)) = take 7 src"
      using unpack_packBytes [of "take 7 src"] full by simp
    have "?b \<noteq> []" by (metis length_writeBase36Block list.size(3) zero_neq_numeral)
    then show ?thesis
      using full "1.IH"(1) by (simp add: e decodeBlocks.simps [of "?b @ _"] lowerBase36NextDecodeBlock_def r u)
  next
    case part
    let ?c = "lowerBase36EncodedCharsByBytes ! length src"
    have e: "encodeBlocks src = writeBase36Block (packBytes src) ?c"
      using part by (auto simp: encodeBlocks.simps [of src])
    have c: "?c < 11" "0 < ?c" "lowerBase36DecodedBytesByChars ! ?c = length src"
      using block_table [of "length src"] part by auto
    then have "writeBase36Block (packBytes src) ?c \<noteq> []" by (metis length_writeBase36Block list.size(3) less_numeral_extra(3))
    then show ?thesis
      using c read_block [of src] unpack_packBytes [of src] part
      by (simp add: e decodeBlocks.simps [of "writeBase36Block _ _"] decodeBlocks.simps [of "[]"]
          lowerBase36NextDecodeBlock_def)
  next
    case none
    then show ?thesis by (simp add: encodeBlocks.simps [of "[]"] decodeBlocks.simps [of "[]"])
  qed
qed

lemma EncodedLen_nat:
  "nat (EncodedLenLowerBase36 (int n)) = n div 7 * 11 + lowerBase36EncodedCharsByBytes ! (n mod 7)"
  by (simp add: EncodedLenLowerBase36_def lowerBase36EncodedCharsByBytes_def nat_div_distrib
      nat_mod_distrib nat_add_distrib nat_mult_distrib)

lemma length_encodeBlocks:
  "length (encodeBlocks data) = length data div 7 * 11 + lowerBase36EncodedCharsByBytes ! (length data mod 7)"
proof (induction data rule: encodeBlocks.induct)
  case (1 src)
  show ?case
  proof (cases "7 \<le> length src")
    case True
    then have "length src div 7 = Suc ((length src - 7) div 7)" "length src mod 7 = (length src - 7) mod 7"
      by (simp_all add: le_div_geq le_mod_geq)
    then show ?thesis using True 1 by (simp add: encodeBlocks.simps [of src])
  next
    case False
    then show ?thesis by (auto simp: encodeBlocks.simps [of src] lowerBase36EncodedCharsByBytes_def)
  qed
qed

lemma EncodedLen_encodeBlocks: "nat (EncodedLenLowerBase36 (int (length data))) = length (encodeBlocks data)"
  by (simp only: EncodedLen_nat length_encodeBlocks)

text \<open>The encoder never runs out of its buffer.\<close>

lemma EncodeLowerBase36Bytes_eq: "EncodeLowerBase36Bytes data = Some (encodeBlocks data)"
  by (cases "data = []")
    (simp_all add: EncodeLowerBase36Bytes_def EncodeLowerBase36To_def Let_def EncodedLen_encodeBlocks
      encodeBlocks.simps [of "[]"])

lemma Encode_eq: "Encode data = Some (encodeBlocks data)"
  by (simp add: Encode_def EncodeLowerBase36_def EncodeLowerBase36Bytes_eq encodeBlocks.simps [of "[]"])

lemma encodeBlocks_eq_Nil: "encodeBlocks data = [] \<longleftrightarrow> data = []"
  using decode_encodeBlocks [of data] by (auto simp: encodeBlocks.simps [of "[]"] decodeBlocks.simps [of "[]"])

lemma decodedLen_blocks:
  assumes "c < 11"
  shows "decodedLenLowerBase36 (int (q * 11 + c)) =
    (if c \<noteq> 0 \<and> lowerBase36DecodedBytesByChars ! c = 0 then Inl ErrInvalidLowerBase36
     else Inr (int (q * 7 + lowerBase36DecodedBytesByChars ! c)))"
proof -
  have "int (q * 11 + c) div 11 = int q" "nat (int (q * 11 + c) mod 11) = c"
    using assms by simp_all
  moreover have "length lowerBase36DecodedBytesByChars = 12" "lowerBase36DecodedBytesByChars ! 0 = 0"
    by (simp_all add: lowerBase36DecodedBytesByChars_def)
  ultimately show ?thesis
    using assms unfolding decodedLenLowerBase36_def Let_def by (cases "q * 11 + c = 0") auto
qed

lemma decodedLen_encodeBlocks:
  "decodedLenLowerBase36 (int (length (encodeBlocks data))) = Inr (int (length data))"
proof -
  define q r where "q = length data div 7" and "r = length data mod 7"
  let ?c = "lowerBase36EncodedCharsByBytes ! r"
  have r: "r < 8" "r < 7" by (simp_all add: r_def less_trans [of _ 7])
  have c: "?c < 11" "lowerBase36DecodedBytesByChars ! ?c = r"
    using block_table(2,4) [OF r(1)] r(2) by blast+
  have z: "?c \<noteq> 0 \<Longrightarrow> r \<noteq> 0"
    by (cases "r = 0") (simp_all add: lowerBase36EncodedCharsByBytes_def)
  have "length (encodeBlocks data) = q * 11 + ?c" unfolding q_def r_def by (rule length_encodeBlocks)
  moreover have "q * 7 + r = length data" by (simp add: q_def r_def)
  ultimately show ?thesis using decodedLen_blocks [OF c(1), of q] c(2) z by auto
qed

lemma Decode_encodeBlocks: "Decode (encodeBlocks data) = Inr data"
  using decodedLen_encodeBlocks [of data] decode_encodeBlocks [of data]
  by (auto simp: Decode_def DecodeLowerBase36_def encodeBlocks_eq_Nil)

section \<open>Alphabet and letter case\<close>

lemma set_writeBase36Block: "set (writeBase36Block val n) \<subseteq> set lowerBase36Alphabet"
proof (induction val n rule: writeBase36Block.induct)
  case (2 val n)
  have "unat (val mod 36) < 36" by (simp add: unat_mod)
  then have "lowerBase36Alphabet ! unat (val mod 36) \<in> set lowerBase36Alphabet" by simp
  with 2 show ?case by simp
qed simp

lemma set_encodeBlocks: "set (encodeBlocks data) \<subseteq> set lowerBase36Alphabet"
proof (induction data rule: encodeBlocks.induct)
  case (1 src)
  then show ?case
    using set_writeBase36Block [of "packSeven src" 11] set_writeBase36Block [of "packBytes src"]
    by (simp add: encodeBlocks.simps [of src])
qed

lemma u8_image_iff: "A \<subseteq> {..<256} \<Longrightarrow> (ch :: u8) \<in> of_nat ` A \<longleftrightarrow> unat ch \<in> A"
  by (metis image_iff lessThan_iff of_nat_unat_u8 subsetD unat_of_nat_u8)

lemma lowerBase36Alphabet_iff:
  "ch \<in> set lowerBase36Alphabet \<longleftrightarrow> (48 \<le> ch \<and> ch \<le> 57) \<or> (97 \<le> ch \<and> ch \<le> 122)"
proof -
  have "set lowerBase36Alphabet = of_nat ` ({48..<58} \<union> {97..<123})"
    by (simp only: lowerBase36Alphabet_def set_map set_append set_upt)
  then have "ch \<in> set lowerBase36Alphabet \<longleftrightarrow> unat ch \<in> {48..<58} \<union> {97..<123}"
    by (simp only: u8_image_iff) (rule u8_image_iff, auto)
  then show ?thesis by (auto simp: word_le_nat_alt)
qed

lemma asciiLower_alphabet: "ch \<in> set lowerBase36Alphabet \<Longrightarrow> asciiLower ch = ch"
  by (auto simp: lowerBase36Alphabet_iff asciiLower_def word_le_nat_alt)

lemma decodeMap_case_step:
  fixes table :: "u8 \<Rightarrow> u8"
  assumes "\<forall>c. 65 \<le> c \<and> c \<le> 90 \<longrightarrow> table (c + 32) = table c"
    and "(48 \<le> ch \<and> ch \<le> 57) \<or> (97 \<le> ch \<and> ch \<le> 122)"
    and "table' = (if 97 \<le> ch \<and> ch \<le> 122 then (table(ch := x))(ch - 97 + 65 := x) else table(ch := x))"
  shows "\<forall>c. 65 \<le> c \<and> c \<le> 90 \<longrightarrow> table' (c + 32) = table' c"
proof (intro allI impI)
  fix c :: u8 assume c: "65 \<le> c \<and> c \<le> 90"
  have u: "unat (c + 32) = unat c + 32" "unat (c + 64) = unat c + 64" "65 \<le> unat c" "unat c \<le> 90"
    using c by (simp_all add: unat_word_ariths word_le_nat_alt)
  show "table' (c + 32) = table' c"
  proof (cases "97 \<le> ch \<and> ch \<le> 122")
    case True
    have "c + 32 = ch \<longleftrightarrow> c = ch - 97 + 65" by (auto simp: algebra_simps)
    moreover have "c + 32 \<noteq> ch - 97 + 65" "c \<noteq> ch"
    proof -
      have "unat (c + 64) \<noteq> unat ch" "unat c \<noteq> unat ch" using True u by (auto simp: word_le_nat_alt)
      then show "c + 32 \<noteq> ch - 97 + 65" "c \<noteq> ch" by (auto simp: algebra_simps)
    qed
    ultimately show ?thesis using True assms(1,3) c by auto
  next
    case False
    then have "unat ch \<le> 57" using assms(2) by (auto simp: word_le_nat_alt)
    then have "c + 32 \<noteq> ch" "c \<noteq> ch" using u by auto
    with False show ?thesis using assms(1,3) c by auto
  qed
qed

lemma decodeMap_case:
  "65 \<le> c \<Longrightarrow> c \<le> 90 \<Longrightarrow> lowerBase36DecodeMap (c + 32) = lowerBase36DecodeMap c"
proof -
  have "\<forall>c. 65 \<le> c \<and> c \<le> 90 \<longrightarrow>
      fold decodeMapStep [0..<n] (\<lambda>_. 0xFF) (c + 32) = fold decodeMapStep [0..<n] (\<lambda>_. 0xFF) c"
    if "n \<le> 36" for n
    using that
  proof (induction n)
    case (Suc n)
    have ch: "lowerBase36Alphabet ! n \<in> set lowerBase36Alphabet" using Suc.prems by simp
    show ?case
      by (rule decodeMap_case_step [OF Suc.IH [OF Suc_leD [OF Suc.prems]]
            ch [unfolded lowerBase36Alphabet_iff], of _ "of_nat n"])
        (simp only: upt_Suc zero_le if_True fold_append fold_simps comp_apply decodeMapStep_def Let_def)
  qed simp
  from this [OF order_refl] show "65 \<le> c \<Longrightarrow> c \<le> 90 \<Longrightarrow> ?thesis"
    unfolding lowerBase36DecodeMap_def newLowerBase36DecodeMap_def by blast
qed

lemma decodeMap_asciiLower [simp]: "lowerBase36DecodeMap (asciiLower ch) = lowerBase36DecodeMap ch"
  using decodeMap_case [of ch] by (simp add: asciiLower_def)

lemma readBase36From_lower [simp]: "readBase36From v (map asciiLower xs) = readBase36From v xs"
  by (induction v xs rule: readBase36From.induct) (simp_all add: Let_def)

lemma decodeBlocks_lower: "decodeBlocks (map asciiLower src) = decodeBlocks src"
proof (induction src rule: decodeBlocks.induct)
  case (1 src)
  show ?case
  proof (cases "src = []")
    case False
    obtain b c where bc: "lowerBase36NextDecodeBlock (length src) = (b, c)" by (metis surj_pair)
    show ?thesis
      using 1 [OF False bc [symmetric]] False bc
      by (cases "readBase36Block (take c src)")
        (simp_all add: decodeBlocks.simps [of "map asciiLower src"] decodeBlocks.simps [of src]
          readBase36Block_def take_map drop_map)
  qed simp
qed

section \<open>Unpadded base 64 (\<open>rawbase64.go\<close>)\<close>

text \<open>
  \<open>base64.RawStdEncoding\<close>: three bytes become four characters of six bits each; a remainder of one
  or two bytes becomes two or three. Decoding skips carriage returns and line feeds, accepts any
  trailing bits, and refuses foreign characters and a single left-over character.
\<close>

definition encodeStd :: "u8 list" where
  "encodeStd = map of_nat ([65..<91] @ [97..<123] @ [48..<58] @ [43, 47])"

definition sextet :: "nat \<Rightarrow> u8" where
  "sextet n = encodeStd ! (n mod 64)"

fun encode64 :: "bytes \<Rightarrow> bytes" where
  "encode64 [] = []"
| "encode64 [a] = (let v = unat a * 16 in [sextet (v div 64), sextet v])"
| "encode64 [a, b] =
     (let v = (unat a * 256 + unat b) * 4 in [sextet (v div 4096), sextet (v div 64), sextet v])"
| "encode64 (a # b # c # rest) =
     (let v = unat a * 65536 + unat b * 256 + unat c
      in [sextet (v div 262144), sextet (v div 4096), sextet (v div 64), sextet v] @ encode64 rest)"

definition decodeMap64 :: "u8 \<Rightarrow> nat option" where
  "decodeMap64 ch =
     (if 65 \<le> ch \<and> ch \<le> 90 then Some (unat ch - 65)
      else if 97 \<le> ch \<and> ch \<le> 122 then Some (unat ch - 71)
      else if 48 \<le> ch \<and> ch \<le> 57 then Some (unat ch + 4)
      else if ch = 43 then Some 62
      else if ch = 47 then Some 63
      else None)"

fun decodeQuanta :: "nat list \<Rightarrow> bytes option" where
  "decodeQuanta [] = Some []"
| "decodeQuanta [a] = None"
| "decodeQuanta [a, b] = (let v = a * 64 + b in Some [of_nat (v div 16)])"
| "decodeQuanta [a, b, c] =
     (let v = (a * 64 + b) * 64 + c in Some [of_nat (v div 1024), of_nat (v div 4)])"
| "decodeQuanta (a # b # c # d # rest) =
     (let v = ((a * 64 + b) * 64 + c) * 64 + d
      in map_option ((@) [of_nat (v div 65536), of_nat (v div 256), of_nat v]) (decodeQuanta rest))"

definition decode64 :: "bytes \<Rightarrow> bytes option" where
  "decode64 src =
     (case those (map decodeMap64 (filter (\<lambda>ch. ch \<noteq> 13 \<and> ch \<noteq> 10) src)) of
        None \<Rightarrow> None
      | Some ds \<Rightarrow> decodeQuanta ds)"

definition EncodedRawBase64Len :: "nat \<Rightarrow> nat" where
  "EncodedRawBase64Len n = n div 3 * 4 + (n mod 3 * 8 + 5) div 6"

definition EncodeRawBase64 :: "bytes \<Rightarrow> bytes" where
  "EncodeRawBase64 data = (if data = [] then [] else encode64 data)"

definition EncodeRawBase64To :: "bytes \<Rightarrow> bytes \<Rightarrow> bytes" where
  "EncodeRawBase64To dst data = (if data = [] then dst else dst @ encode64 data)"

text \<open>\<open>dst\<close> is the destination slice; \<open>Encode\<close> panics (\<open>None\<close>) when it is too short.\<close>

definition EncodeRawBase64Into :: "bytes \<Rightarrow> bytes \<Rightarrow> bytes option" where
  "EncodeRawBase64Into dst data =
     (if data = [] then Some dst
      else if length dst < EncodedRawBase64Len (length data) then None
      else Some (encode64 data @ drop (length (encode64 data)) dst))"

definition DecodeRawBase64 :: "bytes \<Rightarrow> baseError + bytes" where
  "DecodeRawBase64 data =
     (if data = [] then Inr []
      else case decode64 data of None \<Rightarrow> Inl ErrCorruptBase64 | Some out \<Rightarrow> Inr out)"

lemma length_encodeStd [simp]: "length encodeStd = 64"
  by (simp add: encodeStd_def)

lemma decodeMap64_alphabet:
  assumes "n < 64"
  shows "decodeMap64 (encodeStd ! n) = Some n" "encodeStd ! n \<noteq> 13" "encodeStd ! n \<noteq> 10"
proof -
  have "\<forall>n \<in> set [0..<64]. decodeMap64 (encodeStd ! n) = Some n \<and> encodeStd ! n \<noteq> 13 \<and> encodeStd ! n \<noteq> 10"
    by (simp add: upt_rec decodeMap64_def encodeStd_def)
  then show "decodeMap64 (encodeStd ! n) = Some n" "encodeStd ! n \<noteq> 13" "encodeStd ! n \<noteq> 10"
    using assms by auto
qed

lemma decodeMap64_sextet [simp]:
  "decodeMap64 (sextet n) = Some (n mod 64)" "sextet n \<noteq> 13" "sextet n \<noteq> 10"
  by (simp_all add: sextet_def decodeMap64_alphabet)

definition sextets :: "bytes \<Rightarrow> nat list option" where
  "sextets src = those (map decodeMap64 (filter (\<lambda>ch. ch \<noteq> 13 \<and> ch \<noteq> 10) src))"

lemma sextets_sextet [simp]: "sextets (sextet n # xs) = map_option ((#) (n mod 64)) (sextets xs)"
  by (simp add: sextets_def)

lemma sextets_Nil [simp]: "sextets [] = Some []"
  by (simp add: sextets_def)

lemma decode64_sextets: "decode64 src = (case sextets src of None \<Rightarrow> None | Some ds \<Rightarrow> decodeQuanta ds)"
  by (simp add: decode64_def sextets_def)

lemma digits64:
  assumes "v < 16777216"
  shows "((v div 262144 mod 64 * 64 + v div 4096 mod 64) * 64 + v div 64 mod 64) * 64 + v mod 64 = (v :: nat)"
proof -
  have d: "v div 4096 = v div 64 div 64" "v div 262144 = v div 64 div 64 div 64"
    by (simp_all add: div_mult2_eq [symmetric])
  have "v div 64 div 64 div 64 < 64" using assms by (simp add: div_mult2_eq [symmetric] div_less_iff_less_mult)
  then show ?thesis by (simp add: d)
qed

lemma digits64_2: "v < 4096 \<Longrightarrow> v div 64 mod 64 * 64 + v mod 64 = (v :: nat)"
  by (simp add: div_less_iff_less_mult)

lemma digits64_3:
  "v < 262144 \<Longrightarrow> (v div 4096 mod 64 * 64 + v div 64 mod 64) * 64 + v mod 64 = (v :: nat)"
  using digits64 [of v] by simp

lemma of_nat_low8: "(of_nat (n * 256 + unat b) :: u8) = b"
  by (rule word_unat_eq_iff [THEN iffD2]) (simp only: unat_of_nat, simp)

lemma byte_group2:
  fixes x y :: nat
  assumes "x < 256" "y < 256"
  shows "(x * 256 + y) * 4 < 262144" "(x * 256 + y) * 4 div 1024 = x"
proof -
  have e: "(x * 256 + y) * 4 = x * 1024 + y * 4" by simp
  show "(x * 256 + y) * 4 < 262144" unfolding e using assms by linarith
  show "(x * 256 + y) * 4 div 1024 = x" unfolding e using assms by simp
qed

lemma byte_group3:
  fixes x y z :: nat
  assumes "x < 256" "y < 256" "z < 256"
  shows "x * 65536 + y * 256 + z < 16777216" "(x * 65536 + y * 256 + z) div 65536 = x"
    "(x * 65536 + y * 256 + z) div 256 = x * 256 + y"
  using assms by linarith+

lemma decode64_encode64: "decode64 (encode64 data) = Some data"
proof (induction data rule: encode64.induct)
  case 1
  show ?case by (simp add: decode64_sextets)
next
  case (2 a)
  have "unat a * 16 < 4096" using unat_u8_lt [of a] by linarith
  note v = digits64_2 [OF this]
  have "decode64 (encode64 [a]) = Some [of_nat (unat a * 16 div 16)]"
    unfolding encode64.simps Let_def decode64_sextets
    by (simp only: sextets_sextet sextets_Nil option.map option.case decodeQuanta.simps Let_def v)
  then show ?case by simp
next
  case (3 a b)
  let ?v = "(unat a * 256 + unat b) * 4"
  have "?v < 262144" by (rule byte_group2) simp_all
  note v = digits64_3 [OF this]
  have "decode64 (encode64 [a, b]) = Some [of_nat (?v div 1024), of_nat (?v div 4)]"
    unfolding encode64.simps Let_def decode64_sextets
    by (simp only: sextets_sextet sextets_Nil option.map option.case decodeQuanta.simps Let_def v)
  moreover have "?v div 1024 = unat a" by (rule byte_group2) simp_all
  moreover have "?v div 4 = unat a * 256 + unat b" by simp
  ultimately show ?case by (simp only: of_nat_low8 of_nat_unat_u8)
next
  case (4 a b c rest)
  let ?v = "unat a * 65536 + unat b * 256 + unat c"
  have "?v < 16777216" by (rule byte_group3) simp_all
  note v = digits64 [OF this]
  obtain ds where ds: "sextets (encode64 rest) = Some ds" "decodeQuanta ds = Some rest"
    using 4 by (auto simp: decode64_sextets Let_def split: option.splits)
  have "decode64 (encode64 (a # b # c # rest)) =
      Some ([of_nat (?v div 65536), of_nat (?v div 256), of_nat ?v] @ rest)"
    unfolding encode64.simps Let_def decode64_sextets
    by (simp only: append_Cons append_Nil sextets_sextet ds option.map option.case decodeQuanta.simps Let_def v)
  moreover have "?v div 65536 = unat a" by (rule byte_group3) simp_all
  moreover have "?v div 256 = unat a * 256 + unat b" by (rule byte_group3) simp_all
  moreover have "?v = (unat a * 256 + unat b) * 256 + unat c" by simp
  ultimately show ?case by (metis append_Cons append_Nil of_nat_low8 of_nat_unat_u8)
qed

lemma length_encode64: "length (encode64 data) = EncodedRawBase64Len (length data)"
proof (induction data rule: encode64.induct)
  case (4 a b c rest)
  have "Suc (Suc (Suc (length rest))) div 3 = Suc (length rest div 3)"
    "Suc (Suc (Suc (length rest))) mod 3 = length rest mod 3"
    by simp_all
  then show ?case using 4 by (simp add: EncodedRawBase64Len_def Let_def)
qed (simp_all add: EncodedRawBase64Len_def Let_def)

text \<open>A successful base 36 decode fills exactly the buffer \<open>decodedLenLowerBase36\<close> sized.\<close>

lemma decodeBlocks_length:
  "decodeBlocks src = Inr out \<Longrightarrow>
   length out = length src div 11 * 7 + lowerBase36DecodedBytesByChars ! (length src mod 11)"
proof (induction src arbitrary: out rule: decodeBlocks.induct)
  case (1 src)
  show ?case
  proof (cases "src = []")
    case True
    with "1.prems" show ?thesis
      by (simp add: decodeBlocks.simps [of "[]"] lowerBase36DecodedBytesByChars_def)
  next
    case False
    obtain b c where bc: "lowerBase36NextDecodeBlock (length src) = (b, c)" by (metis surj_pair)
    then obtain v rest where r: "readBase36Block (take c src) = Inr v" "decodeBlocks (drop c src) = Inr rest"
        and out: "out = unpackBytes b v @ rest"
      using "1.prems" False by (auto simp: decodeBlocks.simps [of src] split: sum.splits)
    note IH = "1.IH" [OF False bc [symmetric] r(1,2)]
    show ?thesis
    proof (cases "11 \<le> length src")
      case True
      then have "length src div 11 = Suc ((length src - 11) div 11)" "length src mod 11 = (length src - 11) mod 11"
        by (simp_all add: le_div_geq le_mod_geq)
      then show ?thesis using bc out IH True by (auto simp: lowerBase36NextDecodeBlock_def)
    next
      case less: False
      then show ?thesis
        using bc out r(2) by (auto simp: lowerBase36NextDecodeBlock_def decodeBlocks.simps [of "[]"])
    qed
  qed
qed

lemma Decode_length:
  assumes "Decode src = Inr out"
  shows "decodedLenLowerBase36 (int (length src)) = Inr (int (length out))"
proof (cases "src = []")
  case True
  with assms show ?thesis by (simp add: Decode_def DecodeLowerBase36_def decodedLenLowerBase36_def)
next
  case False
  have lt: "length src mod 11 < 11" by simp
  have "length src div 11 * 11 + length src mod 11 = length src" by simp
  note d = decodedLen_blocks [OF lt, of "length src div 11", unfolded this]
  have b: "decodeBlocks src = Inr out" and n: "\<exists>n. decodedLenLowerBase36 (int (length src)) = Inr n"
    using assms False by (auto simp: Decode_def DecodeLowerBase36_def split: sum.splits)
  show ?thesis using n unfolding d decodeBlocks_length [OF b] by (auto split: if_splits)
qed

lemma Decode_lower:
  assumes "map asciiLower text' = encodeBlocks data"
  shows "Decode text' = Inr data"
proof -
  have b: "decodeBlocks text' = Inr data"
    using decodeBlocks_lower [of text'] decode_encodeBlocks [of data] by (simp add: assms)
  have "length text' = length (encodeBlocks data)" using assms by (metis length_map)
  then show ?thesis
    using b decodedLen_encodeBlocks [of data] encodeBlocks_eq_Nil [of data]
    by (auto simp: Decode_def DecodeLowerBase36_def)
qed

lemma writeBase36Block_numeral:
  "writeBase36Block val (numeral k) =
     writeBase36Block (val div 36) (pred_numeral k) @ [lowerBase36Alphabet ! unat (val mod 36)]"
  by (simp add: numeral_eq_Suc)

section \<open>Properties\<close>

text \<open>
  C23. Base 36 round trip, as the tunnel needs it: encoding any data never overruns its buffer (the panic
  would be \<open>None\<close>), yields exactly \<open>EncodedLen\<close> characters of the host-name alphabet 0-9a-z, and decoding any text that
  differs from the encoded one at most in the case of its letters (resolvers randomise case)
  restores the data and fills the decoder's buffer exactly.
\<close>

theorem base36_round_trip:
  "\<exists>t. Encode data = Some t \<and> int (length t) = EncodedLen (int (length data)) \<and> set t \<subseteq> set lowerBase36Alphabet \<and>
    (\<forall>text'. map asciiLower text' = t \<longrightarrow>
       Decode text' = Inr data \<and> decodedLenLowerBase36 (int (length text')) = Inr (int (length data)))"
proof -
  have nonneg: "0 \<le> EncodedLenLowerBase36 (int (length data))" by (simp add: EncodedLenLowerBase36_def)
  show ?thesis
  proof (intro exI conjI allI impI)
    show "Encode data = Some (encodeBlocks data)" by (rule Encode_eq)
    show "int (length (encodeBlocks data)) = EncodedLen (int (length data))"
      using EncodedLen_encodeBlocks [of data] nonneg by (simp add: EncodedLen_def)
    show "set (encodeBlocks data) \<subseteq> set lowerBase36Alphabet" by (rule set_encodeBlocks)
    fix text' assume "map asciiLower text' = encodeBlocks data"
    then show d: "Decode text' = Inr data" by (rule Decode_lower)
    show "decodedLenLowerBase36 (int (length text')) = Inr (int (length data))" by (rule Decode_length [OF d])
  qed
qed

theorem base36_round_trip_witness:
  "Encode [104, 105] = Some [48, 107, 109, 104] \<and> Decode [48, 75, 109, 72] = Inr [104, 105]"
proof -
  have e: "Encode [104, 105] = Some [48, 107, 109, 104]"
    by (simp add: Encode_eq encodeBlocks.simps packBytes_def lowerBase36EncodedCharsByBytes_def
        writeBase36Block_numeral lowerBase36Alphabet_def)
  have "map asciiLower [48, 75, 109, 72] = [48, 107, 109, 104]" by (simp add: asciiLower_def)
  with base36_round_trip [of "[104, 105]"] e show ?thesis by auto
qed

text \<open>
  C24. The unpadded base 64 of TXT answers is inverted by its decoder, and an encoding has
  exactly the length \<open>EncodedRawBase64Len\<close> announces, so \<open>EncodeRawBase64Into\<close> a buffer of that
  length writes all of it.
\<close>

theorem raw_base64_round_trip:
  "DecodeRawBase64 (EncodeRawBase64 data) = Inr data \<and>
   length (EncodeRawBase64 data) = EncodedRawBase64Len (length data) \<and>
   EncodeRawBase64Into (replicate (EncodedRawBase64Len (length data)) 0) data = Some (EncodeRawBase64 data)"
proof -
  have "encode64 data \<noteq> []" if "data \<noteq> []"
    using that by (cases data rule: encode64.cases) (simp_all add: Let_def)
  then show ?thesis
    using decode64_encode64 [of data]
    by (auto simp: DecodeRawBase64_def EncodeRawBase64_def EncodeRawBase64Into_def length_encode64
        EncodedRawBase64Len_def)
qed

end
