(* ===== verification/Dns_Parser.thy ===== *)
theory Dns_Parser
  imports Enums Base_Codec
begin

text \<open>
  DNS messages (\<open>internal/dnsparser/parser.go\<close> and the header checks and skip functions of
  \<open>response.go\<close>): headers, the name walk with compression pointers, questions, resource records, and
  the lite, strict and full parsers. The name walk is total with an explicit measure (at most ten
  jumps, at most 255 bytes of labels); skipping a name agrees with parsing it.
\<close>

section \<open>Data\<close>

datatype dnsError =
    ErrDnsPacketTooShort
  | ErrInvalidName
  | ErrInvalidQuestion
  | ErrInvalidAnswer
  | ErrNotDNSMessage
  | ErrNotDNSRequest

abbreviation (input) dnsHeaderSize :: nat where "dnsHeaderSize \<equiv> 12"
abbreviation (input) maxNameJumps :: nat where "maxNameJumps \<equiv> 10"
abbreviation (input) maxNameWireLength :: nat where "maxNameWireLength \<equiv> 255"

record dnsHeader =
  hID :: u16
  hFlags :: u16
  hQR :: u8
  hOpCode :: u8
  hAA :: u8
  hTC :: u8
  hRD :: u8
  hRA :: u8
  hZ :: u8
  hRCode :: u8
  QDCount :: u16
  ANCount :: u16
  NSCount :: u16
  ARCount :: u16

record dnsQuestion =
  qName :: gostring
  qType :: u16
  qClass :: u16

record resourceRecord =
  rrName :: gostring
  rrType :: u16
  rrClass :: u16
  rrTTL :: u32
  rrRDLen :: u16
  rrRData :: bytes

record dnsPacket =
  dHeader :: dnsHeader
  dQuestions :: "dnsQuestion list"
  dAnswers :: "resourceRecord list"
  dAuthorities :: "resourceRecord list"
  dAdditional :: "resourceRecord list"

record litePacket =
  lHeader :: dnsHeader
  lQuestions :: "dnsQuestion list"
  lFirstQuestion :: dnsQuestion
  lHasQuestion :: bool
  lQuestionEndOffset :: nat

definition parseHeader :: "bytes \<Rightarrow> dnsHeader" where
  "parseHeader data =
     (let flags = rd16 data 2
      in \<lparr>hID = rd16 data 0, hFlags = flags,
          hQR = ucast (drop_bit 15 flags AND 0x1), hOpCode = ucast (drop_bit 11 flags AND 0xF),
          hAA = ucast (drop_bit 10 flags AND 0x1), hTC = ucast (drop_bit 9 flags AND 0x1),
          hRD = ucast (drop_bit 8 flags AND 0x1), hRA = ucast (drop_bit 7 flags AND 0x1),
          hZ = ucast (drop_bit 4 flags AND 0x7), hRCode = ucast (flags AND 0xF),
          QDCount = rd16 data 4, ANCount = rd16 data 6, NSCount = rd16 data 8,
          ARCount = rd16 data 10\<rparr>)"

section \<open>Names\<close>

definition isUpperASCII :: "u8 \<Rightarrow> bool" where
  "isUpperASCII ch \<longleftrightarrow> 65 \<le> ch \<and> ch \<le> 90"

definition writeLowerASCIILabel :: "gostring \<Rightarrow> bytes \<Rightarrow> gostring" where
  "writeLowerASCIILabel dst label =
     (let prefix = takeWhile (\<lambda>ch. \<not> isUpperASCII ch) label
      in if length prefix = length label then dst @ label
         else dst @ prefix @ map (\<lambda>ch. if isUpperASCII ch then ch + 32 else ch) (drop (length prefix) label))"

text \<open>
  The loop of \<open>walkName\<close>; \<open>name\<close> is \<open>None\<close> for a nil builder. A jump uses up one of ten, a label at
  least two of 255 bytes.
\<close>

function walkLoop ::
  "bytes \<Rightarrow> nat \<Rightarrow> bool \<Rightarrow> nat \<Rightarrow> nat \<Rightarrow> bool \<Rightarrow> nat \<Rightarrow> gostring option \<Rightarrow> dnsError + nat \<times> bool \<times> gostring option" where
  "walkLoop data offset jumped jumps nextOffset hasLabel wireLen name =
     (if length data \<le> offset then Inl ErrInvalidName
      else
        let len = unat (data ! offset) in
        if len = 0 then Inr (if jumped then nextOffset else offset + 1, hasLabel, name)
        else if 192 \<le> len then
          (if length data \<le> offset + 1 \<or> maxNameJumps \<le> jumps then Inl ErrInvalidName
           else
             let ptr = unat (rd16 data offset AND 0x3FFF) in
             if ptr < dnsHeaderSize \<or> offset \<le> ptr \<or> length data \<le> ptr then Inl ErrInvalidName
             else walkLoop data ptr True (jumps + 1) (if jumped then nextOffset else offset + 2) hasLabel wireLen name)
        else if 63 < len then Inl ErrInvalidName
        else if maxNameWireLength < wireLen + len + 1 then Inl ErrInvalidName
        else
          let start = offset + 1; stop = start + len in
          if length data < stop then Inl ErrInvalidName
          else
            walkLoop data stop jumped jumps (if jumped then nextOffset else stop) True (wireLen + len + 1)
              (case name of None \<Rightarrow> None
               | Some b \<Rightarrow> Some (writeLowerASCIILabel (if hasLabel then b @ [46] else b) (slice data start stop))))"
  by pat_completeness auto
termination
  by (relation "measure (\<lambda>(data, offset, jumped, jumps, nextOffset, hasLabel, wireLen, name).
        (10 - jumps) + (255 - wireLen))") auto

declare walkLoop.simps [simp del]

definition walkName :: "bytes \<Rightarrow> nat \<Rightarrow> gostring option \<Rightarrow> dnsError + nat \<times> bool \<times> gostring option" where
  "walkName data offset name =
     (if length data \<le> offset then Inl ErrInvalidName
      else walkLoop data offset False 0 offset False 1 name)"

definition parseName :: "bytes \<Rightarrow> nat \<Rightarrow> dnsError + gostring \<times> nat" where
  "parseName data offset =
     (case walkName data offset (Some []) of
        Inl err \<Rightarrow> Inl err
      | Inr (nextOffset, hasLabel, name) \<Rightarrow>
          if \<not> hasLabel then Inr ([46], nextOffset)
          else Inr (case name of None \<Rightarrow> [] | Some b \<Rightarrow> b, nextOffset))"

definition skipName :: "bytes \<Rightarrow> nat \<Rightarrow> dnsError + nat" where
  "skipName data offset =
     (case walkName data offset None of Inl err \<Rightarrow> Inl err | Inr (nextOffset, _, _) \<Rightarrow> Inr nextOffset)"

section \<open>Sections\<close>

text \<open>Skipping returns the offset it reached and the error, as the callers use both.\<close>

fun skipQuestions :: "bytes \<Rightarrow> nat \<Rightarrow> nat \<Rightarrow> nat \<times> dnsError option" where
  "skipQuestions data offset 0 = (offset, None)"
| "skipQuestions data offset (Suc count) =
     (case skipName data offset of
        Inl _ \<Rightarrow> (offset, Some ErrInvalidQuestion)
      | Inr nextOffset \<Rightarrow>
          if length data < nextOffset + 4 then (offset, Some ErrInvalidQuestion)
          else skipQuestions data (nextOffset + 4) count)"

fun skipResourceRecords :: "bytes \<Rightarrow> nat \<Rightarrow> nat \<Rightarrow> nat \<times> dnsError option" where
  "skipResourceRecords data offset 0 = (offset, None)"
| "skipResourceRecords data offset (Suc count) =
     (case skipName data offset of
        Inl _ \<Rightarrow> (offset, Some ErrInvalidAnswer)
      | Inr nextOffset \<Rightarrow>
          if length data < nextOffset + 10 then (offset, Some ErrInvalidAnswer)
          else
            let recordEnd = nextOffset + 10 + unat (rd16 data (nextOffset + 8)) in
            if length data < recordEnd then (offset, Some ErrInvalidAnswer)
            else skipResourceRecords data recordEnd count)"

fun parseQuestions :: "bytes \<Rightarrow> nat \<Rightarrow> nat \<Rightarrow> dnsError + dnsQuestion list \<times> nat" where
  "parseQuestions data offset 0 = Inr ([], offset)"
| "parseQuestions data offset (Suc count) =
     (case parseName data offset of
        Inl _ \<Rightarrow> Inl ErrInvalidQuestion
      | Inr (name, nextOffset) \<Rightarrow>
          if length data < nextOffset + 4 then Inl ErrInvalidQuestion
          else
            (case parseQuestions data (nextOffset + 4) count of
               Inl err \<Rightarrow> Inl err
             | Inr (qs, stop) \<Rightarrow>
                 Inr (\<lparr>qName = name, qType = rd16 data nextOffset, qClass = rd16 data (nextOffset + 2)\<rparr> # qs, stop)))"

fun parseResourceRecords :: "bytes \<Rightarrow> nat \<Rightarrow> nat \<Rightarrow> dnsError + resourceRecord list \<times> nat" where
  "parseResourceRecords data offset 0 = Inr ([], offset)"
| "parseResourceRecords data offset (Suc count) =
     (case parseName data offset of
        Inl _ \<Rightarrow> Inl ErrInvalidAnswer
      | Inr (name, nextOffset) \<Rightarrow>
          if length data < nextOffset + 10 then Inl ErrInvalidAnswer
          else
            let rdLen = rd16 data (nextOffset + 8);
                start = nextOffset + 10; stop = start + unat rdLen in
            if length data < stop then Inl ErrInvalidAnswer
            else
              (case parseResourceRecords data stop count of
                 Inl err \<Rightarrow> Inl err
               | Inr (rs, finish) \<Rightarrow>
                   Inr (\<lparr>rrName = name, rrType = rd16 data nextOffset, rrClass = rd16 data (nextOffset + 2),
                         rrTTL = rd32 data (nextOffset + 4), rrRDLen = rdLen,
                         rrRData = slice data start stop\<rparr> # rs, finish)))"

section \<open>Header plausibility (\<open>response.go\<close>)\<close>

abbreviation (input) maxLikelyQuestions :: u16 where "maxLikelyQuestions \<equiv> 64"
abbreviation (input) maxLikelyAnswers :: u16 where "maxLikelyAnswers \<equiv> 256"
abbreviation (input) maxLikelyAuthority :: u16 where "maxLikelyAuthority \<equiv> 256"
abbreviation (input) maxLikelyAdditional :: u16 where "maxLikelyAdditional \<equiv> 256"

definition isLikelyDNSMessageHeader :: "dnsHeader \<Rightarrow> bool" where
  "isLikelyDNSMessageHeader header =
     (if hQR header = 0 \<and> QDCount header = 0 \<or> maxLikelyQuestions < QDCount header then False
      else if 6 < hOpCode header then False
      else if hFlags header AND 0x0040 \<noteq> 0 then False
      else if maxLikelyAnswers < ANCount header then False
      else if maxLikelyAuthority < NSCount header then False
      else if maxLikelyAdditional < ARCount header then False
      else True)"

definition isLikelyDNSRequestHeader :: "dnsHeader \<Rightarrow> bool" where
  "isLikelyDNSRequestHeader header =
     (if hQR header \<noteq> 0 \<or> QDCount header = 0 then False else isLikelyDNSMessageHeader header)"

section \<open>Parsers\<close>

definition emptyQuestion :: dnsQuestion where
  "emptyQuestion = \<lparr>qName = [], qType = 0, qClass = 0\<rparr>"

definition parsePacketLiteWithHeader :: "bytes \<Rightarrow> dnsHeader \<Rightarrow> dnsError + litePacket" where
  "parsePacketLiteWithHeader data header =
     (if QDCount header = 0 then
        Inr \<lparr>lHeader = header, lQuestions = [], lFirstQuestion = emptyQuestion, lHasQuestion = False,
             lQuestionEndOffset = dnsHeaderSize\<rparr>
      else
        case parseQuestions data dnsHeaderSize (unat (QDCount header)) of
          Inl _ \<Rightarrow> Inl ErrInvalidQuestion
        | Inr (questions, offset) \<Rightarrow>
            Inr \<lparr>lHeader = header, lQuestions = questions,
                 lFirstQuestion = (case questions of [] \<Rightarrow> emptyQuestion | q # _ \<Rightarrow> q),
                 lHasQuestion = (questions \<noteq> []), lQuestionEndOffset = offset\<rparr>)"

definition ParsePacketLite :: "bytes \<Rightarrow> dnsError + litePacket" where
  "ParsePacketLite data =
     (if length data < dnsHeaderSize then Inl ErrDnsPacketTooShort
      else parsePacketLiteWithHeader data (parseHeader data))"

definition ParseDNSRequestLite :: "bytes \<Rightarrow> dnsError + litePacket" where
  "ParseDNSRequestLite data =
     (if length data < dnsHeaderSize then Inl ErrDnsPacketTooShort
      else
        let header = parseHeader data in
        if \<not> isLikelyDNSRequestHeader header then Inl ErrNotDNSRequest
        else parsePacketLiteWithHeader data header)"

definition ParseDNSDatagramLite :: "bytes \<Rightarrow> dnsError + litePacket" where
  "ParseDNSDatagramLite data =
     (if length data < dnsHeaderSize then Inl ErrDnsPacketTooShort
      else
        let header = parseHeader data in
        if \<not> isLikelyDNSMessageHeader header then Inl ErrNotDNSMessage
        else
          case skipQuestions data dnsHeaderSize (unat (QDCount header)) of
            (_, Some err) \<Rightarrow> Inl err
          | (offset, None) \<Rightarrow>
              (case skipResourceRecords data offset (unat (ANCount header)) of
                 (_, Some err) \<Rightarrow> Inl err
               | (offset, None) \<Rightarrow>
                   (case skipResourceRecords data offset (unat (NSCount header)) of
                      (_, Some err) \<Rightarrow> Inl err
                    | (offset, None) \<Rightarrow>
                        (case skipResourceRecords data offset (unat (ARCount header)) of
                           (_, Some err) \<Rightarrow> Inl err
                         | (offset, None) \<Rightarrow>
                             if offset \<noteq> length data then Inl ErrNotDNSMessage
                             else parsePacketLiteWithHeader data header))))"

definition ParsePacket :: "bytes \<Rightarrow> dnsError + dnsPacket" where
  "ParsePacket data =
     (if length data < dnsHeaderSize then Inl ErrDnsPacketTooShort
      else
        let header = parseHeader data in
        case parseQuestions data dnsHeaderSize (unat (QDCount header)) of
          Inl err \<Rightarrow> Inl err
        | Inr (questions, offset) \<Rightarrow>
            (case parseResourceRecords data offset (unat (ANCount header)) of
               Inl err \<Rightarrow> Inl err
             | Inr (answers, offset) \<Rightarrow>
                 (case parseResourceRecords data offset (unat (NSCount header)) of
                    Inl err \<Rightarrow> Inl err
                  | Inr (authorities, offset) \<Rightarrow>
                      (case parseResourceRecords data offset (unat (ARCount header)) of
                         Inl err \<Rightarrow> Inl err
                       | Inr (additional, _) \<Rightarrow>
                           Inr \<lparr>dHeader = header, dQuestions = questions, dAnswers = answers,
                                dAuthorities = authorities, dAdditional = additional\<rparr>))))"

section \<open>Supported query types (\<open>policy.go\<close>)\<close>

definition IsSupportedTunnelDNSQuery :: "u16 \<Rightarrow> u16 \<Rightarrow> bool" where
  "IsSupportedTunnelDNSQuery qt qc =
     (if qc \<noteq> DNSQ_CLASS_IN then False
      else qt \<in> set [DNS_RECORD_TYPE_A, DNS_RECORD_TYPE_AAAA, DNS_RECORD_TYPE_CNAME, DNS_RECORD_TYPE_MX,
        DNS_RECORD_TYPE_NS, DNS_RECORD_TYPE_PTR, DNS_RECORD_TYPE_SRV, DNS_RECORD_TYPE_SVCB,
        DNS_RECORD_TYPE_CAA, DNS_RECORD_TYPE_NAPTR, DNS_RECORD_TYPE_SOA, DNS_RECORD_TYPE_HTTPS,
        DNS_RECORD_TYPE_TLSA])"

section \<open>The name walk\<close>

lemma writeLowerASCIILabel_eq: "writeLowerASCIILabel dst label = dst @ map asciiLower label"
proof -
  let ?p = "takeWhile (\<lambda>ch. \<not> isUpperASCII ch) label"
  have low: "(\<lambda>ch. if isUpperASCII ch then ch + 32 else ch) = asciiLower"
    by (simp add: fun_eq_iff isUpperASCII_def asciiLower_def)
  have pre: "map asciiLower ?p = ?p"
    by (intro map_idI) (auto simp: asciiLower_def isUpperASCII_def dest: set_takeWhileD)
  have split: "label = ?p @ drop (length ?p) label"
    by (metis append_take_drop_id takeWhile_eq_take)
  have "map asciiLower label = ?p @ map asciiLower (drop (length ?p) label)"
    using pre split by (metis map_append)
  then show ?thesis
    using split by (auto simp: writeLowerASCIILabel_def Let_def low pre)
qed

text \<open>The successful walks, as the steps they take: the final zero byte, a pointer, or a label.\<close>

definition labelStep :: "bytes \<Rightarrow> nat \<Rightarrow> bool \<Rightarrow> gostring option \<Rightarrow> gostring option" where
  "labelStep data offset hasLabel name =
     (case name of None \<Rightarrow> None
      | Some b \<Rightarrow> Some (writeLowerASCIILabel (if hasLabel then b @ [46] else b)
          (slice data (offset + 1) (offset + 1 + unat (data ! offset)))))"

inductive walks :: "bytes \<Rightarrow> nat \<Rightarrow> bool \<Rightarrow> nat \<Rightarrow> nat \<Rightarrow> bool \<Rightarrow> nat \<Rightarrow> gostring option \<Rightarrow>
    nat \<times> bool \<times> gostring option \<Rightarrow> bool"
  for data where
  zero: "offset < length data \<Longrightarrow> data ! offset = 0 \<Longrightarrow>
    walks data offset jumped jumps nextOffset hasLabel wireLen name
      (if jumped then nextOffset else offset + 1, hasLabel, name)"
| pointer: "offset + 1 < length data \<Longrightarrow> 192 \<le> unat (data ! offset) \<Longrightarrow> jumps < maxNameJumps \<Longrightarrow>
    dnsHeaderSize \<le> unat (rd16 data offset AND 0x3FFF) \<Longrightarrow> unat (rd16 data offset AND 0x3FFF) < offset \<Longrightarrow>
    walks data (unat (rd16 data offset AND 0x3FFF)) True (jumps + 1)
      (if jumped then nextOffset else offset + 2) hasLabel wireLen name r \<Longrightarrow>
    walks data offset jumped jumps nextOffset hasLabel wireLen name r"
| label: "offset < length data \<Longrightarrow> 0 < unat (data ! offset) \<Longrightarrow> unat (data ! offset) \<le> 63 \<Longrightarrow>
    wireLen + unat (data ! offset) + 1 \<le> maxNameWireLength \<Longrightarrow>
    offset + 1 + unat (data ! offset) \<le> length data \<Longrightarrow>
    walks data (offset + 1 + unat (data ! offset)) jumped jumps
      (if jumped then nextOffset else offset + 1 + unat (data ! offset)) True
      (wireLen + unat (data ! offset) + 1) (labelStep data offset hasLabel name) r \<Longrightarrow>
    walks data offset jumped jumps nextOffset hasLabel wireLen name r"

lemma walkLoop_cases:
  obtains (zero) "offset < length data" "data ! offset = 0"
      "\<And>jumped jumps nextOffset hasLabel wireLen name.
        walkLoop data offset jumped jumps nextOffset hasLabel wireLen name =
          Inr (if jumped then nextOffset else offset + 1, hasLabel, name)"
  | (pointer) "offset + 1 < length data" "192 \<le> unat (data ! offset)" "jumps < maxNameJumps"
      "dnsHeaderSize \<le> unat (rd16 data offset AND 0x3FFF)" "unat (rd16 data offset AND 0x3FFF) < offset"
      "\<And>jumped nextOffset hasLabel wireLen name.
        walkLoop data offset jumped jumps nextOffset hasLabel wireLen name =
          walkLoop data (unat (rd16 data offset AND 0x3FFF)) True (jumps + 1)
            (if jumped then nextOffset else offset + 2) hasLabel wireLen name"
  | (label) "offset < length data" "0 < unat (data ! offset)" "unat (data ! offset) \<le> 63"
      "wireLen + unat (data ! offset) + 1 \<le> maxNameWireLength" "offset + 1 + unat (data ! offset) \<le> length data"
      "\<And>jumped jumps nextOffset hasLabel name.
        walkLoop data offset jumped jumps nextOffset hasLabel wireLen name =
          walkLoop data (offset + 1 + unat (data ! offset)) jumped jumps
            (if jumped then nextOffset else offset + 1 + unat (data ! offset)) True
            (wireLen + unat (data ! offset) + 1) (labelStep data offset hasLabel name)"
  | (fail) "\<And>jumped nextOffset hasLabel name.
        walkLoop data offset jumped jumps nextOffset hasLabel wireLen name = Inl ErrInvalidName"
proof -
  consider "length data \<le> offset"
    | "offset < length data" "unat (data ! offset) = 0"
    | "offset < length data" "192 \<le> unat (data ! offset)" "length data \<le> offset + 1 \<or> 10 \<le> jumps \<or>
        unat (rd16 data offset AND 0x3FFF) < 12 \<or> offset \<le> unat (rd16 data offset AND 0x3FFF)"
    | "offset + 1 < length data" "192 \<le> unat (data ! offset)" "jumps < 10"
        "12 \<le> unat (rd16 data offset AND 0x3FFF)" "unat (rd16 data offset AND 0x3FFF) < offset"
    | "offset < length data" "0 < unat (data ! offset)" "unat (data ! offset) < 192"
        "63 < unat (data ! offset) \<or> 255 < wireLen + unat (data ! offset) + 1 \<or>
         length data < offset + 1 + unat (data ! offset)"
    | "offset < length data" "0 < unat (data ! offset)" "unat (data ! offset) \<le> 63"
        "wireLen + unat (data ! offset) + 1 \<le> 255" "offset + 1 + unat (data ! offset) \<le> length data"
    by linarith
  then show thesis
  proof cases
    case 1
    show thesis by (rule fail) (subst walkLoop.simps, use 1 in simp)
  next
    case 2
    then have "data ! offset = 0" by (simp add: unat_eq_0)
    then show thesis using 2 by (intro zero) (assumption+, subst walkLoop.simps, simp add: Let_def)
  next
    case 3
    show thesis by (rule fail) (subst walkLoop.simps, use 3 in \<open>auto simp: Let_def\<close>)
  next
    case 4
    show thesis by (rule pointer [OF 4]) (subst walkLoop.simps, use 4 in \<open>simp add: Let_def\<close>)
  next
    case 5
    show thesis by (rule fail) (subst walkLoop.simps, use 5 in \<open>auto simp: Let_def\<close>)
  next
    case 6
    show thesis by (rule label [OF 6]) (subst walkLoop.simps, use 6 in \<open>simp add: Let_def labelStep_def cong: option.case_cong\<close>)
  qed
qed

lemma walkLoop_walks:
  "walkLoop data offset jumped jumps nextOffset hasLabel wireLen name = Inr r \<longleftrightarrow>
   walks data offset jumped jumps nextOffset hasLabel wireLen name r"
proof
  show "walkLoop data offset jumped jumps nextOffset hasLabel wireLen name = Inr r \<Longrightarrow>
      walks data offset jumped jumps nextOffset hasLabel wireLen name r"
  proof (induction "(10 - jumps) + (255 - wireLen)"
      arbitrary: offset jumped jumps nextOffset hasLabel wireLen name rule: less_induct)
    case less
    show ?case
    proof (cases rule: walkLoop_cases [where offset = offset and data = data and jumps = jumps and wireLen = wireLen])
      case zero
      then show ?thesis using less.prems walks.zero [OF zero(1,2)] by auto
    next
      case pointer
      have "walkLoop data (unat (rd16 data offset AND 0x3FFF)) True (jumps + 1)
          (if jumped then nextOffset else offset + 2) hasLabel wireLen name = Inr r"
        using less.prems pointer(6) by simp
      then have "walks data (unat (rd16 data offset AND 0x3FFF)) True (jumps + 1)
          (if jumped then nextOffset else offset + 2) hasLabel wireLen name r"
        using pointer(3) by (intro less.hyps) auto
      then show ?thesis by (rule walks.pointer [OF pointer(1-5)])
    next
      case label
      have "walkLoop data (offset + 1 + unat (data ! offset)) jumped jumps
            (if jumped then nextOffset else offset + 1 + unat (data ! offset)) True
            (wireLen + unat (data ! offset) + 1) (labelStep data offset hasLabel name) = Inr r"
        using less.prems label(6) by simp
      then have "walks data (offset + 1 + unat (data ! offset)) jumped jumps
            (if jumped then nextOffset else offset + 1 + unat (data ! offset)) True
            (wireLen + unat (data ! offset) + 1) (labelStep data offset hasLabel name) r"
        using label(2,4) by (intro less.hyps) auto
      then show ?thesis by (rule walks.label [OF label(1-5)])
    next
      case fail
      then show ?thesis using less.prems by simp
    qed
  qed
  show "walks data offset jumped jumps nextOffset hasLabel wireLen name r \<Longrightarrow>
      walkLoop data offset jumped jumps nextOffset hasLabel wireLen name = Inr r"
  proof (induction rule: walks.induct)
    case (zero offset jumped jumps nextOffset hasLabel wireLen name)
    then show ?case by (simp add: walkLoop.simps [of data offset])
  next
    case (pointer offset jumps jumped nextOffset hasLabel wireLen name r)
    then show ?case by (simp add: walkLoop.simps [of data offset] Let_def)
  next
    case (label offset wireLen jumped jumps nextOffset hasLabel name r)
    then show ?case
      by (cases jumped) (subst walkLoop.simps, simp add: Let_def labelStep_def cong: option.case_cong)+
  qed
qed

lemma walkLoop_Inl: "walkLoop data offset jumped jumps nextOffset hasLabel wireLen name = Inl e \<Longrightarrow> e = ErrInvalidName"
proof (induction "(10 - jumps) + (255 - wireLen)"
    arbitrary: offset jumped jumps nextOffset hasLabel wireLen name rule: less_induct)
  case less
  show ?case
  proof (cases rule: walkLoop_cases [where offset = offset and data = data and jumps = jumps and wireLen = wireLen])
    case pointer
    with less.prems show ?thesis by (intro less.hyps [OF _ less.prems [unfolded pointer(6)]]) simp
  next
    case label
    with less.prems show ?thesis by (intro less.hyps [OF _ less.prems [unfolded label(6)]]) simp
  qed (use less.prems in auto)
qed

text \<open>The walk without a builder reports the same offset and error.\<close>

lemma labelStep_None [simp]: "labelStep data offset hasLabel None = None"
  by (simp add: labelStep_def)

lemma labelStep_Some: "labelStep data offset hasLabel (Some b) \<noteq> None"
  by (simp add: labelStep_def)

lemma walks_skip:
  "walks data offset jumped jumps nextOffset hasLabel wireLen name r \<Longrightarrow>
   walks data offset jumped jumps nextOffset hasLabel wireLen None (fst r, fst (snd r), None)"
proof (induction rule: walks.induct)
  case (zero offset jumped jumps nextOffset hasLabel wireLen name)
  then show ?case using walks.zero [of offset data jumped jumps nextOffset hasLabel wireLen None] by simp
qed (auto intro: walks.intros)

lemma walks_build:
  "walks data offset jumped jumps nextOffset hasLabel wireLen None r \<Longrightarrow>
   \<exists>b'. walks data offset jumped jumps nextOffset hasLabel wireLen (Some b) (fst r, fst (snd r), Some b')"
proof (induction offset jumped jumps nextOffset hasLabel wireLen "None :: gostring option" r
    arbitrary: b rule: walks.induct)
  case (zero offset jumped jumps nextOffset hasLabel wireLen)
  then show ?case using walks.zero [of offset data jumped jumps nextOffset hasLabel wireLen "Some b"] by auto
next
  case (pointer offset jumps jumped nextOffset hasLabel wireLen r)
  then show ?case by (meson walks.pointer)
next
  case (label offset wireLen jumped jumps nextOffset hasLabel r)
  obtain b1 where "labelStep data offset hasLabel (Some b) = Some b1"
    using labelStep_Some by blast
  with label show ?case by (metis walks.label labelStep_None)
qed

lemma skipName_parseName: "skipName data offset = map_sum id snd (parseName data offset)"
proof (cases "offset < length data")
  case False
  then show ?thesis by (simp add: skipName_def parseName_def walkName_def)
next
  case True
  let ?w = "\<lambda>name. walkLoop data offset False 0 offset False 1 name"
  show ?thesis
  proof (cases "?w (Some [])")
    case (Inl e)
    then have "e = ErrInvalidName" by (rule walkLoop_Inl)
    moreover have "?w None = Inl ErrInvalidName"
      using walks_build [of data offset False 0 offset False 1 _ "[]"] Inl walkLoop_Inl [of data offset False 0 offset False 1 None]
      by (cases "?w None") (auto simp: walkLoop_walks simp flip: walkLoop_walks)
    ultimately show ?thesis using Inl True by (simp add: skipName_def parseName_def walkName_def)
  next
    case (Inr r)
    obtain n h b where r: "r = (n, h, b)" by (metis prod_cases3)
    then have "?w None = Inr (n, h, None)"
      using walks_skip [of data offset False 0 offset False 1 "Some []" r] Inr by (simp add: walkLoop_walks)
    then show ?thesis using Inr True r by (simp add: skipName_def parseName_def walkName_def)
  qed
qed

lemma walks_bounds:
  "walks data offset jumped jumps nextOffset hasLabel wireLen name r \<Longrightarrow>
   (jumped \<longrightarrow> start < nextOffset \<and> nextOffset \<le> length data) \<Longrightarrow> (\<not> jumped \<longrightarrow> start \<le> offset) \<Longrightarrow>
   start < fst r \<and> fst r \<le> length data"
  by (induction rule: walks.induct) auto

lemma parseName_bounds:
  assumes "parseName data offset = Inr (name, n)"
  shows "offset < n \<and> n \<le> length data"
proof -
  obtain h b where "walkLoop data offset False 0 offset False 1 (Some []) = Inr (n, h, b)"
    using assms by (auto simp: parseName_def walkName_def split: if_splits sum.splits prod.splits)
  then show ?thesis
    using walks_bounds [of data offset False 0 offset False 1 "Some []" "(n, h, b)" offset]
    by (simp add: walkLoop_walks)
qed

text \<open>A parsed name has at most 253 characters, as the wire bound of 255 bytes promises.\<close>

lemma walks_name_length:
  "walks data offset jumped jumps nextOffset hasLabel wireLen name r \<Longrightarrow> name = Some b \<Longrightarrow>
   (if hasLabel then length b + 2 = wireLen \<and> wireLen \<le> 255 else b = [] \<and> wireLen = 1) \<Longrightarrow>
   \<exists>b'. snd (snd r) = Some b' \<and> (fst (snd r) \<longrightarrow> length b' + 2 \<le> 255) \<and> (\<not> fst (snd r) \<longrightarrow> b' = [])"
proof (induction arbitrary: b rule: walks.induct)
  case (zero offset jumped jumps nextOffset hasLabel wireLen name)
  then show ?case by auto
next
  case (pointer offset jumps jumped nextOffset hasLabel wireLen name r)
  then show ?case by blast
next
  case (label offset wireLen jumped jumps nextOffset hasLabel name r)
  let ?b = "writeLowerASCIILabel (if hasLabel then b @ [46] else b)
    (slice data (offset + 1) (offset + 1 + unat (data ! offset)))"
  have step: "labelStep data offset hasLabel name = Some ?b" using label.prems by (simp add: labelStep_def)
  have "length ?b + 2 = wireLen + unat (data ! offset) + 1"
    using label.prems label.hyps by (simp add: writeLowerASCIILabel_eq split: if_splits)
  then show ?case using label.IH [OF step] label.hyps(4) by simp
qed

lemma walks_name_nonempty:
  "walks data offset jumped jumps nextOffset hasLabel wireLen name r \<Longrightarrow>
   (hasLabel \<longrightarrow> name \<noteq> Some []) \<Longrightarrow> fst (snd r) \<longrightarrow> snd (snd r) \<noteq> Some []"
proof (induction rule: walks.induct)
  case (label offset wireLen jumped jumps nextOffset hasLabel name r)
  have "slice data (offset + 1) (offset + 1 + unat (data ! offset)) \<noteq> []"
    using label.hyps by (simp add: slice_def)
  then have "labelStep data offset hasLabel name \<noteq> Some []"
    by (auto simp: labelStep_def writeLowerASCIILabel_eq split: option.splits)
  then show ?case using label.IH by blast
qed auto

lemma parseName_length:
  assumes "parseName data offset = Inr (name, n)"
  shows "0 < length name \<and> length name \<le> 253"
proof -
  obtain h b where w: "walkLoop data offset False 0 offset False 1 (Some []) = Inr (n, h, b)"
      and name: "name = (if h then (case b of None \<Rightarrow> [] | Some b \<Rightarrow> b) else [46])"
    using assms by (auto simp: parseName_def walkName_def split: if_splits sum.splits prod.splits)
  then show ?thesis
    using walks_name_length [of data offset False 0 offset False 1 "Some []" "(n, h, b)" "[]"]
      walks_name_nonempty [of data offset False 0 offset False 1 "Some []" "(n, h, b)"]
    by (auto simp: walkLoop_walks)
qed

section \<open>Skipping agrees with parsing\<close>

lemma skipQuestions_parse:
  "parseQuestions data offset count = Inr (qs, stop) \<Longrightarrow> skipQuestions data offset count = (stop, None)"
  "parseQuestions data offset count = Inl e \<Longrightarrow> e = ErrInvalidQuestion \<and> snd (skipQuestions data offset count) = Some e"
proof (induction data offset count arbitrary: qs e rule: parseQuestions.induct)
  case (2 data offset count)
  {
    case 1
    then show ?case
      using "2.IH" by (auto simp: skipName_parseName split: sum.splits prod.splits if_splits)
  next
    case 2
    then show ?case
      using "2.IH" by (auto simp: skipName_parseName split: sum.splits prod.splits if_splits)
  }
qed auto

lemma parseQuestions_length: "parseQuestions data offset count = Inr (qs, stop) \<Longrightarrow> length qs = count"
  by (induction data offset count arbitrary: qs rule: parseQuestions.induct)
    (auto split: sum.splits prod.splits if_splits)

lemma skipResourceRecords_parse:
  "parseResourceRecords data offset count = Inr (rs, stop) \<Longrightarrow> skipResourceRecords data offset count = (stop, None)"
  "parseResourceRecords data offset count = Inl e \<Longrightarrow>
    e = ErrInvalidAnswer \<and> snd (skipResourceRecords data offset count) = Some e"
proof (induction data offset count arbitrary: rs e rule: parseResourceRecords.induct)
  case (2 data offset count)
  {
    case 1
    then show ?case
      using "2.IH" by (auto simp: skipName_parseName Let_def split: sum.splits prod.splits if_splits)
  next
    case 2
    then show ?case
      using "2.IH" by (auto simp: skipName_parseName Let_def split: sum.splits prod.splits if_splits)
  }
qed auto

lemma skipQuestions_None:
  "skipQuestions data offset count = (stop, None) \<Longrightarrow> \<exists>qs. parseQuestions data offset count = Inr (qs, stop)"
  by (cases "parseQuestions data offset count") (auto dest: skipQuestions_parse)

lemma skipResourceRecords_None:
  "skipResourceRecords data offset count = (stop, None) \<Longrightarrow>
   \<exists>rs. parseResourceRecords data offset count = Inr (rs, stop)"
  by (cases "parseResourceRecords data offset count") (auto dest: skipResourceRecords_parse)

lemma parseQuestions_bounds:
  "parseQuestions data offset count = Inr (qs, stop) \<Longrightarrow> offset \<le> length data \<Longrightarrow>
   offset \<le> stop \<and> stop \<le> length data"
  by (induction data offset count arbitrary: qs rule: parseQuestions.induct)
    (fastforce dest: parseName_bounds split: sum.splits prod.splits if_splits)+

lemma parseResourceRecords_bounds:
  "parseResourceRecords data offset count = Inr (rs, stop) \<Longrightarrow> offset \<le> length data \<Longrightarrow>
   offset \<le> stop \<and> stop \<le> length data \<and> length rs = count"
  by (induction data offset count arbitrary: rs rule: parseResourceRecords.induct)
    (fastforce simp: Let_def dest: parseName_bounds split: sum.splits prod.splits if_splits)+

section \<open>Plain names\<close>

text \<open>A name written label by label, without compression pointers.\<close>

definition wireLabels :: "bytes list \<Rightarrow> bytes" where
  "wireLabels ls = concat (map (\<lambda>l. of_nat (length l) # l) ls)"

definition wireName :: "bytes list \<Rightarrow> bytes" where
  "wireName ls = wireLabels ls @ [0]"

definition labelsOk :: "bytes list \<Rightarrow> bool" where
  "labelsOk ls \<longleftrightarrow> (\<forall>l \<in> set ls. 0 < length l \<and> length l \<le> 63) \<and> length (wireName ls) \<le> 255"

text \<open>\<open>strings.Join(ls, ".")\<close>.\<close>

fun dotJoin :: "bytes list \<Rightarrow> gostring" where
  "dotJoin [] = []"
| "dotJoin [l] = l"
| "dotJoin (l # ls) = l @ [46] @ dotJoin ls"

lemma wireLabels_simps [simp]:
  "wireLabels [] = []"
  "wireLabels (l # ls) = of_nat (length l) # l @ wireLabels ls"
  by (simp_all add: wireLabels_def)

lemma wireLabels_append [simp]: "wireLabels (ls @ ms) = wireLabels ls @ wireLabels ms"
  by (simp add: wireLabels_def)

lemma dotJoin_Cons: "dotJoin (l # ls) = l @ (if ls = [] then [] else 46 # dotJoin ls)"
  by (cases ls) simp_all

lemma length_dotJoin: "ls \<noteq> [] \<Longrightarrow> length (dotJoin ls) + 2 = length (wireName ls)"
  by (induction ls rule: dotJoin.induct) (simp_all add: wireName_def)

lemma asciiLower_dot [simp]: "asciiLower 46 = 46"
  by (simp add: asciiLower_def)

lemma walks_wireName:
  assumes "drop offset data = wireName ls @ rest" "\<forall>l \<in> set ls. 0 < length l \<and> length l \<le> 63"
    and "wireLen + length (wireLabels ls) \<le> 255"
  shows "walks data offset jumped jumps nextOffset hasLabel wireLen (Some b)
    (if jumped then nextOffset else offset + length (wireName ls), hasLabel \<or> ls \<noteq> [],
     Some (b @ (if ls = [] then [] else (if hasLabel then [46] else []) @ map asciiLower (dotJoin ls))))"
  using assms
proof (induction ls arbitrary: offset nextOffset hasLabel wireLen b)
  case Nil
  then have d: "drop offset data = 0 # rest" by (simp add: wireName_def)
  then have len: "offset < length data" by (metis drop_eq_Nil leI list.distinct(1))
  moreover have "data ! offset = 0" using d by (metis nth_via_drop)
  ultimately show ?case
    using walks.zero [of offset data jumped jumps nextOffset hasLabel wireLen "Some b"]
    by (cases jumped) (simp_all add: wireName_def)
next
  case (Cons l ls)
  let ?n = "length l"
  have n: "0 < ?n" "?n \<le> 63" using Cons.prems(2) by auto
  have d: "drop offset data = of_nat ?n # l @ wireName ls @ rest" using Cons.prems(1) by (simp add: wireName_def)
  have len: "offset < length data" using d by (metis drop_eq_Nil leI list.distinct(1))
  have hd: "data ! offset = of_nat ?n" using d by (metis nth_via_drop)
  have u: "unat (data ! offset) = ?n" using n by (simp only: hd) (simp add: unat_of_nat_u8)
  have d1: "drop (offset + 1) data = l @ wireName ls @ rest"
    using d by (metis Suc_eq_plus1 drop_Suc drop_tl list.sel(3) tl_drop)
  then have d2: "drop (offset + 1 + ?n) data = wireName ls @ rest"
    by (metis add.commute append_eq_conv_conj drop_drop)
  have bound: "offset + 1 + ?n \<le> length data"
    using arg_cong [OF d1, of length] len by simp
  have sl: "slice data (offset + 1) (offset + 1 + ?n) = l" using d1 by (simp add: slice_def)
  let ?b = "(if hasLabel then b @ [46] else b) @ map asciiLower l"
  have step: "labelStep data offset hasLabel (Some b) = Some ?b"
    by (simp add: labelStep_def u sl [simplified] writeLowerASCIILabel_eq)
  let ?r = "(if jumped then (if jumped then nextOffset else offset + 1 + ?n) else offset + 1 + ?n + length (wireName ls),
       True \<or> ls \<noteq> [], Some (?b @ (if ls = [] then [] else (if True then [46] else []) @ map asciiLower (dotJoin ls))))"
  have IH: "walks data (offset + 1 + ?n) jumped jumps (if jumped then nextOffset else offset + 1 + ?n) True
      (wireLen + ?n + 1) (Some ?b) ?r"
    using Cons.prems d2 by (intro Cons.IH) simp_all
  have "walks data offset jumped jumps nextOffset hasLabel wireLen (Some b) ?r"
  proof (rule walks.label [OF len])
    show "walks data (offset + 1 + unat (data ! offset)) jumped jumps
        (if jumped then nextOffset else offset + 1 + unat (data ! offset)) True
        (wireLen + unat (data ! offset) + 1) (labelStep data offset hasLabel (Some b)) ?r"
      unfolding u step by (rule IH)
  qed (use u n bound Cons.prems(3) in simp_all)
  then show ?case by (auto simp: wireName_def dotJoin_Cons add.assoc)
qed

lemma parseName_wireName:
  assumes "drop offset data = wireName ls @ rest" "labelsOk ls"
  shows "parseName data offset =
    Inr (if ls = [] then [46] else map asciiLower (dotJoin ls), offset + length (wireName ls))"
proof -
  have "offset < length data" using assms(1) by (metis append_is_Nil_conv drop_eq_Nil leI not_Cons_self2 wireName_def)
  moreover have "walks data offset False 0 offset False 1 (Some [])
    (offset + length (wireName ls), ls \<noteq> [], Some (if ls = [] then [] else map asciiLower (dotJoin ls)))"
    using walks_wireName [OF assms(1), of 1 False 0 offset False "[]"] assms(2)
    by (auto simp: labelsOk_def wireName_def)
  ultimately show ?thesis
    by (simp add: parseName_def walkName_def walkLoop_walks [THEN iffD2])
qed

section \<open>Strict and full parsing\<close>

lemma ParseDNSDatagramLite_full:
  assumes "ParseDNSDatagramLite data = Inr lp"
  shows "\<exists>p. ParsePacket data = Inr p \<and> dHeader p = lHeader lp \<and> dQuestions p = lQuestions lp \<and>
    isLikelyDNSMessageHeader (dHeader p)"
proof -
  let ?h = "parseHeader data"
  obtain o1 o2 o3 where len: "12 \<le> length data" and likely: "isLikelyDNSMessageHeader ?h"
      and s: "skipQuestions data 12 (unat (QDCount ?h)) = (o1, None)"
        "skipResourceRecords data o1 (unat (ANCount ?h)) = (o2, None)"
        "skipResourceRecords data o2 (unat (NSCount ?h)) = (o3, None)"
        "skipResourceRecords data o3 (unat (ARCount ?h)) = (length data, None)"
      and lp: "parsePacketLiteWithHeader data ?h = Inr lp"
    using assms by (auto simp: ParseDNSDatagramLite_def Let_def split: if_splits prod.splits option.splits)
  obtain qs an ns ar where p: "parseQuestions data 12 (unat (QDCount ?h)) = Inr (qs, o1)"
      "parseResourceRecords data o1 (unat (ANCount ?h)) = Inr (an, o2)"
      "parseResourceRecords data o2 (unat (NSCount ?h)) = Inr (ns, o3)"
      "parseResourceRecords data o3 (unat (ARCount ?h)) = Inr (ar, length data)"
    using skipQuestions_None [OF s(1)] skipResourceRecords_None [OF s(2)]
      skipResourceRecords_None [OF s(3)] skipResourceRecords_None [OF s(4)] by blast
  have "lHeader lp = ?h \<and> lQuestions lp = qs"
    using lp p(1) by (auto simp: parsePacketLiteWithHeader_def split: if_splits sum.splits prod.splits)
  then show ?thesis using len likely p by (simp add: ParsePacket_def Let_def)
qed

section \<open>Properties\<close>

text \<open>
  C26. Reading a name is safe on every byte string: the walk always ends, a parsed name has between
  1 and 253 characters, the position after it lies behind its start and inside the data, and
  skipping a name succeeds exactly when parsing does, at the same position.
\<close>

theorem name_walk_safe:
  "skipName data offset = map_sum id snd (parseName data offset) \<and>
   (case parseName data offset of
      Inl e \<Rightarrow> e = ErrInvalidName
    | Inr (name, n) \<Rightarrow> offset < n \<and> n \<le> length data \<and> 0 < length name \<and> length name \<le> 253)"
proof (cases "parseName data offset")
  case (Inl e)
  then have "e = ErrInvalidName"
    using walkLoop_Inl by (auto simp: parseName_def walkName_def split: if_splits sum.splits prod.splits)
  with Inl show ?thesis by (simp add: skipName_parseName)
next
  case (Inr r)
  obtain name n where "r = (name, n)" by (cases r)
  with Inr parseName_bounds [of data offset name n] parseName_length [of data offset name n]
  show ?thesis by (simp add: skipName_parseName)
qed

text \<open>
  C27. The strict datagram parser accepts only messages the full parser accepts too, with the same
  header and questions: skipping and parsing the four sections agree.
\<close>

theorem datagram_parsers_agree:
  assumes "ParseDNSDatagramLite data = Inr lp"
  shows "\<exists>p. ParsePacket data = Inr p \<and> dHeader p = lHeader lp \<and> dQuestions p = lQuestions lp \<and>
    isLikelyDNSMessageHeader (dHeader p)"
  using ParseDNSDatagramLite_full [OF assms] .

theorem datagram_parsers_agree_witness:
  "\<exists>p. ParsePacket [0, 7, 1, 0, 0, 1, 0, 0, 0, 0, 0, 0, 1, 65, 0, 0, 16, 0, 1] = Inr p \<and>
    dQuestions p = [\<lparr>qName = [97], qType = 16, qClass = 1\<rparr>]"
proof -
  let ?d = "[0, 7, 1, 0, 0, 1, 0, 0, 0, 0, 0, 0, 1, 65, 0, 0, 16, 0, 1] :: bytes"
  have "parseName ?d 12 = Inr ([97], 15)"
    using parseName_wireName [of 12 ?d "[[65]]" "[0, 16, 0, 1]"]
    by (simp add: wireName_def labelsOk_def asciiLower_def)
  then obtain lp where lp: "ParseDNSDatagramLite ?d = Inr lp"
      "lQuestions lp = [\<lparr>qName = [97], qType = 16, qClass = 1\<rparr>]"
    by (simp add: ParseDNSDatagramLite_def parseHeader_def rd16_def join16_def isLikelyDNSMessageHeader_def
        parsePacketLiteWithHeader_def skipName_parseName)
  from datagram_parsers_agree [OF lp(1)] lp(2) show ?thesis by metis
qed

end
