(* ===== verification/Dns_Response.thy ===== *)
theory Dns_Response
  imports Dns_Parser
begin

text \<open>
  Locally generated DNS answers (\<open>internal/dnsparser/response.go\<close>): response flags, the echo of the
  question section, and the search for the request's OPT record. The properties fix what a resolver
  sees: the request's ID, opcode and recursion bit, the response bit, the requested code, the echoed
  question bytes and at most one OPT record.
\<close>

section \<open>Flags\<close>

definition buildResponseFlags :: "u16 \<Rightarrow> u8 \<Rightarrow> u16" where
  "buildResponseFlags requestFlags rcode =
     (let flagQR = push_bit 15 1; flagAA = push_bit 10 1; flagTC = push_bit 9 1; flagRD = push_bit 8 1;
          flagRA = push_bit 7 1; flagCD = push_bit 4 1; opcodeMask = 0x7800;
          flags = flagQR OR flagRA OR (requestFlags AND opcodeMask) OR ucast (rcode AND 0x0F);
          flags = (if requestFlags AND flagRD \<noteq> 0 then flags OR flagRD else flags);
          flags = (if requestFlags AND flagCD \<noteq> 0 then flags OR flagCD else flags)
      in flags AND NOT (flagAA OR flagTC))"

definition buildAuthoritativeResponseFlags :: "u16 \<Rightarrow> u8 \<Rightarrow> u16" where
  "buildAuthoritativeResponseFlags requestFlags rcode =
     (let flagQR = push_bit 15 1; flagAA = push_bit 10 1; flagTC = push_bit 9 1; flagRD = push_bit 8 1;
          flagRA = push_bit 7 1; flagCD = push_bit 4 1; opcodeMask = 0x7800;
          flags = flagQR OR flagAA OR (requestFlags AND opcodeMask) OR ucast (rcode AND 0x0F);
          flags = (if requestFlags AND flagRD \<noteq> 0 then flags OR flagRD else flags);
          flags = (if requestFlags AND flagCD \<noteq> 0 then flags OR flagCD else flags)
      in flags AND NOT (flagRA OR flagTC))"

section \<open>Question and OPT sections of a request\<close>

definition getARCount :: "nat \<Rightarrow> u16" where
  "getARCount optLen = (if 0 < optLen then 1 else 0)"

definition extractQuestionSection :: "bytes \<Rightarrow> dnsHeader \<Rightarrow> bytes \<times> u16 \<times> nat" where
  "extractQuestionSection request header =
     (if QDCount header = 0 then ([], 0, dnsHeaderSize)
      else case skipQuestions request dnsHeaderSize (unat (QDCount header)) of
        (_, Some err) \<Rightarrow> ([], 0, 0)
      | (offset, None) \<Rightarrow> (slice request dnsHeaderSize offset, QDCount header, offset))"

fun findFirstOPTRecordInAdditional :: "bytes \<Rightarrow> nat \<Rightarrow> nat \<Rightarrow> nat \<times> nat" where
  "findFirstOPTRecordInAdditional data offset 0 = (0, 0)"
| "findFirstOPTRecordInAdditional data offset (Suc count) =
     (case skipName data offset of
        Inl _ \<Rightarrow> (0, 0)
      | Inr nextOffset \<Rightarrow>
          if length data < nextOffset + 10 then (0, 0)
          else
            let recordType = rd16 data nextOffset;
                recordEnd = nextOffset + 10 + unat (rd16 data (nextOffset + 8)) in
            if length data < recordEnd then (0, 0)
            else if recordType = DNS_RECORD_TYPE_OPT then (offset, recordEnd - offset)
            else findFirstOPTRecordInAdditional data recordEnd count)"

definition findOPTRecordRange :: "bytes \<Rightarrow> dnsHeader \<Rightarrow> nat \<Rightarrow> nat \<times> nat" where
  "findOPTRecordRange request header questionEndOffset =
     (if ARCount header = 0 \<or> questionEndOffset < dnsHeaderSize \<or> length request < questionEndOffset then (0, 0)
      else
        case (if 0 < ANCount header then skipResourceRecords request questionEndOffset (unat (ANCount header))
              else (questionEndOffset, None)) of
          (_, Some err) \<Rightarrow> (0, 0)
        | (offset, None) \<Rightarrow>
            (case (if 0 < NSCount header then skipResourceRecords request offset (unat (NSCount header))
                   else (offset, None)) of
               (_, Some err) \<Rightarrow> (0, 0)
             | (offset, None) \<Rightarrow> findFirstOPTRecordInAdditional request offset (unat (ARCount header))))"

definition extractOPTRecordsFromOffset :: "bytes \<Rightarrow> dnsHeader \<Rightarrow> nat \<Rightarrow> bytes list \<times> nat" where
  "extractOPTRecordsFromOffset request header questionEndOffset =
     (case findOPTRecordRange request header questionEndOffset of (start, len) \<Rightarrow>
        if len = 0 then ([], 0) else ([slice request start (start + len)], len))"

definition extractOPTRecordsFromRequest :: "bytes \<Rightarrow> dnsHeader \<Rightarrow> bool \<Rightarrow> bytes list \<times> nat" where
  "extractOPTRecordsFromRequest request header canWalk =
     (if \<not> canWalk \<or> ARCount header = 0 then ([], 0)
      else case skipQuestions request dnsHeaderSize (unat (QDCount header)) of
        (_, Some err) \<Rightarrow> ([], 0)
      | (offset, None) \<Rightarrow> extractOPTRecordsFromOffset request header offset)"

fun extractRawOPTRecords :: "bytes \<Rightarrow> nat \<Rightarrow> nat \<Rightarrow> dnsError + bytes list \<times> nat \<times> nat" where
  "extractRawOPTRecords data offset 0 = Inr ([], 0, offset)"
| "extractRawOPTRecords data offset (Suc count) =
     (case skipName data offset of
        Inl _ \<Rightarrow> Inl ErrInvalidAnswer
      | Inr nextOffset \<Rightarrow>
          if length data < nextOffset + 10 then Inl ErrInvalidAnswer
          else
            let recordType = rd16 data nextOffset;
                recordEnd = nextOffset + 10 + unat (rd16 data (nextOffset + 8)) in
            if length data < recordEnd then Inl ErrInvalidAnswer
            else
              (case extractRawOPTRecords data recordEnd count of
                 Inl err \<Rightarrow> Inl err
               | Inr (records, recordsLen, finish) \<Rightarrow>
                   if recordType = DNS_RECORD_TYPE_OPT
                   then Inr (slice data offset recordEnd # records, recordEnd - offset + recordsLen, finish)
                   else Inr (records, recordsLen, finish)))"

section \<open>Builders\<close>

text \<open>The twelve header bytes, in the order the \<open>PutUint16\<close> calls fill them.\<close>

definition dnsHeaderBytes :: "u16 \<Rightarrow> u16 \<Rightarrow> u16 \<Rightarrow> u16 \<Rightarrow> u16 \<Rightarrow> u16 \<Rightarrow> bytes" where
  "dnsHeaderBytes i flags qd an ns ar = be16 i @ be16 flags @ be16 qd @ be16 an @ be16 ns @ be16 ar"

definition buildResponseWithRCode :: "bytes \<Rightarrow> u8 \<Rightarrow> dnsError + bytes" where
  "buildResponseWithRCode request rcode =
     (if length request < dnsHeaderSize then Inl ErrDnsPacketTooShort
      else
        let header = parseHeader request in
        if \<not> isLikelyDNSRequestHeader header then Inl ErrNotDNSRequest
        else
          case skipQuestions request dnsHeaderSize (unat (QDCount header)) of (questionEndOffset, err) \<Rightarrow>
            let ok = (err = None \<and> dnsHeaderSize \<le> questionEndOffset \<and> questionEndOffset \<le> length request);
                questionLen = (if ok then questionEndOffset - dnsHeaderSize else 0);
                questionCount = (if ok then QDCount header else 0)
            in
            case findOPTRecordRange request header questionEndOffset of (optStart, optLen) \<Rightarrow>
              Inr (dnsHeaderBytes (hID header) (buildResponseFlags (hFlags header) rcode) questionCount 0 0
                     (getARCount optLen) @
                   (if 0 < questionLen then slice request dnsHeaderSize questionEndOffset else []) @
                   (if 0 < optLen then slice request optStart (optStart + optLen) else [])))"

definition buildResponseWithFlagsLite :: "bytes \<Rightarrow> litePacket \<Rightarrow> u16 \<Rightarrow> dnsError + bytes" where
  "buildResponseWithFlagsLite request parsed flags =
     (if length request < dnsHeaderSize then Inl ErrDnsPacketTooShort
      else if \<not> isLikelyDNSRequestHeader (lHeader parsed) then Inl ErrNotDNSRequest
      else
        case findOPTRecordRange request (lHeader parsed) (lQuestionEndOffset parsed) of (optStart, optLen) \<Rightarrow>
          let questionLen =
                (if dnsHeaderSize \<le> lQuestionEndOffset parsed \<and> lQuestionEndOffset parsed \<le> length request
                 then lQuestionEndOffset parsed - dnsHeaderSize else 0)
          in Inr (dnsHeaderBytes (hID (lHeader parsed)) flags (QDCount (lHeader parsed)) 0 0 (getARCount optLen) @
                  (if 0 < questionLen then slice request dnsHeaderSize (lQuestionEndOffset parsed) else []) @
                  (if 0 < optLen then slice request optStart (optStart + optLen) else [])))"

definition buildResponseWithRCodeLite :: "bytes \<Rightarrow> litePacket \<Rightarrow> u8 \<Rightarrow> dnsError + bytes" where
  "buildResponseWithRCodeLite request parsed rcode =
     buildResponseWithFlagsLite request parsed (buildResponseFlags (hFlags (lHeader parsed)) rcode)"

definition buildAuthoritativeResponseWithRCodeLite :: "bytes \<Rightarrow> litePacket \<Rightarrow> u8 \<Rightarrow> dnsError + bytes" where
  "buildAuthoritativeResponseWithRCodeLite request parsed rcode =
     buildResponseWithFlagsLite request parsed (buildAuthoritativeResponseFlags (hFlags (lHeader parsed)) rcode)"

definition buildNoDataResponseLite :: "bytes \<Rightarrow> litePacket \<Rightarrow> dnsError + bytes" where
  "buildNoDataResponseLite request parsed = buildResponseWithRCodeLite request parsed DNSR_CODE_NO_ERROR"

definition BuildEmptyNoErrorResponse :: "bytes \<Rightarrow> dnsError + bytes" where
  "BuildEmptyNoErrorResponse request = buildResponseWithRCode request DNSR_CODE_NO_ERROR"

definition BuildEmptyNoErrorResponseFromLite :: "bytes \<Rightarrow> litePacket \<Rightarrow> dnsError + bytes" where
  "BuildEmptyNoErrorResponseFromLite request parsed = buildResponseWithRCodeLite request parsed DNSR_CODE_NO_ERROR"

definition BuildNoDataResponseFromLite :: "bytes \<Rightarrow> litePacket \<Rightarrow> dnsError + bytes" where
  "BuildNoDataResponseFromLite request parsed = buildNoDataResponseLite request parsed"

definition BuildNoDataResponse :: "bytes \<Rightarrow> dnsError + bytes" where
  "BuildNoDataResponse request =
     (case ParseDNSRequestLite request of
        Inl err \<Rightarrow> Inl err
      | Inr parsed \<Rightarrow> BuildNoDataResponseFromLite request parsed)"

definition BuildNameErrorResponseFromLite :: "bytes \<Rightarrow> litePacket \<Rightarrow> dnsError + bytes" where
  "BuildNameErrorResponseFromLite request parsed =
     buildAuthoritativeResponseWithRCodeLite request parsed DNSR_CODE_NAME_ERROR"

definition BuildFormatErrorResponse :: "bytes \<Rightarrow> dnsError + bytes" where
  "BuildFormatErrorResponse request = buildResponseWithRCode request DNSR_CODE_FORMAT_ERROR"

definition BuildFormatErrorResponseFromLite :: "bytes \<Rightarrow> litePacket \<Rightarrow> dnsError + bytes" where
  "BuildFormatErrorResponseFromLite request parsed = buildResponseWithRCodeLite request parsed DNSR_CODE_FORMAT_ERROR"

definition BuildRefusedResponseFromLite :: "bytes \<Rightarrow> litePacket \<Rightarrow> dnsError + bytes" where
  "BuildRefusedResponseFromLite request parsed = buildResponseWithRCodeLite request parsed DNSR_CODE_REFUSED"

definition BuildServerFailureResponse :: "bytes \<Rightarrow> dnsError + bytes" where
  "BuildServerFailureResponse request = buildResponseWithRCode request DNSR_CODE_SERVER_FAILURE"

definition BuildServerFailureResponseFromLite :: "bytes \<Rightarrow> litePacket \<Rightarrow> dnsError + bytes" where
  "BuildServerFailureResponseFromLite request parsed = buildResponseWithRCodeLite request parsed DNSR_CODE_SERVER_FAILURE"

definition BuildNotImplementedResponseFromLite :: "bytes \<Rightarrow> litePacket \<Rightarrow> dnsError + bytes" where
  "BuildNotImplementedResponseFromLite request parsed =
     buildResponseWithRCodeLite request parsed DNSR_CODE_NOT_IMPLEMENTED"

section \<open>Reading a built header back\<close>

lemma length_dnsHeaderBytes [simp]: "length (dnsHeaderBytes i f q a n r) = 12"
  by (simp add: dnsHeaderBytes_def)

lemma rd16_dnsHeaderBytes:
  "rd16 (dnsHeaderBytes i f q a n r @ xs) 0 = i"
  "rd16 (dnsHeaderBytes i f q a n r @ xs) 2 = f"
  "rd16 (dnsHeaderBytes i f q a n r @ xs) 4 = q"
  "rd16 (dnsHeaderBytes i f q a n r @ xs) 6 = a"
  "rd16 (dnsHeaderBytes i f q a n r @ xs) 8 = n"
  "rd16 (dnsHeaderBytes i f q a n r @ xs) 10 = r"
  by (simp_all add: dnsHeaderBytes_def be16_def rd16_def)

lemma parseHeader_bytes [simp]:
  "hID (parseHeader (dnsHeaderBytes i f q a n r @ xs)) = i"
  "hFlags (parseHeader (dnsHeaderBytes i f q a n r @ xs)) = f"
  "QDCount (parseHeader (dnsHeaderBytes i f q a n r @ xs)) = q"
  "ANCount (parseHeader (dnsHeaderBytes i f q a n r @ xs)) = a"
  "NSCount (parseHeader (dnsHeaderBytes i f q a n r @ xs)) = n"
  "ARCount (parseHeader (dnsHeaderBytes i f q a n r @ xs)) = r"
  by (simp_all add: parseHeader_def Let_def rd16_dnsHeaderBytes)

lemma and_bit16: "(w AND push_bit n 1 \<noteq> 0) \<longleftrightarrow> bit (w :: u16) n"
  by (metis and_exp_eq_0_iff_not_bit push_bit_of_1)

lemma bit_opcodeMask: "bit (0x7800 :: u16) n \<longleftrightarrow> 11 \<le> n \<and> n \<le> 14"
proof -
  have *: "(0x7800 :: u16) = push_bit 11 (mask 4)" by (simp add: mask_eq_decr_exp push_bit_eq_mult)
  show ?thesis unfolding * bit_push_bit_iff bit_mask_iff by auto
qed

lemma bit_rcodeMask: "bit (0x0F :: u8) n \<longleftrightarrow> n < 4"
proof -
  have *: "(0x0F :: u8) = mask 4" by (simp add: mask_eq_decr_exp)
  show ?thesis unfolding * bit_mask_iff by auto
qed

lemma bit_flag: "bit (push_bit k (1 :: u16)) n \<longleftrightarrow> n = k \<and> k < 16"
  by (auto simp: bit_simps)

lemma bit_not16: "bit (NOT (a :: u16)) n \<longleftrightarrow> n < 16 \<and> \<not> bit a n"
  by (simp add: bit_not_iff)

lemma bit_ucast_u8: "bit (ucast (b :: u8) :: u16) n \<longleftrightarrow> bit b n"
  by (auto simp: bit_simps dest: bit_imp_le_length)

lemma bit_if: "bit (if c then a else b) n = (if c then bit a n else bit b n)"
  by simp

lemmas flag_bits = bit_not16 bit_or_iff bit_and_iff bit_flag bit_opcodeMask bit_rcodeMask bit_ucast_u8 bit_if

lemma bit_buildResponseFlags:
  "bit (buildResponseFlags rf rcode) n \<longleftrightarrow>
     n = 15 \<or> n = 7 \<or> (11 \<le> n \<and> n \<le> 14 \<and> bit rf n) \<or> (n < 4 \<and> bit rcode n) \<or>
     (n = 8 \<and> bit rf 8) \<or> (n = 4 \<and> bit rf 4)"
  unfolding buildResponseFlags_def Let_def and_bit16
  by (simp only: flag_bits) auto

lemma bit_buildAuthoritativeResponseFlags:
  "bit (buildAuthoritativeResponseFlags rf rcode) n \<longleftrightarrow>
     n = 15 \<or> n = 10 \<or> (11 \<le> n \<and> n \<le> 14 \<and> bit rf n) \<or> (n < 4 \<and> bit rcode n) \<or>
     (n = 8 \<and> bit rf 8) \<or> (n = 4 \<and> bit rf 4)"
  unfolding buildAuthoritativeResponseFlags_def Let_def and_bit16
  by (simp only: flag_bits) auto

lemma flag_field: "(ucast (drop_bit k (w :: u16) AND 0x1) :: u8) = (if bit w k then 1 else 0)"
proof -
  have "drop_bit k w AND 1 = (if bit w k then 1 else 0)"
    by (simp add: and_one_eq bit_iff_odd_drop_bit odd_iff_mod_2_eq_one)
  then show ?thesis by simp
qed

lemma opcode_field:
  assumes "\<And>n. 11 \<le> n \<Longrightarrow> n \<le> 14 \<Longrightarrow> bit v n = bit w n"
  shows "(ucast (drop_bit 11 (v :: u16) AND 0xF) :: u8) = ucast (drop_bit 11 (w :: u16) AND 0xF)"
proof -
  have m: "(0xF :: u16) = mask 4" by (simp add: mask_eq_decr_exp)
  have "drop_bit 11 v AND 0xF = drop_bit 11 w AND 0xF"
    unfolding m using assms by (intro bit_word_eqI) (auto simp: bit_simps)
  then show ?thesis by simp
qed

lemma rcode_field:
  assumes "\<And>n. n < 4 \<Longrightarrow> bit w n = bit rcode n"
  shows "(ucast ((w :: u16) AND 0xF) :: u8) = rcode AND 0xF"
proof -
  have m: "(0xF :: u16) = mask 4" "(0xF :: u8) = mask 4" by (simp_all add: mask_eq_decr_exp)
  show ?thesis unfolding m using assms by (intro bit_word_eqI) (auto simp: bit_simps)
qed

lemma response_flag_fields:
  assumes "hFlags h = buildResponseFlags (hFlags rh) rcode" "h = parseHeader d" "rh = parseHeader d'"
  shows "hQR h = 1 \<and> hAA h = 0 \<and> hTC h = 0 \<and> hRA h = 1 \<and> hRD h = hRD rh \<and> hOpCode h = hOpCode rh \<and>
    hRCode h = rcode AND 0xF"
proof -
  let ?w = "rd16 d 2" and ?v = "rd16 d' 2"
  have w: "bit ?w n \<longleftrightarrow> bit (buildResponseFlags ?v rcode) n" for n
    using assms by (simp add: parseHeader_def Let_def)
  have "hOpCode h = hOpCode rh"
    unfolding assms parseHeader_def Let_def
    by simp (rule opcode_field, auto simp: w bit_buildResponseFlags)
  moreover have "hRCode h = rcode AND 0xF"
    unfolding assms parseHeader_def Let_def
    by simp (rule rcode_field, auto simp: w bit_buildResponseFlags)
  ultimately show ?thesis
    by (simp add: assms(2,3) parseHeader_def Let_def flag_field w bit_buildResponseFlags)
qed

text \<open>A found OPT range is one complete record.\<close>

lemma findFirstOPT_record:
  "findFirstOPTRecordInAdditional data offset count = (s, l) \<Longrightarrow> 0 < l \<Longrightarrow>
   offset \<le> s \<and> s + l \<le> length data \<and>
   (\<exists>n. skipName data s = Inr n \<and> s < n \<and> rd16 data n = DNS_RECORD_TYPE_OPT \<and>
      s + l = n + 10 + unat (rd16 data (n + 8)))"
proof (induction data offset count rule: findFirstOPTRecordInAdditional.induct)
  case (2 data offset count)
  show ?case
  proof (cases "parseName data offset")
    case (Inl e)
    with "2.prems" show ?thesis by (simp add: skipName_parseName)
  next
    case (Inr r)
    obtain name n where r: "r = (name, n)" by (cases r)
    with Inr have b: "offset < n" "n \<le> length data" using parseName_bounds by auto
    have sk: "skipName data offset = Inr n" using Inr r by (simp add: skipName_parseName)
    let ?e = "n + 10 + unat (rd16 data (n + 8))"
    have le: "?e \<le> length data" using "2.prems" sk by (auto simp: Let_def split: if_splits)
    show ?thesis
    proof (cases "rd16 data n = 41")
      case True
      then show ?thesis using "2.prems" sk b le by (auto simp: Let_def)
    next
      case False
      then have "findFirstOPTRecordInAdditional data ?e count = (s, l)"
        using "2.prems" sk le by (simp add: Let_def)
      from "2.IH" [OF sk _ refl refl _ False this "2.prems"(2)] le b show ?thesis by auto
    qed
  qed
qed simp

lemma skipResourceRecords_fail:
  "skipName data offset = Inl e \<or> (\<exists>n. skipName data offset = Inr n \<and> length data < n + 4) \<Longrightarrow> 0 < count \<Longrightarrow>
   snd (skipResourceRecords data offset count) \<noteq> None \<and> findFirstOPTRecordInAdditional data offset count = (0, 0)"
  by (cases count) auto

lemma skipQuestions_fail:
  "skipQuestions data offset count = (stop, Some err) \<Longrightarrow>
   (\<exists>e. skipName data stop = Inl e) \<or> (\<exists>n. skipName data stop = Inr n \<and> length data < n + 4)"
  by (induction data offset count rule: skipQuestions.induct) (auto split: sum.splits if_splits)

lemma findOPT_after_bad_question:
  assumes "skipQuestions data offset count = (stop, Some err)"
  shows "findOPTRecordRange data header stop = (0, 0)"
proof -
  have f: "snd (skipResourceRecords data stop k) \<noteq> None \<and> findFirstOPTRecordInAdditional data stop k = (0, 0)"
    if "0 < k" for k
    using skipQuestions_fail [OF assms] skipResourceRecords_fail [of data stop _ k] that by blast
  have u: "0 < w \<Longrightarrow> 0 < unat w" for w :: u16 by (simp add: unat_gt_0 word_neq_0_conv)
  have fa: "0 < ANCount header \<Longrightarrow> \<exists>x e. skipResourceRecords data stop (unat (ANCount header)) = (x, Some e)"
    and fn: "0 < NSCount header \<Longrightarrow> \<exists>x e. skipResourceRecords data stop (unat (NSCount header)) = (x, Some e)"
    using f [OF u] by (metis not_None_eq prod.collapse)+
  show ?thesis
  proof (cases "ARCount header = 0")
    case False
    then have "findFirstOPTRecordInAdditional data stop (unat (ARCount header)) = (0, 0)"
      using f u word_neq_0_conv by blast
    then show ?thesis using fa fn by (auto simp: findOPTRecordRange_def)
  qed (simp add: findOPTRecordRange_def)
qed

lemma skipResourceRecords_bounds:
  "skipResourceRecords data offset count = (stop, None) \<Longrightarrow> offset \<le> length data \<Longrightarrow> offset \<le> stop \<and> stop \<le> length data"
  using parseResourceRecords_bounds skipResourceRecords_None by blast

lemma findOPTRecordRange_record:
  assumes "findOPTRecordRange data header q = (s, l)" "0 < l"
  shows "q \<le> s \<and> s + l \<le> length data \<and>
   (\<exists>n. skipName data s = Inr n \<and> s < n \<and> rd16 data n = DNS_RECORD_TYPE_OPT \<and>
      s + l = n + 10 + unat (rd16 data (n + 8)))"
proof -
  have q: "q \<le> length data" using assms by (auto simp: findOPTRecordRange_def split: if_splits)
  obtain o1 o2 where o: "(if 0 < ANCount header then skipResourceRecords data q (unat (ANCount header)) else (q, None)) = (o1, None)"
      "(if 0 < NSCount header then skipResourceRecords data o1 (unat (NSCount header)) else (o1, None)) = (o2, None)"
      and f: "findFirstOPTRecordInAdditional data o2 (unat (ARCount header)) = (s, l)"
    using assms by (auto simp: findOPTRecordRange_def split: if_splits prod.splits option.splits)
  have "q \<le> o1 \<and> o1 \<le> length data"
    using o(1) skipResourceRecords_bounds [OF _ q] q by (auto split: if_splits)
  moreover from this have "o1 \<le> o2"
    using o(2) skipResourceRecords_bounds [of data o1] by (auto split: if_splits)
  ultimately show ?thesis using findFirstOPT_record [OF f assms(2)] by auto
qed

text \<open>
  The resource records of a message, read independently of the search: start, type and end of each
  complete record from an offset on, up to \<open>count\<close> of them or the first malformed one.
\<close>

fun recordsFrom :: "bytes \<Rightarrow> nat \<Rightarrow> nat \<Rightarrow> (nat \<times> u16 \<times> nat) list" where
  "recordsFrom data offset 0 = []"
| "recordsFrom data offset (Suc count) =
     (case skipName data offset of
        Inl _ \<Rightarrow> []
      | Inr n \<Rightarrow>
          if length data < n + 10 \<or> length data < n + 10 + unat (rd16 data (n + 8)) then []
          else (offset, rd16 data n, n + 10 + unat (rd16 data (n + 8))) # recordsFrom data (n + 10 + unat (rd16 data (n + 8))) count)"

definition additionalRecords :: "bytes \<Rightarrow> dnsHeader \<Rightarrow> nat \<Rightarrow> (nat \<times> u16 \<times> nat) list" where
  "additionalRecords data header offset =
     (let skipped = unat (ANCount header) + unat (NSCount header)
      in drop skipped (recordsFrom data offset (skipped + unat (ARCount header))))"

lemma length_recordsFrom: "length (recordsFrom data offset count) \<le> count"
  by (induction data offset count rule: recordsFrom.induct) (auto split: sum.splits)

lemma recordsFrom_skip:
  "case skipResourceRecords data offset n of
     (stop, None) \<Rightarrow> length (recordsFrom data offset n) = n \<and>
       (\<forall>m. recordsFrom data offset (n + m) = recordsFrom data offset n @ recordsFrom data stop m)
   | (_, Some _) \<Rightarrow> \<forall>m. length (recordsFrom data offset (n + m)) < n"
  by (induction data offset n rule: skipResourceRecords.induct) (auto simp: Let_def split: sum.splits prod.splits option.splits)

lemma recordsFrom_complete: "(s, t, e) \<in> set (recordsFrom data offset n) \<Longrightarrow> s < e \<and> e \<le> length data"
proof (induction data offset n rule: recordsFrom.induct)
  case (2 data offset count)
  show ?case
  proof (cases "parseName data offset")
    case (Inl e)
    with "2.prems" show ?thesis by (simp add: skipName_parseName)
  next
    case (Inr r)
    then have "offset < snd r" using parseName_bounds [of data offset "fst r" "snd r"] by simp
    with Inr 2 show ?thesis by (auto simp: skipName_parseName split: if_splits prod.splits)
  qed
qed simp

definition optRange :: "(nat \<times> u16 \<times> nat) list \<Rightarrow> nat \<times> nat" where
  "optRange rs = (case find (\<lambda>(_, t, _). t = DNS_RECORD_TYPE_OPT) rs of None \<Rightarrow> (0, 0) | Some (s, _, e) \<Rightarrow> (s, e - s))"

lemma findFirstOPT_records: "findFirstOPTRecordInAdditional data offset n = optRange (recordsFrom data offset n)"
  by (induction data offset n rule: recordsFrom.induct) (auto simp: optRange_def Let_def split: sum.splits)

lemma findOPT_additional:
  assumes "12 \<le> q" "q \<le> length data"
  shows "findOPTRecordRange data header q = optRange (additionalRecords data header q)"
proof -
  let ?an = "unat (ANCount header)" and ?ns = "unat (NSCount header)" and ?ar = "unat (ARCount header)"
  have skip: "(if 0 < w then skipResourceRecords data x (unat w) else (x, None)) = skipResourceRecords data x (unat w)" for w x
    by (cases "w = 0") (auto simp: word_neq_0_conv)
  have none: "optRange (additionalRecords data header q) = (0, 0)" if "length (recordsFrom data q (?an + ?ns + ?ar)) \<le> ?an + ?ns"
    using that by (simp add: additionalRecords_def optRange_def Let_def)
  show ?thesis
  proof (cases "skipResourceRecords data q ?an")
    case (Pair o1 e1)
    note a = recordsFrom_skip [of data q ?an, unfolded Pair]
    show ?thesis
    proof (cases "ARCount header = 0 \<or> e1 \<noteq> None")
      case True
      then have "length (recordsFrom data q (?an + ?ns + ?ar)) \<le> ?an + ?ns"
        using a length_recordsFrom [of data q "?an + ?ns"] by (cases e1) (auto simp: add.assoc intro: less_imp_le trans_less_add1)
      then show ?thesis
        using none True assms Pair by (auto simp: findOPTRecordRange_def skip)
    next
      case False
      then have a': "\<And>m. recordsFrom data q (?an + m) = recordsFrom data q ?an @ recordsFrom data o1 m"
          "length (recordsFrom data q ?an) = ?an"
        using a by auto
      note n = recordsFrom_skip [of data o1 ?ns]
      have e: "optRange [] = (0, 0)" by (simp add: optRange_def)
      show ?thesis
        using False Pair assms n
        by (auto simp: findOPTRecordRange_def skip findFirstOPT_records additionalRecords_def Let_def a' add.assoc e less_imp_le
          split: prod.splits option.splits)
    qed
  qed
qed

lemma skipQuestions_bounds:
  "skipQuestions data offset count = (stop, None) \<Longrightarrow> offset \<le> length data \<Longrightarrow> offset \<le> stop \<and> stop \<le> length data"
  using parseQuestions_bounds skipQuestions_None by blast

lemma buildResponseWithRCode_total:
  "12 \<le> length request \<Longrightarrow> isLikelyDNSRequestHeader (parseHeader request) \<Longrightarrow>
   \<exists>resp. buildResponseWithRCode request rcode = Inr resp"
  by (auto simp: buildResponseWithRCode_def Let_def split: prod.splits)

section \<open>Properties\<close>

text \<open>
  C16. A locally generated answer mirrors its request: same ID, opcode and recursion-desired bit, the
  response and recursion-available bits set, authoritative and truncation bits clear, the requested
  response code, no answer or authority records. When the question section is well formed its bytes
  are echoed, followed by the request's first OPT record (type 41) among its complete additional
  records, byte for byte, and by nothing when there is none; the count is exact. Otherwise the answer is
  a bare header with zero questions.
\<close>

theorem response_mirrors_request:
  assumes "buildResponseWithRCode request rcode = Inr resp"
  shows "hID (parseHeader resp) = hID (parseHeader request) \<and>
    hOpCode (parseHeader resp) = hOpCode (parseHeader request) \<and>
    hRD (parseHeader resp) = hRD (parseHeader request) \<and>
    hQR (parseHeader resp) = 1 \<and> hRA (parseHeader resp) = 1 \<and> hAA (parseHeader resp) = 0 \<and>
    hTC (parseHeader resp) = 0 \<and> hRCode (parseHeader resp) = rcode AND 0xF \<and>
    ANCount (parseHeader resp) = 0 \<and> NSCount (parseHeader resp) = 0 \<and>
    (case skipQuestions request dnsHeaderSize (unat (QDCount (parseHeader request))) of
       (stop, None) \<Rightarrow>
         QDCount (parseHeader resp) = QDCount (parseHeader request) \<and>
         (case find (\<lambda>(_, t, _). t = DNS_RECORD_TYPE_OPT) (additionalRecords request (parseHeader request) stop) of
            None \<Rightarrow> ARCount (parseHeader resp) = 0 \<and> drop dnsHeaderSize resp = slice request dnsHeaderSize stop
          | Some (s, _, e) \<Rightarrow> ARCount (parseHeader resp) = 1 \<and>
              drop dnsHeaderSize resp = slice request dnsHeaderSize stop @ slice request s e)
     | (_, Some _) \<Rightarrow>
         QDCount (parseHeader resp) = 0 \<and> ARCount (parseHeader resp) = 0 \<and> drop dnsHeaderSize resp = [])"
proof -
  let ?rh = "parseHeader request"
  obtain stop err where sq: "skipQuestions request 12 (unat (QDCount ?rh)) = (stop, err)" by (metis surj_pair)
  obtain s l where opt: "findOPTRecordRange request ?rh stop = (s, l)" by (metis surj_pair)
  let ?ok = "err = None \<and> 12 \<le> stop \<and> stop \<le> length request"
  let ?q = "if 0 < (if ?ok then stop - 12 else 0) then slice request 12 stop else []"
  let ?o = "if 0 < l then slice request s (s + l) else []"
  have len: "12 \<le> length request" and likely: "isLikelyDNSRequestHeader ?rh"
    using assms by (auto simp: buildResponseWithRCode_def Let_def split: if_splits)
  have resp: "resp = dnsHeaderBytes (hID ?rh) (buildResponseFlags (hFlags ?rh) rcode)
      (if ?ok then QDCount ?rh else 0) 0 0 (getARCount l) @ ?q @ ?o"
    using assms len likely by (simp add: buildResponseWithRCode_def Let_def sq opt)
  have flags: "hQR (parseHeader resp) = 1 \<and> hAA (parseHeader resp) = 0 \<and> hTC (parseHeader resp) = 0 \<and>
      hRA (parseHeader resp) = 1 \<and> hRD (parseHeader resp) = hRD ?rh \<and> hOpCode (parseHeader resp) = hOpCode ?rh \<and>
      hRCode (parseHeader resp) = rcode AND 0xF"
    by (rule response_flag_fields [OF _ refl refl]) (simp add: resp)
  have hdr: "hID (parseHeader resp) = hID ?rh" "ANCount (parseHeader resp) = 0" "NSCount (parseHeader resp) = 0"
      "QDCount (parseHeader resp) = (if ?ok then QDCount ?rh else 0)" "ARCount (parseHeader resp) = getARCount l"
      "drop 12 resp = ?q @ ?o"
    unfolding resp by simp_all
  show ?thesis
  proof (cases err)
    case (Some e)
    then have "l = 0" using findOPT_after_bad_question [of request 12 _ stop e ?rh] sq opt by simp
    with Some flags show ?thesis unfolding sq by (simp add: hdr getARCount_def)
  next
    case None
    then have b: "12 \<le> stop" "stop \<le> length request" using skipQuestions_bounds [of request 12] sq len by auto
    then have q: "?q = slice request 12 stop" using None by (simp add: slice_def)
    have o: "optRange (additionalRecords request ?rh stop) = (s, l)" using findOPT_additional [OF b] opt by simp
    have d: "drop 12 resp = slice request 12 stop @ ?o" unfolding hdr q ..
    have "case find (\<lambda>(_, t, _). t = DNS_RECORD_TYPE_OPT) (additionalRecords request ?rh stop) of
        None \<Rightarrow> ARCount (parseHeader resp) = 0 \<and> drop 12 resp = slice request 12 stop
      | Some (s, _, e) \<Rightarrow> ARCount (parseHeader resp) = 1 \<and> drop 12 resp = slice request 12 stop @ slice request s e"
    proof (cases "find (\<lambda>(_, t, _). t = DNS_RECORD_TYPE_OPT) (additionalRecords request ?rh stop)")
      case None
      then have "l = 0" using o by (simp add: optRange_def)
      with None d show ?thesis by (simp add: hdr getARCount_def)
    next
      case (Some x)
      obtain s' t e where x: "x = (s', t, e)" by (cases x)
      have "x \<in> set (additionalRecords request ?rh stop)" using Some by (metis find_Some_iff nth_mem)
      then have "s' < e" using recordsFrom_complete x by (auto simp: additionalRecords_def Let_def dest: in_set_dropD)
      moreover have "s = s'" "l = e - s'" using Some x o by (auto simp: optRange_def)
      ultimately show ?thesis using Some x d by (simp add: hdr getARCount_def)
    qed
    with flags None b show ?thesis unfolding sq by (simp add: hdr(1-4))
  qed
qed

theorem response_mirrors_request_witness:
  "\<exists>resp. buildResponseWithRCode
      [0, 7, 1, 0, 0, 1, 0, 0, 0, 0, 0, 1, 1, 65, 0, 0, 16, 0, 1, 0, 0, 41, 4, 208, 0, 0, 0, 0, 0, 0] 3 = Inr resp \<and>
    hID (parseHeader resp) = 7 \<and> hRCode (parseHeader resp) = 3 \<and> ARCount (parseHeader resp) = 1 \<and>
    drop 12 resp = [1, 65, 0, 0, 16, 0, 1, 0, 0, 41, 4, 208, 0, 0, 0, 0, 0, 0]"
proof -
  let ?d = "[0, 7, 1, 0, 0, 1, 0, 0, 0, 0, 0, 1, 1, 65, 0, 0, 16, 0, 1, 0, 0, 41, 4, 208, 0, 0, 0, 0, 0, 0] :: bytes"
  have "isLikelyDNSRequestHeader (parseHeader ?d)"
    by (simp add: isLikelyDNSRequestHeader_def isLikelyDNSMessageHeader_def parseHeader_def rd16_def join16_def)
  then obtain resp where resp: "buildResponseWithRCode ?d 3 = Inr resp"
    using buildResponseWithRCode_total [of ?d 3] by auto
  have h: "hID (parseHeader ?d) = 7" "QDCount (parseHeader ?d) = 1" by (simp_all add: parseHeader_def rd16_def join16_def)
  have q: "skipQuestions ?d 12 1 = (19, None)" by code_simp
  have a: "additionalRecords ?d (parseHeader ?d) 19 = [(19, 41, 30)]" by code_simp
  show ?thesis using response_mirrors_request [OF resp] resp h q a by (auto simp: slice_def)
qed

text \<open>
  C28. Building an answer from an already parsed request gives the same bytes as building it from the
  raw request: the lite path of the server's hot loop is an optimisation only.
\<close>

theorem lite_response_agrees:
  assumes "ParseDNSRequestLite request = Inr parsed"
  shows "buildResponseWithRCodeLite request parsed rcode = buildResponseWithRCode request rcode"
proof -
  let ?h = "parseHeader request"
  have len: "12 \<le> length request" and likely: "isLikelyDNSRequestHeader ?h"
    and p: "parsePacketLiteWithHeader request ?h = Inr parsed"
    using assms by (auto simp: ParseDNSRequestLite_def Let_def split: if_splits)
  have qd: "QDCount ?h \<noteq> 0" using likely by (auto simp: isLikelyDNSRequestHeader_def split: if_splits)
  then obtain qs stop where pq: "parseQuestions request 12 (unat (QDCount ?h)) = Inr (qs, stop)"
      and parsed: "lHeader parsed = ?h" "lQuestionEndOffset parsed = stop"
    using p by (auto simp: parsePacketLiteWithHeader_def split: sum.splits prod.splits if_splits)
  have "skipQuestions request 12 (unat (QDCount ?h)) = (stop, None)"
    using skipQuestions_parse(1) [OF pq] .
  moreover have "12 \<le> stop \<and> stop \<le> length request" using parseQuestions_bounds [OF pq len] .
  ultimately show ?thesis
    using len likely
    by (simp add: buildResponseWithRCodeLite_def buildResponseWithFlagsLite_def buildResponseWithRCode_def
        Let_def parsed split: prod.splits)
qed

theorem lite_response_agrees_witness:
  "\<exists>parsed. ParseDNSRequestLite [0, 7, 1, 0, 0, 1, 0, 0, 0, 0, 0, 0, 1, 65, 0, 0, 16, 0, 1] = Inr parsed \<and>
    buildResponseWithRCodeLite [0, 7, 1, 0, 0, 1, 0, 0, 0, 0, 0, 0, 1, 65, 0, 0, 16, 0, 1] parsed 3 =
    buildResponseWithRCode [0, 7, 1, 0, 0, 1, 0, 0, 0, 0, 0, 0, 1, 65, 0, 0, 16, 0, 1] 3"
proof -
  let ?d = "[0, 7, 1, 0, 0, 1, 0, 0, 0, 0, 0, 0, 1, 65, 0, 0, 16, 0, 1] :: bytes"
  have "parseName ?d 12 = Inr ([97], 15)"
    using parseName_wireName [of 12 ?d "[[65]]" "[0, 16, 0, 1]"]
    by (simp add: wireName_def labelsOk_def asciiLower_def)
  then obtain parsed where "ParseDNSRequestLite ?d = Inr parsed"
    by (simp add: ParseDNSRequestLite_def isLikelyDNSRequestHeader_def isLikelyDNSMessageHeader_def
        parseHeader_def rd16_def join16_def parsePacketLiteWithHeader_def)
  with lite_response_agrees [OF this] show ?thesis by blast
qed

end
