(* ===== verification/Codec.thy ===== *)
theory Codec
  imports Base_Codec
begin

text \<open>
  Frame encryption (\<open>internal/security/codec.go\<close>): the six methods behind \<open>NewCodec\<close>, key derivation,
  and the composition with the base 36 text encoding. The ciphers and hashes are parameters, bundled
  in \<open>crypto\<close>, with their documented behaviour as the hypothesis \<open>crypto_ok\<close>; the XOR method is
  modelled completely. Randomness is an argument: \<open>rand n\<close> is what \<open>rand.Read\<close> of \<open>n\<close> bytes gives.
\<close>

section \<open>Ciphers the codec calls\<close>

record aead =
  aeadSeal :: "bytes \<Rightarrow> bytes \<Rightarrow> bytes"
  aeadOpen :: "bytes \<Rightarrow> bytes \<Rightarrow> bytes option"
  aeadOverhead :: nat

record crypto =
  sha256Sum :: "bytes \<Rightarrow> bytes"
  md5Sum :: "bytes \<Rightarrow> bytes"
  chachaXOR :: "bytes \<Rightarrow> bytes \<Rightarrow> (u32 \<Rightarrow> bytes \<Rightarrow> bytes option) option"
  gcmFor :: "bytes \<Rightarrow> aead option"

type_synonym entropy = "nat \<Rightarrow> bytes option"

text \<open>
  Documented behaviour: digest sizes; \<open>NewUnauthenticatedCipher\<close> accepts a 32-byte key and a 12-byte
  nonce; from the block counter that \<open>SetCounter\<close> sets, \<open>XORKeyStream\<close> needs one 64-byte block per 64 bytes
  begun and panics (\<open>None\<close>) when the 32-bit counter has not that many blocks left; otherwise it is an
  involution of the same length at equal counters; AES-GCM accepts 16, 24 and 32-byte keys, and
  opening a sealed text under the same nonce returns the plaintext.
\<close>

definition counterFits :: "u32 \<Rightarrow> nat \<Rightarrow> bool" where
  "counterFits counter n \<longleftrightarrow> unat counter + (n + 63) div 64 \<le> 2 ^ 32"

definition streamCipher :: "(u32 \<Rightarrow> bytes \<Rightarrow> bytes option) \<Rightarrow> bool" where
  "streamCipher f \<longleftrightarrow>
     (\<forall>c d. if counterFits c (length d) then \<exists>e. f c d = Some e \<and> length e = length d \<and> f c e = Some d
           else f c d = None)"

definition crypto_ok :: "crypto \<Rightarrow> bool" where
  "crypto_ok cp \<longleftrightarrow>
     (\<forall>x. length (sha256Sum cp x) = 32) \<and> (\<forall>x. length (md5Sum cp x) = 16) \<and>
     (\<forall>k n. length k = 32 \<and> length n = 12 \<longrightarrow>
        (\<exists>f. chachaXOR cp k n = Some f \<and> streamCipher f)) \<and>
     (\<forall>k. length k \<in> {16, 24, 32} \<longrightarrow>
        (\<exists>a. gcmFor cp k = Some a \<and>
           (\<forall>n p. length n = 12 \<longrightarrow>
              aeadOpen a n (aeadSeal a n p) = Some p \<and>
              length (aeadSeal a n p) = length p + aeadOverhead a)))"

text \<open>The last two are not error values of the code but its panics: index out of range and counter overflow.\<close>

datatype codecError =
    ErrInvalidCodecMethod
  | ErrInvalidCiphertext
  | ErrNonceSource
  | ErrCipherSetup
  | ErrBaseCodec baseError
  | PanicIndexRange
  | PanicCounterOverflow

section \<open>The codec\<close>

record codec =
  cmethod :: int
  ckey :: bytes
  cencrypt :: "entropy \<Rightarrow> bytes \<Rightarrow> codecError + bytes"
  cdecrypt :: "bytes \<Rightarrow> codecError + bytes"

abbreviation (input) chachaNonceSize :: nat where "chachaNonceSize \<equiv> 16"
abbreviation (input) aesNonceSize :: nat where "aesNonceSize \<equiv> 12"

definition requiredDerivedKeyLength :: "int \<Rightarrow> nat" where
  "requiredDerivedKeyLength mth =
     (if mth = 2 \<or> mth = 5 then 32 else if mth = 3 then 16 else if mth = 4 then 24 else 32)"

definition deriveKey :: "crypto \<Rightarrow> int \<Rightarrow> gostring \<Rightarrow> bytes" where
  "deriveKey cp mth rawKey =
     (let targetLen = requiredDerivedKeyLength mth
      in if mth = 2 \<or> mth = 5 then sha256Sum cp rawKey
         else if mth = 3 then md5Sum cp rawKey
         else take targetLen (rawKey @ replicate targetLen 0))"

definition noCrypto :: "bytes \<Rightarrow> codecError + bytes" where
  "noCrypto data = Inr data"

text \<open>The block loop of \<open>xorCrypto\<close>: whole key lengths, then the remainder.\<close>

function xorBlocks :: "bytes \<Rightarrow> bytes \<Rightarrow> bytes" where
  "xorBlocks key data =
     (if key \<noteq> [] \<and> length key \<le> length data
      then map2 (XOR) (take (length key) data) key @ xorBlocks key (drop (length key) data)
      else map2 (XOR) data key)"
  by pat_completeness auto
termination by (relation "measure (\<lambda>(key, data). length data)") (auto intro!: diff_less)

declare xorBlocks.simps [simp del]

definition xorCrypto :: "bytes \<Rightarrow> bytes \<Rightarrow> codecError + bytes" where
  "xorCrypto key data =
     (if data = [] \<or> key = [] then Inr data
      else if length key = 1 then Inr (map (\<lambda>b. b XOR key ! 0) data)
      else Inr (xorBlocks key data))"

definition le32 :: "bytes \<Rightarrow> u32" where
  "le32 b = ucast (b ! 0) OR push_bit 8 (ucast (b ! 1)) OR push_bit 16 (ucast (b ! 2)) OR push_bit 24 (ucast (b ! 3))"

definition chachaEncrypt :: "crypto \<Rightarrow> bytes \<Rightarrow> entropy \<Rightarrow> bytes \<Rightarrow> codecError + bytes" where
  "chachaEncrypt cp key rand data =
     (if data = [] then Inr []
      else case rand chachaNonceSize of
        None \<Rightarrow> Inl ErrNonceSource
      | Some nonce \<Rightarrow>
          (case chachaXOR cp key (drop 4 nonce) of
             None \<Rightarrow> Inl ErrCipherSetup
           | Some stream \<Rightarrow>
               (case stream (le32 (take 4 nonce)) data of
                  None \<Rightarrow> Inl PanicCounterOverflow
                | Some out \<Rightarrow> Inr (nonce @ out))))"

definition chachaDecrypt :: "crypto \<Rightarrow> bytes \<Rightarrow> bytes \<Rightarrow> codecError + bytes" where
  "chachaDecrypt cp key data =
     (if data = [] then Inr []
      else if length data \<le> chachaNonceSize then Inl ErrInvalidCiphertext
      else
        let nonce = take chachaNonceSize data; ciphertext = drop chachaNonceSize data
        in case chachaXOR cp key (drop 4 nonce) of
             None \<Rightarrow> Inl ErrCipherSetup
           | Some stream \<Rightarrow>
               (case stream (le32 (take 4 nonce)) ciphertext of
                  None \<Rightarrow> Inl PanicCounterOverflow
                | Some out \<Rightarrow> Inr out))"

definition makeAESEncryptor :: "aead \<Rightarrow> entropy \<Rightarrow> bytes \<Rightarrow> codecError + bytes" where
  "makeAESEncryptor a rand src =
     (if src = [] then Inr []
      else case rand aesNonceSize of
        None \<Rightarrow> Inl ErrNonceSource
      | Some nonce \<Rightarrow> Inr (nonce @ aeadSeal a nonce src))"

definition makeAESDecryptor :: "aead \<Rightarrow> bytes \<Rightarrow> codecError + bytes" where
  "makeAESDecryptor a src =
     (if src = [] then Inr []
      else if length src \<le> aesNonceSize then Inl ErrInvalidCiphertext
      else case aeadOpen a (take aesNonceSize src) (drop aesNonceSize src) of
        None \<Rightarrow> Inl ErrInvalidCiphertext
      | Some plaintext \<Rightarrow> Inr plaintext)"

definition newAESGCM :: "crypto \<Rightarrow> bytes \<Rightarrow> codecError + aead" where
  "newAESGCM cp key = (case gcmFor cp key of None \<Rightarrow> Inl ErrCipherSetup | Some a \<Rightarrow> Inr a)"

definition NewCodec :: "crypto \<Rightarrow> int \<Rightarrow> gostring \<Rightarrow> codecError + codec" where
  "NewCodec cp mth rawKey =
     (if mth < 0 \<or> 5 < mth then Inl ErrInvalidCodecMethod
      else
        let derivedKey = deriveKey cp mth rawKey
        in if mth = 0 then
             Inr \<lparr>cmethod = mth, ckey = derivedKey, cencrypt = (\<lambda>rand. noCrypto), cdecrypt = noCrypto\<rparr>
           else if mth = 1 then
             Inr \<lparr>cmethod = mth, ckey = derivedKey, cencrypt = (\<lambda>rand. xorCrypto derivedKey),
                  cdecrypt = xorCrypto derivedKey\<rparr>
           else if mth = 2 then
             Inr \<lparr>cmethod = mth, ckey = derivedKey, cencrypt = chachaEncrypt cp derivedKey,
                  cdecrypt = chachaDecrypt cp derivedKey\<rparr>
           else case newAESGCM cp derivedKey of
             Inl err \<Rightarrow> Inl err
           | Inr a \<Rightarrow> Inr \<lparr>cmethod = mth, ckey = derivedKey, cencrypt = makeAESEncryptor a,
                            cdecrypt = makeAESDecryptor a\<rparr>)"

text \<open>A nil codec is \<open>None\<close>.\<close>

definition Encrypt :: "codec option \<Rightarrow> entropy \<Rightarrow> bytes \<Rightarrow> codecError + bytes" where
  "Encrypt c rand data =
     (case c of None \<Rightarrow> Inl ErrInvalidCodecMethod | Some c \<Rightarrow> cencrypt c rand data)"

definition Decrypt :: "codec option \<Rightarrow> bytes \<Rightarrow> codecError + bytes" where
  "Decrypt c data = (case c of None \<Rightarrow> Inl ErrInvalidCodecMethod | Some c \<Rightarrow> cdecrypt c data)"

definition codecMethod :: "codec option \<Rightarrow> int" where
  "codecMethod c = (case c of None \<Rightarrow> 0 | Some c \<Rightarrow> cmethod c)"

text \<open>\<open>Encode\<close> cannot fail (lemma \<open>Encode_eq\<close>); \<open>the\<close> stands for its plain return.\<close>

definition orPanic :: "'a option \<Rightarrow> codecError + 'a" where
  "orPanic x = (case x of None \<Rightarrow> Inl PanicIndexRange | Some y \<Rightarrow> Inr y)"

lemma orPanic_Some [simp]: "orPanic (Some y) = Inr y"
  by (simp add: orPanic_def)

definition EncryptAndEncode :: "codec option \<Rightarrow> entropy \<Rightarrow> bytes \<Rightarrow> codecError + gostring" where
  "EncryptAndEncode c rand data =
     (case c of None \<Rightarrow> Inl ErrInvalidCodecMethod
      | Some c \<Rightarrow>
          if cmethod c = 0 then orPanic (Encode data)
          else case cencrypt c rand data of
            Inl err \<Rightarrow> Inl err
          | Inr encrypted \<Rightarrow> orPanic (Encode encrypted))"

definition EncryptAndEncodeBytes :: "codec option \<Rightarrow> entropy \<Rightarrow> bytes \<Rightarrow> codecError + bytes" where
  "EncryptAndEncodeBytes c rand data =
     (case c of None \<Rightarrow> Inl ErrInvalidCodecMethod
      | Some c \<Rightarrow>
          if cmethod c = 0 then orPanic (EncodeToBytes data)
          else case cencrypt c rand data of
            Inl err \<Rightarrow> Inl err
          | Inr encrypted \<Rightarrow> orPanic (EncodeToBytes encrypted))"

definition DecodeAndDecrypt :: "codec option \<Rightarrow> bytes \<Rightarrow> codecError + bytes" where
  "DecodeAndDecrypt c data =
     (case c of None \<Rightarrow> Inl ErrInvalidCodecMethod
      | Some c \<Rightarrow>
          (case Decode data of
             Inl err \<Rightarrow> Inl (ErrBaseCodec err)
           | Inr decoded \<Rightarrow> if cmethod c = 0 then Inr decoded else cdecrypt c decoded))"

definition DecodeStringAndDecrypt :: "codec option \<Rightarrow> gostring \<Rightarrow> codecError + bytes" where
  "DecodeStringAndDecrypt c data =
     (case c of None \<Rightarrow> Inl ErrInvalidCodecMethod
      | Some c \<Rightarrow>
          (case DecodeString data of
             Inl err \<Rightarrow> Inl (ErrBaseCodec err)
           | Inr decoded \<Rightarrow> if cmethod c = 0 then Inr decoded else cdecrypt c decoded))"

section \<open>Every method is invertible\<close>

lemma map2_XOR_twice:
  "length data \<le> length key \<Longrightarrow> map2 (XOR) (map2 (XOR) data key) key = (data :: bytes)"
proof (induction data arbitrary: key)
  case (Cons b data)
  then show ?case by (cases key) (auto simp: xor.assoc)
qed simp

lemma length_xorBlocks [simp]: "key \<noteq> [] \<Longrightarrow> length (xorBlocks key data) = length data"
proof (induction key data rule: xorBlocks.induct)
  case (1 key data)
  then show ?case by (auto simp: xorBlocks.simps [of key data])
qed

lemma xorBlocks_twice: "key \<noteq> [] \<Longrightarrow> xorBlocks key (xorBlocks key data) = data"
proof (induction key data rule: xorBlocks.induct)
  case (1 key data)
  show ?case
  proof (cases "length key \<le> length data")
    case True
    let ?a = "map2 (XOR) (take (length key) data) key" and ?r = "xorBlocks key (drop (length key) data)"
    have e: "xorBlocks key data = ?a @ ?r" using True "1.prems" by (simp add: xorBlocks.simps [of key data])
    have "xorBlocks key (?a @ ?r) = map2 (XOR) ?a key @ xorBlocks key ?r"
      using True "1.prems" by (simp add: xorBlocks.simps [of key "?a @ ?r"])
    then show ?thesis
      using 1 True map2_XOR_twice [of "take (length key) data" key] by (simp add: e)
  next
    case False
    then have e: "xorBlocks key data = map2 (XOR) data key" by (simp add: xorBlocks.simps [of key data])
    have "xorBlocks key (map2 (XOR) data key) = map2 (XOR) (map2 (XOR) data key) key"
      using False by (simp add: xorBlocks.simps [of key "map2 (XOR) data key"])
    then show ?thesis using False by (simp add: e map2_XOR_twice)
  qed
qed

lemma xorBlocks_eq_Nil: "key \<noteq> [] \<Longrightarrow> xorBlocks key data = [] \<longleftrightarrow> data = []"
  using length_xorBlocks [of key data] by (metis length_0_conv)

lemma xorCrypto_twice: "xorCrypto key data = Inr e \<Longrightarrow> xorCrypto key e = Inr data"
  using xorBlocks_eq_Nil [of key data] xorBlocks_twice [of key data] length_xorBlocks [of key data]
  by (auto simp: xorCrypto_def xor.assoc comp_def split: if_splits)

definition entropy_ok :: "entropy \<Rightarrow> bool" where
  "entropy_ok rand \<longleftrightarrow> (\<forall>n. \<exists>r. rand n = Some r \<and> length r = n)"

text \<open>The counter that the random nonce of method 2 starts with leaves room for the data.\<close>

definition counterRoom :: "entropy \<Rightarrow> bytes \<Rightarrow> bool" where
  "counterRoom rand data \<longleftrightarrow>
     data = [] \<or> (case rand chachaNonceSize of None \<Rightarrow> False | Some nonce \<Rightarrow> counterFits (le32 (take 4 nonce)) (length data))"

lemma chacha_round_trip:
  assumes ok: "crypto_ok cp" and k: "length key = 32" and r: "entropy_ok rand"
  shows "if counterRoom rand data then \<exists>e. chachaEncrypt cp key rand data = Inr e \<and> chachaDecrypt cp key e = Inr data
    else chachaEncrypt cp key rand data = Inl PanicCounterOverflow"
proof (cases "data = []")
  case True
  then show ?thesis by (simp add: counterRoom_def chachaEncrypt_def chachaDecrypt_def)
next
  case False
  obtain nonce where n: "rand 16 = Some nonce" "length nonce = 16" using r by (auto simp: entropy_ok_def)
  then have "length (drop 4 nonce) = 12" by simp
  then obtain f where f: "chachaXOR cp key (drop 4 nonce) = Some f" "streamCipher f"
    using ok k unfolding crypto_ok_def by blast
  let ?c = "le32 (take 4 nonce)"
  have cases: "if counterFits ?c (length data) then \<exists>e. f ?c data = Some e \<and> length e = length data \<and> f ?c e = Some data
      else f ?c data = None"
    using f(2) unfolding streamCipher_def by blast
  show ?thesis
  proof (cases "counterFits ?c (length data)")
    case True
    then obtain e where "f ?c data = Some e" "length e = length data" "f ?c e = Some data" using cases by auto
    with True False n f(1) show ?thesis
      by (auto simp: counterRoom_def chachaEncrypt_def chachaDecrypt_def Let_def)
  next
    case False
    with cases n f(1) \<open>data \<noteq> []\<close> show ?thesis by (simp add: counterRoom_def chachaEncrypt_def)
  qed
qed

lemma aes_round_trip:
  assumes a: "\<And>n p. length n = 12 \<Longrightarrow> aeadOpen a n (aeadSeal a n p) = Some p \<and>
      length (aeadSeal a n p) = length p + aeadOverhead a"
    and r: "entropy_ok rand"
  shows "\<exists>e. makeAESEncryptor a rand data = Inr e \<and> makeAESDecryptor a e = Inr data"
proof -
  obtain nonce where n: "rand 12 = Some nonce" "length nonce = 12" using r by (auto simp: entropy_ok_def)
  have "data \<noteq> [] \<Longrightarrow> aeadSeal a nonce data \<noteq> []" using a [OF n(2), of data] by auto
  then show ?thesis
    using n a [OF n(2)] by (auto simp: makeAESEncryptor_def makeAESDecryptor_def)
qed

lemma length_deriveKey:
  "crypto_ok cp \<Longrightarrow> 0 \<le> mth \<Longrightarrow> mth \<le> 5 \<Longrightarrow> length (deriveKey cp mth rawKey) = requiredDerivedKeyLength mth"
  by (auto simp: deriveKey_def requiredDerivedKeyLength_def crypto_ok_def Let_def)

lemma NewCodec_cipher:
  assumes ok: "crypto_ok cp" and m: "0 \<le> mth" "mth \<le> 5" and r: "entropy_ok rand"
  shows "\<exists>c. NewCodec cp mth rawKey = Inr c \<and> cmethod c = mth \<and>
    (\<forall>data. if mth = 2 \<and> \<not> counterRoom rand data then cencrypt c rand data = Inl PanicCounterOverflow
            else \<exists>e. cencrypt c rand data = Inr e \<and> cdecrypt c e = Inr data)"
proof -
  let ?k = "deriveKey cp mth rawKey"
  note len = length_deriveKey [OF ok m, of rawKey]
  consider "mth = 0" | "mth = 1" | "mth = 2" | (aes) "3 \<le> mth" using m by linarith
  then show ?thesis
  proof cases
    case 1
    then show ?thesis by (simp add: NewCodec_def Let_def noCrypto_def)
  next
    case 2
    have "\<exists>e. xorCrypto ?k data = Inr e \<and> xorCrypto ?k e = Inr data" for data
      using xorCrypto_twice [of ?k data] by (auto simp: xorCrypto_def split: if_splits)
    with 2 show ?thesis by (simp add: NewCodec_def Let_def)
  next
    case 3
    then have "length ?k = 32" using len by (simp add: requiredDerivedKeyLength_def)
    with 3 show ?thesis
      using chacha_round_trip [OF ok _ r, of ?k] by (auto simp: NewCodec_def Let_def)
  next
    case aes
    then have "length ?k \<in> {16, 24, 32}" using len m by (simp add: requiredDerivedKeyLength_def)
    then obtain a where a: "gcmFor cp ?k = Some a" "\<And>n p. length n = 12 \<Longrightarrow>
        aeadOpen a n (aeadSeal a n p) = Some p \<and> length (aeadSeal a n p) = length p + aeadOverhead a"
      using ok unfolding crypto_ok_def by blast
    with aes m aes_round_trip [OF a(2) r] show ?thesis
      by (simp add: NewCodec_def Let_def newAESGCM_def)
  qed
qed

lemma NewCodec_round_trip:
  assumes ok: "crypto_ok cp" and m: "0 \<le> mth" "mth \<le> 5" and r: "entropy_ok rand"
  shows "\<exists>c. NewCodec cp mth rawKey = Inr c \<and>
    (\<forall>data. if mth = 2 \<and> \<not> counterRoom rand data then EncryptAndEncode (Some c) rand data = Inl PanicCounterOverflow
      else \<exists>t. EncryptAndEncode (Some c) rand data = Inr t \<and> set t \<subseteq> set lowerBase36Alphabet \<and>
        (\<forall>text'. map asciiLower text' = t \<longrightarrow> DecodeStringAndDecrypt (Some c) text' = Inr data))"
proof -
  obtain c where c: "NewCodec cp mth rawKey = Inr c" "cmethod c = mth"
      "\<And>data. if mth = 2 \<and> \<not> counterRoom rand data then cencrypt c rand data = Inl PanicCounterOverflow
        else \<exists>e. cencrypt c rand data = Inr e \<and> cdecrypt c e = Inr data"
    using NewCodec_cipher [OF assms] by blast
  have dec: "DecodeString text' = Inr d" if "map asciiLower text' = encodeBlocks d" for text' d
    using Decode_lower [OF that] by (simp add: DecodeString_def DecodeLowerBase36String_def Decode_def)
  have "\<exists>t. EncryptAndEncode (Some c) rand data = Inr t \<and> set t \<subseteq> set lowerBase36Alphabet \<and>
      (\<forall>text'. map asciiLower text' = t \<longrightarrow> DecodeStringAndDecrypt (Some c) text' = Inr data)"
    if "\<not> (mth = 2 \<and> \<not> counterRoom rand data)" for data
    using c(3) [of data] that dec set_encodeBlocks
    by (cases "cmethod c = 0") (auto simp: EncryptAndEncode_def DecodeStringAndDecrypt_def Encode_eq)
  moreover have "EncryptAndEncode (Some c) rand data = Inl PanicCounterOverflow" if "mth = 2 \<and> \<not> counterRoom rand data" for data
    using c(2) c(3) [of data] that by (simp add: EncryptAndEncode_def)
  ultimately show ?thesis using c(1) by auto
qed

section \<open>An instance of the hypotheses\<close>

text \<open>Toy ciphers with the documented laws, for concrete runs of the model.\<close>

definition demoCrypto :: crypto where
  "demoCrypto =
     \<lparr>sha256Sum = \<lambda>_. replicate 32 1, md5Sum = \<lambda>_. replicate 16 1,
      chachaXOR = \<lambda>k n. Some (\<lambda>c d. if counterFits c (length d) then Some (map (\<lambda>b. b XOR 5) d) else None),
      gcmFor = \<lambda>k. Some \<lparr>aeadSeal = \<lambda>n p. p @ replicate 16 0,
        aeadOpen = \<lambda>n c. Some (take (length c - 16) c), aeadOverhead = 16\<rparr>\<rparr>"

lemma demoCrypto_ok: "crypto_ok demoCrypto"
  by (simp add: demoCrypto_def crypto_ok_def streamCipher_def xor.assoc comp_def)

lemma demoEntropy_ok: "entropy_ok (\<lambda>n. Some (replicate n 7))"
  by (simp add: entropy_ok_def)

lemma map_asciiLower_alphabet: "set t \<subseteq> set lowerBase36Alphabet \<Longrightarrow> map asciiLower t = t"
  by (intro map_idI) (auto intro: asciiLower_alphabet)

section \<open>Properties\<close>

text \<open>
  C4. For each of the six methods a codec is created. Encrypting and encoding any data succeeds
  whenever the random source does, the text stays inside the host-name alphabet, and decoding and
  decrypting any case variant of it returns the data; the one exception is ChaCha20 (method 2), which
  panics exactly when the block counter taken from the random nonce leaves too few blocks for the
  data. The ciphers enter with their documented behaviour only.
\<close>

theorem codec_round_trip:
  assumes "crypto_ok cp" "0 \<le> mth" "mth \<le> 5" "entropy_ok rand"
  shows "\<exists>c. NewCodec cp mth rawKey = Inr c \<and>
    (if mth = 2 \<and> \<not> counterRoom rand data then EncryptAndEncode (Some c) rand data = Inl PanicCounterOverflow
     else \<exists>t. EncryptAndEncode (Some c) rand data = Inr t \<and> set t \<subseteq> set lowerBase36Alphabet \<and>
       (\<forall>text'. map asciiLower text' = t \<longrightarrow> DecodeStringAndDecrypt (Some c) text' = Inr data))"
  using NewCodec_round_trip [OF assms] by blast

lemma demoRoom: "counterRoom (\<lambda>n. Some (replicate n 7)) [9]"
proof -
  have "take 4 (replicate 16 (7 :: u8)) = [7, 7, 7, 7]" by (simp add: numeral_eq_Suc)
  then show ?thesis by (simp add: counterRoom_def counterFits_def le32_def)
qed

theorem codec_round_trip_witness:
  "\<exists>c t. NewCodec demoCrypto 2 [1, 2] = Inr c \<and>
    EncryptAndEncode (Some c) (\<lambda>n. Some (replicate n 7)) [9] = Inr t \<and>
    DecodeStringAndDecrypt (Some c) t = Inr [9]"
proof -
  obtain c t where "NewCodec demoCrypto 2 [1, 2] = Inr c"
      "EncryptAndEncode (Some c) (\<lambda>n. Some (replicate n 7)) [9] = Inr t"
      "set t \<subseteq> set lowerBase36Alphabet"
      "\<forall>text'. map asciiLower text' = t \<longrightarrow> DecodeStringAndDecrypt (Some c) text' = Inr [9]"
    using codec_round_trip [OF demoCrypto_ok _ _ demoEntropy_ok, of 2 "[1, 2]" "[9]"] demoRoom by auto
  then show ?thesis using map_asciiLower_alphabet by blast
qed

text \<open>
  C33. A received text can make ChaCha20 decryption panic: under every key, any text whose decoded
  bytes begin with four bytes 255, the largest block counter, and carry more than 64 bytes behind the
  16-byte nonce panics in place of being refused as invalid. No knowledge of the key is needed to send it.
\<close>

theorem chacha_counter_panic:
  assumes "crypto_ok cp" "NewCodec cp 2 rawKey = Inr c" "length n = 12" "64 < length body"
    and "map asciiLower text' = encodeBlocks (replicate 4 255 @ n @ body)"
  shows "DecodeStringAndDecrypt (Some c) text' = Inl PanicCounterOverflow"
proof -
  let ?k = "deriveKey cp 2 rawKey"
  have c: "cdecrypt c = chachaDecrypt cp ?k" "cmethod c = 2" using assms(2) by (auto simp: NewCodec_def Let_def)
  have "length ?k = 32" using length_deriveKey [OF assms(1), of 2 rawKey] by (simp add: requiredDerivedKeyLength_def)
  then obtain f where f: "chachaXOR cp ?k n = Some f" "streamCipher f"
    using assms(1,3) unfolding crypto_ok_def by blast
  have "\<not> counterFits 0xFFFFFFFF (length body)" using assms(4) by (simp add: counterFits_def)
  then have "f 0xFFFFFFFF body = None" using f(2) unfolding streamCipher_def by metis
  moreover have "le32 [255, 255, 255, 255] = 0xFFFFFFFF" by (simp add: le32_def)
  ultimately have "chachaDecrypt cp ?k (replicate 4 255 @ n @ body) = Inl PanicCounterOverflow"
    using assms(3,4) f(1) by (auto simp: chachaDecrypt_def numeral_eq_Suc Let_def)
  then show ?thesis
    using Decode_lower [OF assms(5)] c
    by (simp add: DecodeStringAndDecrypt_def DecodeString_def DecodeLowerBase36String_def Decode_def)
qed

theorem chacha_counter_panic_witness:
  "\<exists>c text'. NewCodec demoCrypto 2 [1, 2] = Inr c \<and> length text' = 128 \<and>
    DecodeStringAndDecrypt (Some c) text' = Inl PanicCounterOverflow"
proof -
  let ?b = "replicate 4 255 @ replicate 12 1 @ replicate 65 2"
  obtain c where c: "NewCodec demoCrypto 2 [1, 2] = Inr c"
    using NewCodec_cipher [OF demoCrypto_ok _ _ demoEntropy_ok, of 2 "[1, 2]"] by auto
  have "map asciiLower (encodeBlocks ?b) = encodeBlocks ?b" by (intro map_asciiLower_alphabet set_encodeBlocks)
  then have "DecodeStringAndDecrypt (Some c) (encodeBlocks ?b) = Inl PanicCounterOverflow"
    using chacha_counter_panic [OF demoCrypto_ok c, of "replicate 12 1" "replicate 65 2"] by simp
  moreover have "length (encodeBlocks ?b) = 128" by (simp add: length_encodeBlocks lowerBase36EncodedCharsByBytes_def)
  ultimately show ?thesis using c by blast
qed

end
