(* ===== verification/Compression.thy ===== *)
theory Compression
  imports Prelude
begin

text \<open>
  Payload compression (\<open>internal/compression/types.go\<close>): type normalisation, the packed pair of
  directions exchanged at session set-up, and the guarded compress and decompress entry points. The
  three compressors are parameters with their documented inverses as the hypothesis \<open>compressors_ok\<close>;
  what is shown is that the guards around them keep every payload recoverable and never enlarge it.
\<close>

abbreviation (input) TypeOff :: u8 where "TypeOff \<equiv> 0"
abbreviation (input) TypeZSTD :: u8 where "TypeZSTD \<equiv> 1"
abbreviation (input) TypeLZ4 :: u8 where "TypeLZ4 \<equiv> 2"
abbreviation (input) TypeZLIB :: u8 where "TypeZLIB \<equiv> 3"
abbreviation (input) DefaultMinSize :: int where "DefaultMinSize \<equiv> 100"
abbreviation (input) maxDecompressedSize :: nat where "maxDecompressedSize \<equiv> 10485760"

definition availableTypeMask :: u8 where
  "availableTypeMask = push_bit 0 1 OR push_bit 1 1 OR push_bit 2 1 OR push_bit 3 1"

definition normalizedPackedPairNibble :: "u8 list" where
  "normalizedPackedPairNibble =
     [TypeOff, TypeZSTD, TypeLZ4, TypeZLIB, TypeOff, TypeOff, TypeOff, TypeOff,
      TypeOff, TypeOff, TypeOff, TypeOff, TypeOff, TypeOff, TypeOff, TypeOff]"

definition NormalizeType :: "u8 \<Rightarrow> u8" where
  "NormalizeType val = (if val \<le> TypeZLIB then val else TypeOff)"

definition IsTypeAvailable :: "u8 \<Rightarrow> bool" where
  "IsTypeAvailable val =
     (let val = NormalizeType val in availableTypeMask AND push_bit (unat val) 1 \<noteq> 0)"

definition NormalizeAvailableType :: "u8 \<Rightarrow> u8" where
  "NormalizeAvailableType val =
     (if TypeZLIB < val \<or> availableTypeMask AND push_bit (unat val) 1 = 0 then TypeOff else val)"

definition PackPair :: "u8 \<Rightarrow> u8 \<Rightarrow> u8" where
  "PackPair uploadType downloadType =
     (let uploadType = (if TypeZLIB < uploadType then TypeOff else uploadType);
          downloadType = (if TypeZLIB < downloadType then TypeOff else downloadType)
      in push_bit 4 uploadType OR downloadType)"

definition SplitPair :: "u8 \<Rightarrow> u8 \<times> u8" where
  "SplitPair val =
     (normalizedPackedPairNibble ! unat (drop_bit 4 val AND 0x0F),
      normalizedPackedPairNibble ! unat (val AND 0x0F))"

definition TypeName :: "u8 \<Rightarrow> string" where
  "TypeName val =
     (let v = NormalizeType val
      in if v = TypeZSTD then ''ZSTD'' else if v = TypeLZ4 then ''LZ4''
         else if v = TypeZLIB then ''ZLIB'' else ''OFF'')"

section \<open>The compressors\<close>

text \<open>
  \<open>flateRead n src\<close> reads at most \<open>n\<close> bytes of the inflated stream and reports the unread input;
  \<open>zstdRead n src\<close> reads at most \<open>n\<close> bytes of the decoded stream; \<open>lz4Uncompress src n\<close> decodes a
  block into a buffer of \<open>n\<close> bytes. \<open>None\<close> is an error.
\<close>

record compressors =
  flateWrite :: "bytes \<Rightarrow> bytes option"
  flateRead :: "nat \<Rightarrow> bytes \<Rightarrow> (bytes \<times> nat) option"
  zstdEncodeAll :: "bytes \<Rightarrow> bytes"
  zstdRead :: "nat \<Rightarrow> bytes \<Rightarrow> bytes option"
  lz4CompressBlock :: "bytes \<Rightarrow> bytes option"
  lz4Uncompress :: "bytes \<Rightarrow> nat \<Rightarrow> bytes option"

definition compressors_ok :: "compressors \<Rightarrow> bool" where
  "compressors_ok cs \<longleftrightarrow>
     (\<forall>d c n. flateWrite cs d = Some c \<and> length d < n \<longrightarrow> c \<noteq> [] \<and> flateRead cs n c = Some (d, 0)) \<and>
     (\<forall>d n. d \<noteq> [] \<and> length d < n \<longrightarrow> zstdEncodeAll cs d \<noteq> [] \<and> zstdRead cs n (zstdEncodeAll cs d) = Some d) \<and>
     (\<forall>d c. lz4CompressBlock cs d = Some c \<and> c \<noteq> [] \<longrightarrow> lz4Uncompress cs c (length d) = Some d)"

definition le32_bytes :: "u32 \<Rightarrow> bytes" where
  "le32_bytes w = [ucast w, ucast (drop_bit 8 w), ucast (drop_bit 16 w), ucast (drop_bit 24 w)]"

definition le32_read :: "bytes \<Rightarrow> u32" where
  "le32_read b = ucast (b ! 0) OR push_bit 8 (ucast (b ! 1)) OR push_bit 16 (ucast (b ! 2)) OR push_bit 24 (ucast (b ! 3))"

definition compressZLIB :: "compressors \<Rightarrow> bytes \<Rightarrow> bytes option" where
  "compressZLIB cs data = flateWrite cs data"

definition decompressZLIB :: "compressors \<Rightarrow> bytes \<Rightarrow> bytes option" where
  "decompressZLIB cs data =
     (case flateRead cs (maxDecompressedSize + 1) data of
        None \<Rightarrow> None
      | Some (buffer, unread) \<Rightarrow>
          if unread \<noteq> 0 then None
          else if maxDecompressedSize < length buffer then None
          else Some buffer)"

definition compressZSTD :: "compressors \<Rightarrow> bytes \<Rightarrow> bytes option" where
  "compressZSTD cs data = Some (zstdEncodeAll cs data)"

definition decompressZSTD :: "compressors \<Rightarrow> bytes \<Rightarrow> bytes option" where
  "decompressZSTD cs data =
     (case zstdRead cs (maxDecompressedSize + 1) data of
        None \<Rightarrow> None
      | Some buffer \<Rightarrow> if maxDecompressedSize < length buffer then None else Some buffer)"

definition compressLZ4 :: "compressors \<Rightarrow> bytes \<Rightarrow> bytes option" where
  "compressLZ4 cs data =
     (case lz4CompressBlock cs data of
        None \<Rightarrow> None
      | Some out \<Rightarrow> if out = [] then None else Some (le32_bytes (of_nat (length data)) @ out))"

definition decompressLZ4 :: "compressors \<Rightarrow> bytes \<Rightarrow> bytes option" where
  "decompressLZ4 cs data =
     (if length data < 4 then None
      else
        let origSize = le32_read data
        in if of_nat maxDecompressedSize < origSize then None
           else case lz4Uncompress cs (drop 4 data) (unat origSize) of
             None \<Rightarrow> None
           | Some out \<Rightarrow> if length out \<noteq> unat origSize then None else Some out)"

section \<open>Entry points\<close>

definition CompressPayload :: "compressors \<Rightarrow> bytes \<Rightarrow> u8 \<Rightarrow> int \<Rightarrow> bytes \<times> u8" where
  "CompressPayload cs data compType minSize =
     (if data = [] then (data, TypeOff)
      else
        let compType = NormalizeAvailableType compType
        in if compType = TypeOff then (data, TypeOff)
           else
             let minSize = (if minSize \<le> 0 then DefaultMinSize else minSize)
             in if int (length data) \<le> minSize then (data, TypeOff)
                else
                  case (if compType = TypeZLIB then compressZLIB cs data
                        else if compType = TypeZSTD then compressZSTD cs data
                        else compressLZ4 cs data) of
                    None \<Rightarrow> (data, TypeOff)
                  | Some compData \<Rightarrow>
                      if length data \<le> length compData then (data, TypeOff)
                      else (compData, compType))"

definition TryDecompressPayload :: "compressors \<Rightarrow> bytes \<Rightarrow> u8 \<Rightarrow> bytes option" where
  "TryDecompressPayload cs data compType =
     (if data = [] then Some data
      else
        let compType = NormalizeAvailableType compType
        in if compType = TypeOff then Some data
           else if compType = TypeZLIB then decompressZLIB cs data
           else if compType = TypeZSTD then decompressZSTD cs data
           else decompressLZ4 cs data)"

section \<open>Guards\<close>

lemma u8_le_3: "(v :: u8) \<le> 3 \<longleftrightarrow> v = 0 \<or> v = 1 \<or> v = 2 \<or> v = 3"
proof -
  have "v \<le> 3 \<longleftrightarrow> unat v \<in> {0, 1, 2, 3}" by (auto simp: word_le_nat_alt)
  also have "\<dots> \<longleftrightarrow> v = 0 \<or> v = 1 \<or> v = 2 \<or> v = 3"
    by (auto simp: word_unat_eq_iff [of v])
  finally show ?thesis .
qed

lemma NormalizeAvailableType_eq: "NormalizeAvailableType v = (if v \<le> 3 then v else 0)"
  by (auto simp: NormalizeAvailableType_def not_less u8_le_3 availableTypeMask_def)

lemma NormalizeType_available: "NormalizeAvailableType v = NormalizeType v \<and> IsTypeAvailable v"
  by (auto simp: NormalizeAvailableType_eq NormalizeType_def IsTypeAvailable_def availableTypeMask_def u8_le_3)

lemma SplitPair_PackPair: "SplitPair (PackPair u d) = (NormalizeType u, NormalizeType d)"
proof -
  have *: "SplitPair (PackPair u d) = (u, d)" if "u \<le> 3" "d \<le> 3" for u d
    using that by (auto simp: u8_le_3 SplitPair_def PackPair_def normalizedPackedPairNibble_def)
  have "PackPair u d = PackPair (NormalizeType u) (NormalizeType d)"
    by (auto simp: PackPair_def NormalizeType_def Let_def not_less)
  then show ?thesis by (simp add: * NormalizeType_def)
qed

lemma le32_round_trip: "le32_read (le32_bytes w @ xs) = w"
proof (rule bit_word_eqI)
  fix n assume "n < LENGTH(32)"
  then consider "n < 8" | "8 \<le> n" "n < 16" | "16 \<le> n" "n < 24" | "24 \<le> n" "n < 32" by fastforce
  then show "bit (le32_read (le32_bytes w @ xs)) n = bit w n"
    by cases (auto simp: le32_read_def le32_bytes_def bit_simps)
qed

lemma length_le32_bytes [simp]: "length (le32_bytes w) = 4"
  by (simp add: le32_bytes_def)

lemma decompressLZ4_compress:
  assumes ok: "compressors_ok cs" and len: "length data \<le> 10485760"
    and c: "compressLZ4 cs data = Some packed"
  shows "decompressLZ4 cs packed = Some data"
proof -
  obtain out where out: "lz4CompressBlock cs data = Some out" "out \<noteq> []"
      and packed: "packed = le32_bytes (of_nat (length data)) @ out"
    using c by (auto simp: compressLZ4_def split: option.splits if_splits)
  have u: "unat (of_nat (length data) :: u32) = length data"
    using len by (simp add: unat_of_nat)
  then have "\<not> (of_nat 10485760 :: u32) < of_nat (length data)"
    using len by (simp add: word_less_nat_alt)
  moreover have "lz4Uncompress cs out (length data) = Some data"
    using ok out by (simp add: compressors_ok_def)
  ultimately show ?thesis
    using u by (simp add: packed decompressLZ4_def Let_def le32_round_trip)
qed

lemma decompress_CompressPayload:
  assumes ok: "compressors_ok cs" and len: "length data \<le> 10485760"
    and c: "CompressPayload cs data compType minSize = (out, t)"
  shows "TryDecompressPayload cs out t = Some data \<and> length out \<le> length data \<and>
    (t = TypeOff \<longrightarrow> out = data) \<and> (t \<noteq> TypeOff \<longrightarrow> t = compType \<and> t \<le> TypeZLIB)"
proof (cases "out = data \<and> t = TypeOff")
  case True
  then show ?thesis by (simp add: TryDecompressPayload_def Let_def NormalizeAvailableType_eq)
next
  case False
  let ?cmp = "if compType = 3 then compressZLIB cs data
    else if compType = 1 then compressZSTD cs data else compressLZ4 cs data"
  have t: "t = compType" "compType \<le> 3" "compType \<noteq> 0" "data \<noteq> []" "length out < length data" "?cmp = Some out"
    using c False by (auto simp: CompressPayload_def Let_def NormalizeAvailableType_eq not_le
        split: if_splits option.splits)
  from t(2,3) consider "compType = 1" | "compType = 2" | "compType = 3" by (auto simp: u8_le_3)
  then have "out \<noteq> [] \<and> TryDecompressPayload cs out t = Some data"
  proof cases
    case 1
    then have z: "out = zstdEncodeAll cs data" using t(6) by (simp add: compressZSTD_def)
    have "length data < 10485760 + 1" using len by simp
    with ok t(4) have "out \<noteq> []" "zstdRead cs (10485760 + 1) out = Some data"
      unfolding z compressors_ok_def by blast+
    with 1 t(1) len show ?thesis
      by (simp add: TryDecompressPayload_def NormalizeAvailableType_eq Let_def decompressZSTD_def)
  next
    case 2
    then have l: "compressLZ4 cs data = Some out" using t(6) by simp
    then have "out \<noteq> []" by (auto simp: compressLZ4_def split: option.splits if_splits)
    with 2 t(1) decompressLZ4_compress [OF ok len l] show ?thesis
      by (simp add: TryDecompressPayload_def NormalizeAvailableType_eq Let_def)
  next
    case 3
    then have z: "flateWrite cs data = Some out" using t(6) by (simp add: compressZLIB_def)
    have "length data < 10485760 + 1" using len by simp
    with ok z have "out \<noteq> []" "flateRead cs (10485760 + 1) out = Some (data, 0)"
      unfolding compressors_ok_def by blast+
    with 3 t(1) len show ?thesis
      by (simp add: TryDecompressPayload_def NormalizeAvailableType_eq Let_def decompressZLIB_def)
  qed
  with t show ?thesis by auto
qed

section \<open>An instance of the hypotheses\<close>

text \<open>A run-length block for LZ4 and plain copies with a marker otherwise, for concrete runs.\<close>

definition demoCompressors :: compressors where
  "demoCompressors =
     \<lparr>flateWrite = \<lambda>d. Some (0 # d), flateRead = \<lambda>n s. Some (take n (tl s), 0),
      zstdEncodeAll = \<lambda>d. 0 # d, zstdRead = \<lambda>n s. Some (take n (tl s)),
      lz4CompressBlock = \<lambda>d. if d = [] then None else if d = replicate (length d) 7 then Some [7] else Some (0 # d),
      lz4Uncompress = \<lambda>s n. Some (if s = [7] then replicate n 7 else tl s)\<rparr>"

lemma demoCompressors_ok: "compressors_ok demoCompressors"
  by (auto simp: demoCompressors_def compressors_ok_def split: if_splits)

section \<open>Properties\<close>

text \<open>
  C22. Whatever compression is requested, with any minimum size, decompressing what
  \<open>CompressPayload\<close> returns under the type it returns gives the payload back, the result is never
  longer than the payload, and a type other than \<open>TypeOff\<close> is the requested one. The bound is the
  10 MB limit of the decompressors.
\<close>

theorem compress_round_trip:
  assumes "compressors_ok cs" and "length data \<le> 10485760"
    and "CompressPayload cs data compType minSize = (out, t)"
  shows "TryDecompressPayload cs out t = Some data \<and> length out \<le> length data \<and>
    (t = TypeOff \<longrightarrow> out = data) \<and> (t \<noteq> TypeOff \<longrightarrow> t = compType \<and> t \<le> TypeZLIB)"
  using decompress_CompressPayload [OF assms] .

theorem compress_round_trip_witness:
  "TryDecompressPayload demoCompressors [9, 0, 0, 0, 7] 2 = Some (replicate 9 7)"
proof -
  have c: "CompressPayload demoCompressors (replicate 9 7) 2 5 = ([9, 0, 0, 0, 7], 2)"
    by (simp add: demoCompressors_def CompressPayload_def NormalizeAvailableType_eq compressLZ4_def le32_bytes_def)
  from compress_round_trip [OF demoCompressors_ok _ c] show ?thesis by simp
qed

end
