(* ===== verification/Vpn_Proto.thy ===== *)
theory Vpn_Proto
  imports Enums Codec Compression
begin

text \<open>
  The tunnel frame format (\<open>internal/vpnproto\<close>): the table of header extensions per packet type, the
  builder and the parser, packed control blocks, and the compressed and encrypted entry points. The
  parser is shown to invert the builder and the builder the parser, frames survive compression and
  encryption, and a packed block list is read back block by block.
\<close>

section \<open>Header layout (\<open>parser.go\<close>)\<close>

datatype vpnError =
    ErrPacketTooShort
  | ErrInvalidPacketType
  | ErrInvalidHeaderCheck
  | ErrInvalidEncodedData
  | ErrCodecUnavailable
  | ErrInvalidCompressedPayload
  | ErrFromCodec codecError

abbreviation (input) integrityLength :: nat where "integrityLength \<equiv> 2"
abbreviation (input) minHeaderLength :: nat where "minHeaderLength \<equiv> 4"

text \<open>The flag constants stand at positions 2 to 6 of their \<open>iota\<close> block.\<close>

abbreviation (input) packetFlagValid :: u8 where "packetFlagValid \<equiv> 4"
abbreviation (input) packetFlagStream :: u8 where "packetFlagStream \<equiv> 8"
abbreviation (input) packetFlagSequence :: u8 where "packetFlagSequence \<equiv> 16"
abbreviation (input) packetFlagFragment :: u8 where "packetFlagFragment \<equiv> 32"
abbreviation (input) packetFlagCompression :: u8 where "packetFlagCompression \<equiv> 64"

definition validOnly :: "u8 list" where
  "validOnly =
     [PACKET_MTU_UP_RES, PACKET_MTU_DOWN_REQ, PACKET_SESSION_INIT, PACKET_SESSION_ACCEPT,
      PACKET_SESSION_BUSY, PACKET_SESSION_CLOSE, PACKET_PING, PACKET_PONG, PACKET_ERROR_DROP,
      PACKET_MTU_UP_REQ, PACKET_MTU_DOWN_RES]"

definition streamAndSeq :: "u8 list" where
  "streamAndSeq =
     [PACKET_STREAM_SYN, PACKET_STREAM_SYN_ACK, PACKET_STREAM_DATA, PACKET_STREAM_DATA_ACK,
      PACKET_STREAM_DATA_NACK, PACKET_STREAM_RESEND, PACKET_STREAM_CLOSE_WRITE,
      PACKET_STREAM_CLOSE_WRITE_ACK, PACKET_STREAM_CLOSE_READ, PACKET_STREAM_CLOSE_READ_ACK,
      PACKET_STREAM_RST, PACKET_STREAM_RST_ACK, PACKET_MTU_UP_REQ, PACKET_MTU_DOWN_RES,
      PACKET_SOCKS5_SYN, PACKET_SOCKS5_SYN_ACK, PACKET_STREAM_CONNECTED,
      PACKET_STREAM_CONNECTED_ACK, PACKET_STREAM_CONNECT_FAIL, PACKET_STREAM_CONNECT_FAIL_ACK,
      PACKET_SOCKS5_CONNECT_FAIL, PACKET_SOCKS5_CONNECT_FAIL_ACK, PACKET_SOCKS5_RULESET_DENIED,
      PACKET_SOCKS5_RULESET_DENIED_ACK, PACKET_SOCKS5_NETWORK_UNREACHABLE,
      PACKET_SOCKS5_NETWORK_UNREACHABLE_ACK, PACKET_SOCKS5_HOST_UNREACHABLE,
      PACKET_SOCKS5_HOST_UNREACHABLE_ACK, PACKET_SOCKS5_CONNECTION_REFUSED,
      PACKET_SOCKS5_CONNECTION_REFUSED_ACK, PACKET_SOCKS5_TTL_EXPIRED,
      PACKET_SOCKS5_TTL_EXPIRED_ACK, PACKET_SOCKS5_COMMAND_UNSUPPORTED,
      PACKET_SOCKS5_COMMAND_UNSUPPORTED_ACK, PACKET_SOCKS5_ADDRESS_TYPE_UNSUPPORTED,
      PACKET_SOCKS5_ADDRESS_TYPE_UNSUPPORTED_ACK, PACKET_SOCKS5_AUTH_FAILED,
      PACKET_SOCKS5_AUTH_FAILED_ACK, PACKET_SOCKS5_UPSTREAM_UNAVAILABLE,
      PACKET_SOCKS5_UPSTREAM_UNAVAILABLE_ACK, PACKET_SOCKS5_CONNECTED,
      PACKET_SOCKS5_CONNECTED_ACK, PACKET_DNS_QUERY_REQ, PACKET_DNS_QUERY_RES,
      PACKET_DNS_QUERY_REQ_ACK, PACKET_DNS_QUERY_RES_ACK]"

definition fragTypes :: "u8 list" where
  "fragTypes =
     [PACKET_STREAM_DATA, PACKET_STREAM_RESEND, PACKET_SOCKS5_SYN, PACKET_DNS_QUERY_REQ,
      PACKET_DNS_QUERY_RES, PACKET_DNS_QUERY_REQ_ACK, PACKET_DNS_QUERY_RES_ACK, PACKET_MTU_UP_REQ,
      PACKET_MTU_DOWN_RES]"

definition compTypes :: "u8 list" where
  "compTypes =
     [PACKET_STREAM_DATA, PACKET_STREAM_RESEND, PACKET_PACKED_CONTROL_BLOCKS, PACKET_DNS_QUERY_REQ,
      PACKET_DNS_QUERY_RES, PACKET_MTU_UP_REQ, PACKET_MTU_DOWN_RES]"

text \<open>\<open>flags[packetType] |= extra\<close>.\<close>

definition orFlags :: "u8 \<Rightarrow> u8 \<Rightarrow> (u8 \<Rightarrow> u8) \<Rightarrow> u8 \<Rightarrow> u8" where
  "orFlags extra packetType flags = flags(packetType := flags packetType OR extra)"

definition buildPacketFlags :: "u8 \<Rightarrow> u8" where
  "buildPacketFlags =
     (let flags = (\<lambda>_. 0);
          flags = fold (orFlags packetFlagValid) validOnly flags;
          flags = fold (orFlags (packetFlagValid OR (packetFlagStream OR packetFlagSequence))) streamAndSeq flags;
          flags = fold (orFlags packetFlagFragment) fragTypes flags
      in fold (orFlags (packetFlagValid OR packetFlagCompression)) compTypes flags)"

definition packetFlags :: "u8 \<Rightarrow> u8" where
  "packetFlags = buildPacketFlags"

definition hasStreamExtension :: "u8 \<Rightarrow> bool" where
  "hasStreamExtension t \<longleftrightarrow> packetFlags t AND packetFlagStream \<noteq> 0"

definition hasSequenceExtension :: "u8 \<Rightarrow> bool" where
  "hasSequenceExtension t \<longleftrightarrow> packetFlags t AND packetFlagSequence \<noteq> 0"

definition hasFragmentExtension :: "u8 \<Rightarrow> bool" where
  "hasFragmentExtension t \<longleftrightarrow> packetFlags t AND packetFlagFragment \<noteq> 0"

definition hasCompressionExtension :: "u8 \<Rightarrow> bool" where
  "hasCompressionExtension t \<longleftrightarrow> packetFlags t AND packetFlagCompression \<noteq> 0"

record vpnPacket =
  SessionID :: u8
  PacketType :: u8
  SessionCookie :: u8
  HasStreamID :: bool
  StreamID :: u16
  HasSequenceNum :: bool
  SequenceNum :: u16
  HasFragmentInfo :: bool
  FragmentID :: u8
  TotalFragments :: u8
  HasCompressionType :: bool
  CompressionType :: u8
  HeaderLength :: nat
  Payload :: bytes

fun checkByteLoop :: "nat \<Rightarrow> u8 \<Rightarrow> bytes \<Rightarrow> u8" where
  "checkByteLoop idx acc [] = acc"
| "checkByteLoop idx acc (v # header) =
     checkByteLoop (Suc idx) ((acc + (v + of_nat idx)) XOR push_bit (idx mod 4) v) header"

definition computeHeaderCheckByte :: "bytes \<Rightarrow> u8" where
  "computeHeaderCheckByte header = checkByteLoop 0 (of_nat (length header * 17 + 0x5D)) header"

text \<open>The part of \<open>parseFrom\<close> after the flag lookup, with the extension flags as arguments.\<close>

definition parseFields :: "bool \<Rightarrow> bool \<Rightarrow> bool \<Rightarrow> bool \<Rightarrow> bytes \<Rightarrow> vpnError + vpnPacket" where
  "parseFields stream seq frag cmp data =
     (let minLen = 2 + integrityLength + (if stream then 2 else 0) + (if seq then 2 else 0) +
            (if frag then 2 else 0) + (if cmp then 1 else 0)
      in
      if length data < minLen then Inl ErrPacketTooShort
      else
        let offset = 2;
            streamID = (if stream then join16 (data ! offset) (data ! (offset + 1)) else 0);
            offset = (if stream then offset + 2 else offset);
            seqNum = (if seq then join16 (data ! offset) (data ! (offset + 1)) else 0);
            offset = (if seq then offset + 2 else offset);
            fragID = (if frag then data ! offset else 0);
            total = (if frag then data ! (offset + 1) else 0);
            offset = (if frag then offset + 2 else offset);
            cType = (if cmp then data ! offset else 0);
            offset = (if cmp then offset + 1 else offset);
            cookie = data ! offset;
            checkByte = data ! (offset + 1);
            expected = computeHeaderCheckByte (take (offset + 1) data)
        in
        if checkByte \<noteq> expected then Inl ErrInvalidHeaderCheck
        else Inr \<lparr>SessionID = data ! 0, PacketType = data ! 1, SessionCookie = cookie,
                  HasStreamID = stream, StreamID = streamID,
                  HasSequenceNum = seq, SequenceNum = seqNum,
                  HasFragmentInfo = frag, FragmentID = fragID, TotalFragments = total,
                  HasCompressionType = cmp, CompressionType = cType,
                  HeaderLength = offset + integrityLength,
                  Payload = drop (offset + integrityLength) data\<rparr>)"

definition parseFrom :: "bytes \<Rightarrow> nat \<Rightarrow> vpnError + vpnPacket" where
  "parseFrom data0 start =
     (let data = drop start data0 in
      if length data < minHeaderLength then Inl ErrPacketTooShort
      else
        let flags = packetFlags (data ! 1) in
        if flags AND packetFlagValid = 0 then Inl ErrInvalidPacketType
        else parseFields (flags AND packetFlagStream \<noteq> 0) (flags AND packetFlagSequence \<noteq> 0)
               (flags AND packetFlagFragment \<noteq> 0) (flags AND packetFlagCompression \<noteq> 0) data)"

definition ParseAtOffset :: "bytes \<Rightarrow> int \<Rightarrow> vpnError + vpnPacket" where
  "ParseAtOffset data offset =
     (if offset < 0 \<or> int (length data) \<le> offset then Inl ErrPacketTooShort
      else parseFrom data (nat offset))"

definition Parse :: "bytes \<Rightarrow> vpnError + vpnPacket" where
  "Parse data = ParseAtOffset data 0"

definition ParseFromLabels :: "gostring \<Rightarrow> codec option \<Rightarrow> vpnError + vpnPacket" where
  "ParseFromLabels labels c =
     (if c = None then Inl ErrCodecUnavailable
      else if labels = [] then Inl ErrInvalidEncodedData
      else case DecodeStringAndDecrypt c labels of
        Inl err \<Rightarrow> Inl (ErrFromCodec err)
      | Inr raw \<Rightarrow> Parse raw)"

section \<open>Builder (\<open>builder.go\<close>)\<close>

record buildOptions =
  optSessionID :: u8
  optPacketType :: u8
  optSessionCookie :: u8
  optStreamID :: u16
  optSequenceNum :: u16
  optFragmentID :: u8
  optTotalFragments :: u8
  optCompressionType :: u8
  optPayload :: bytes

text \<open>The header bytes up to the session cookie, with the extension flags as arguments.\<close>

definition headerBytes :: "bool \<Rightarrow> bool \<Rightarrow> bool \<Rightarrow> bool \<Rightarrow> buildOptions \<Rightarrow> bytes" where
  "headerBytes stream seq frag cmp opts =
     [optSessionID opts, optPacketType opts] @
     (if stream then be16 (optStreamID opts) else []) @
     (if seq then be16 (optSequenceNum opts) else []) @
     (if frag then [optFragmentID opts, optTotalFragments opts] else []) @
     (if cmp then [optCompressionType opts] else []) @
     [optSessionCookie opts]"

definition BuildRaw :: "buildOptions \<Rightarrow> vpnError + bytes" where
  "BuildRaw opts =
     (let flags = packetFlags (optPacketType opts) in
      if flags AND packetFlagValid = 0 then Inl ErrInvalidPacketType
      else
        let header = headerBytes (flags AND packetFlagStream \<noteq> 0) (flags AND packetFlagSequence \<noteq> 0)
              (flags AND packetFlagFragment \<noteq> 0) (flags AND packetFlagCompression \<noteq> 0) opts
        in Inr (header @ [computeHeaderCheckByte header] @ optPayload opts))"

definition BuildEncoded :: "buildOptions \<Rightarrow> codec option \<Rightarrow> entropy \<Rightarrow> vpnError + gostring" where
  "BuildEncoded opts c rand =
     (case BuildRaw opts of
        Inl err \<Rightarrow> Inl err
      | Inr raw \<Rightarrow>
          if c = None then Inl ErrCodecUnavailable
          else case EncryptAndEncode c rand raw of
            Inl err \<Rightarrow> Inl (ErrFromCodec err)
          | Inr t \<Rightarrow> Inr t)"

definition HeaderRawSize :: "u8 \<Rightarrow> nat" where
  "HeaderRawSize packetType =
     (let flags = packetFlags packetType in
      if flags AND packetFlagValid = 0 then 0
      else 2 + integrityLength + (if flags AND packetFlagStream \<noteq> 0 then 2 else 0) +
        (if flags AND packetFlagSequence \<noteq> 0 then 2 else 0) +
        (if flags AND packetFlagFragment \<noteq> 0 then 2 else 0) +
        (if flags AND packetFlagCompression \<noteq> 0 then 1 else 0))"

definition MaxHeaderRawSize :: nat where
  "MaxHeaderRawSize =
     fold (\<lambda>t maxSize. let size = HeaderRawSize (of_nat t) in if maxSize < size then size else maxSize)
       [0..<256] 0"

definition MaxHeaderPacketType :: u8 where
  "MaxHeaderPacketType =
     fst (fold (\<lambda>t (bestType, maxSize).
       let size = HeaderRawSize (of_nat t)
       in if maxSize < size then (of_nat t, size) else (bestType, maxSize)) [0..<256] (0, 0))"

section \<open>The extension table\<close>

lemma bit_fold_orFlags:
  "bit (fold (orFlags x) ts flags t) n \<longleftrightarrow> bit (flags t) n \<or> t \<in> set ts \<and> bit x n"
proof (induction ts arbitrary: flags)
  case (Cons a ts)
  then show ?case by (auto simp: orFlags_def bit_simps)
qed simp

lemma and_single_bit: "(w AND push_bit n 1 \<noteq> 0) \<longleftrightarrow> bit (w :: u8) n"
  by (metis and_exp_eq_0_iff_not_bit push_bit_of_1)

lemma packetFlag_bits:
  "(w AND 4 \<noteq> 0) \<longleftrightarrow> bit (w :: u8) 2" "(w AND 8 \<noteq> 0) \<longleftrightarrow> bit w 3" "(w AND 16 \<noteq> 0) \<longleftrightarrow> bit w 4"
  "(w AND 32 \<noteq> 0) \<longleftrightarrow> bit w 5" "(w AND 64 \<noteq> 0) \<longleftrightarrow> bit w 6"
  using and_single_bit [of w 2] and_single_bit [of w 3] and_single_bit [of w 4]
    and_single_bit [of w 5] and_single_bit [of w 6]
  by (simp_all add: push_bit_of_1)

lemma packetFlags_table:
  "(packetFlags t AND packetFlagValid \<noteq> 0) \<longleftrightarrow> t \<in> set validOnly \<or> t \<in> set streamAndSeq \<or> t \<in> set compTypes"
  "(packetFlags t AND packetFlagStream \<noteq> 0) \<longleftrightarrow> t \<in> set streamAndSeq"
  "(packetFlags t AND packetFlagSequence \<noteq> 0) \<longleftrightarrow> t \<in> set streamAndSeq"
  "(packetFlags t AND packetFlagFragment \<noteq> 0) \<longleftrightarrow> t \<in> set fragTypes"
  "(packetFlags t AND packetFlagCompression \<noteq> 0) \<longleftrightarrow> t \<in> set compTypes"
  unfolding packetFlag_bits
  by (auto simp: packetFlags_def buildPacketFlags_def Let_def bit_fold_orFlags)

definition validType :: "u8 \<Rightarrow> bool" where
  "validType t \<longleftrightarrow> packetFlags t AND packetFlagValid \<noteq> 0"

lemma BuildRaw_valid: "(\<exists>raw. BuildRaw opts = Inr raw) \<longleftrightarrow> validType (optPacketType opts)"
  by (simp add: BuildRaw_def validType_def Let_def)

lemma HeaderRawSize_le: "HeaderRawSize t \<le> 11"
  by (simp add: HeaderRawSize_def Let_def)

text \<open>The packet that a frame built from \<open>opts\<close> parses to: absent extensions read as zero.\<close>

definition packetOf :: "buildOptions \<Rightarrow> vpnPacket" where
  "packetOf opts =
     (let t = optPacketType opts in
      \<lparr>SessionID = optSessionID opts, PacketType = t, SessionCookie = optSessionCookie opts,
       HasStreamID = hasStreamExtension t,
       StreamID = (if hasStreamExtension t then optStreamID opts else 0),
       HasSequenceNum = hasSequenceExtension t,
       SequenceNum = (if hasSequenceExtension t then optSequenceNum opts else 0),
       HasFragmentInfo = hasFragmentExtension t,
       FragmentID = (if hasFragmentExtension t then optFragmentID opts else 0),
       TotalFragments = (if hasFragmentExtension t then optTotalFragments opts else 0),
       HasCompressionType = hasCompressionExtension t,
       CompressionType = (if hasCompressionExtension t then optCompressionType opts else 0),
       HeaderLength = HeaderRawSize t, Payload = optPayload opts\<rparr>)"

lemma parseFields_headerBytes:
  "parseFields stream seq frag cmp
     (headerBytes stream seq frag cmp opts @ [computeHeaderCheckByte (headerBytes stream seq frag cmp opts)] @ rest) =
   Inr \<lparr>SessionID = optSessionID opts, PacketType = optPacketType opts, SessionCookie = optSessionCookie opts,
       HasStreamID = stream, StreamID = (if stream then optStreamID opts else 0),
       HasSequenceNum = seq, SequenceNum = (if seq then optSequenceNum opts else 0),
       HasFragmentInfo = frag, FragmentID = (if frag then optFragmentID opts else 0),
       TotalFragments = (if frag then optTotalFragments opts else 0),
       HasCompressionType = cmp, CompressionType = (if cmp then optCompressionType opts else 0),
       HeaderLength = 4 + (if stream then 2 else 0) + (if seq then 2 else 0) + (if frag then 2 else 0) +
         (if cmp then 1 else 0), Payload = rest\<rparr>"
  by (cases stream; cases seq; cases frag; cases cmp)
    (simp_all add: parseFields_def headerBytes_def be16_def)

lemma headerBytes_start: "headerBytes stream seq frag cmp opts = optSessionID opts # optPacketType opts #
    tl (tl (headerBytes stream seq frag cmp opts))"
  by (simp add: headerBytes_def)

lemma length_headerBytes:
  "length (headerBytes stream seq frag cmp opts) =
    3 + (if stream then 2 else 0) + (if seq then 2 else 0) + (if frag then 2 else 0) + (if cmp then 1 else 0)"
  by (simp add: headerBytes_def)

lemma Parse_BuildRaw:
  assumes "BuildRaw opts = Inr raw"
  shows "Parse raw = Inr (packetOf opts)"
proof -
  let ?f = "packetFlags (optPacketType opts)"
  let ?h = "headerBytes (?f AND 8 \<noteq> 0) (?f AND 16 \<noteq> 0) (?f AND 32 \<noteq> 0) (?f AND 64 \<noteq> 0) opts"
  have v: "?f AND 4 \<noteq> 0" and raw: "raw = ?h @ [computeHeaderCheckByte ?h] @ optPayload opts"
    using assms by (auto simp: BuildRaw_def Let_def split: if_splits)
  have len: "4 \<le> length raw" by (simp add: raw length_headerBytes)
  have t: "raw ! 1 = optPacketType opts"
    by (simp add: raw nth_append length_headerBytes) (subst headerBytes_start, simp)
  have "Parse raw = parseFields (?f AND 8 \<noteq> 0) (?f AND 16 \<noteq> 0) (?f AND 32 \<noteq> 0) (?f AND 64 \<noteq> 0) raw"
    using len v by (auto simp: Parse_def ParseAtOffset_def parseFrom_def Let_def t [simplified])
  also have "\<dots> = Inr (packetOf opts)"
    unfolding raw parseFields_headerBytes
    using v by (simp add: packetOf_def Let_def hasStreamExtension_def hasSequenceExtension_def
        hasFragmentExtension_def hasCompressionExtension_def HeaderRawSize_def)
  finally show ?thesis .
qed

lemma length_BuildRaw:
  "BuildRaw opts = Inr raw \<Longrightarrow> length raw = HeaderRawSize (optPacketType opts) + length (optPayload opts)"
  by (auto simp: BuildRaw_def HeaderRawSize_def Let_def length_headerBytes split: if_splits)

text \<open>Conversely, a parsed frame is the frame built from its fields.\<close>

definition optionsOf :: "vpnPacket \<Rightarrow> buildOptions" where
  "optionsOf p =
     \<lparr>optSessionID = SessionID p, optPacketType = PacketType p, optSessionCookie = SessionCookie p,
      optStreamID = StreamID p, optSequenceNum = SequenceNum p, optFragmentID = FragmentID p,
      optTotalFragments = TotalFragments p, optCompressionType = CompressionType p,
      optPayload = Payload p\<rparr>"

lemma be16_join16 [simp]: "be16 (join16 a b) = [a, b]"
  by (simp add: be16_def)

lemma headerBytes_parsed:
  assumes "parseFields stream seq frag cmp data = Inr p"
  shows "headerBytes stream seq frag cmp (optionsOf p) @
    [computeHeaderCheckByte (headerBytes stream seq frag cmp (optionsOf p))] @ Payload p = data"
proof -
  let ?o = "2 + (if stream then 2 else 0) + (if seq then 2 else 0) + (if frag then 2 else 0) + (if cmp then 1 else 0)"
  have len: "?o + 2 \<le> length data"
    and chk: "data ! (?o + 1) = computeHeaderCheckByte (take (?o + 1) data)"
    and pay: "Payload p = drop (?o + 2) data"
    using assms by (cases stream; cases seq; cases frag; cases cmp; auto simp: parseFields_def split: if_splits)+
  have one: "take (Suc 0) data = [data ! 0]" using len by (cases data) simp_all
  have hdr: "headerBytes stream seq frag cmp (optionsOf p) = take (?o + 1) data"
    using assms len
    by (cases stream; cases seq; cases frag; cases cmp)
      (auto simp: parseFields_def headerBytes_def optionsOf_def take_Suc_conv_app_nth one numeral_eq_Suc split: if_splits)
  have "take (?o + 1) data @ [data ! (?o + 1)] @ drop (?o + 2) data = data"
    using len id_take_nth_drop [of "?o + 1" data] by simp
  then show ?thesis using chk pay hdr by simp
qed

lemma BuildRaw_Parse:
  assumes "Parse raw = Inr p"
  shows "BuildRaw (optionsOf p) = Inr raw"
proof -
  let ?f = "packetFlags (raw ! 1)"
  have v: "?f AND 4 \<noteq> 0"
    and pf: "parseFields (?f AND 8 \<noteq> 0) (?f AND 16 \<noteq> 0) (?f AND 32 \<noteq> 0) (?f AND 64 \<noteq> 0) raw = Inr p"
    using assms by (auto simp: Parse_def ParseAtOffset_def parseFrom_def Let_def split: if_splits)
  have t: "optPacketType (optionsOf p) = raw ! 1" and pay: "optPayload (optionsOf p) = Payload p"
    using pf by (auto simp: parseFields_def optionsOf_def Let_def split: if_splits)
  show ?thesis using v headerBytes_parsed [OF pf] by (simp add: BuildRaw_def Let_def t pay)
qed

section \<open>Packed control blocks (\<open>packing.go\<close>)\<close>

abbreviation (input) PackedControlBlockSize :: nat where "PackedControlBlockSize \<equiv> 7"

definition packableTypes :: "u8 list" where
  "packableTypes =
     [PACKET_STREAM_DATA_ACK, PACKET_STREAM_DATA_NACK, PACKET_STREAM_SYN_ACK,
      PACKET_STREAM_CLOSE_WRITE_ACK, PACKET_STREAM_CLOSE_READ_ACK, PACKET_STREAM_RST_ACK,
      PACKET_SOCKS5_SYN_ACK, PACKET_STREAM_CONNECTED, PACKET_STREAM_CONNECTED_ACK,
      PACKET_STREAM_CONNECT_FAIL, PACKET_STREAM_CONNECT_FAIL_ACK, PACKET_SOCKS5_CONNECT_FAIL,
      PACKET_SOCKS5_RULESET_DENIED, PACKET_SOCKS5_NETWORK_UNREACHABLE,
      PACKET_SOCKS5_HOST_UNREACHABLE, PACKET_SOCKS5_CONNECTION_REFUSED, PACKET_SOCKS5_TTL_EXPIRED,
      PACKET_SOCKS5_COMMAND_UNSUPPORTED, PACKET_SOCKS5_ADDRESS_TYPE_UNSUPPORTED,
      PACKET_SOCKS5_AUTH_FAILED, PACKET_SOCKS5_UPSTREAM_UNAVAILABLE, PACKET_SOCKS5_CONNECTED,
      PACKET_SOCKS5_CONNECTED_ACK, PACKET_SOCKS5_CONNECT_FAIL_ACK, PACKET_SOCKS5_RULESET_DENIED_ACK,
      PACKET_SOCKS5_NETWORK_UNREACHABLE_ACK, PACKET_SOCKS5_HOST_UNREACHABLE_ACK,
      PACKET_SOCKS5_CONNECTION_REFUSED_ACK, PACKET_SOCKS5_TTL_EXPIRED_ACK,
      PACKET_SOCKS5_COMMAND_UNSUPPORTED_ACK, PACKET_SOCKS5_ADDRESS_TYPE_UNSUPPORTED_ACK,
      PACKET_SOCKS5_AUTH_FAILED_ACK, PACKET_SOCKS5_UPSTREAM_UNAVAILABLE_ACK,
      PACKET_DNS_QUERY_REQ_ACK, PACKET_DNS_QUERY_RES_ACK]"

definition IsPackableControlPacket :: "u8 \<Rightarrow> nat \<Rightarrow> bool" where
  "IsPackableControlPacket packetType payloadLen =
     (if payloadLen \<noteq> 0 then False else packetType \<in> set packableTypes)"

record controlBlock =
  bType :: u8
  bStreamID :: u16
  bSeq :: u16
  bFrag :: u8
  bTotal :: u8

definition AppendPackedControlBlock :: "bytes \<Rightarrow> controlBlock \<Rightarrow> bytes" where
  "AppendPackedControlBlock dst b =
     dst @ [bType b, hi8 (bStreamID b), lo8 (bStreamID b), hi8 (bSeq b), lo8 (bSeq b), bFrag b, bTotal b]"

text \<open>
  The callback threads a state of its own and returns whether to go on. The loop index of the source
  is the position of \<open>payload\<close> in the remaining bytes.
\<close>

function ForEachPackedControlBlock :: "(controlBlock \<Rightarrow> 's \<Rightarrow> 's \<times> bool) \<Rightarrow> bytes \<Rightarrow> 's \<Rightarrow> 's" where
  "ForEachPackedControlBlock yield payload st =
     (if PackedControlBlockSize \<le> length payload then
        (case yield \<lparr>bType = payload ! 0, bStreamID = join16 (payload ! 1) (payload ! 2),
                     bSeq = join16 (payload ! 3) (payload ! 4), bFrag = payload ! 5,
                     bTotal = payload ! 6\<rparr> st of
           (st', continue) \<Rightarrow>
             if continue then ForEachPackedControlBlock yield (drop PackedControlBlockSize payload) st' else st')
      else st)"
  by pat_completeness auto
termination by (relation "measure (\<lambda>(yield, payload, st). length payload)") auto

declare ForEachPackedControlBlock.simps [simp del]

text \<open>\<open>DescribePackedControlBlocks\<close>: the kinds in order of first appearance and their counts.\<close>

definition countKinds :: "bytes \<Rightarrow> u8 list \<times> (u8, nat) gomap \<times> nat" where
  "countKinds payload =
     ForEachPackedControlBlock
       (\<lambda>b (order, counts, totalBlocks).
          (let order' = (if mget counts (bType b) = None then order @ [bType b] else order);
               n = (case mget counts (bType b) of None \<Rightarrow> 0 | Some n \<Rightarrow> n)
           in (order', mput counts (bType b) (Suc n), Suc totalBlocks), True))
       payload ([], [], 0)"

definition DescribePackedControlBlocks :: "bytes \<Rightarrow> int \<Rightarrow> string" where
  "DescribePackedControlBlocks payload maxKinds0 =
     (if payload = [] then ''Blocks(0)''
      else
        let maxKinds = nat (if maxKinds0 \<le> 0 then 4 else maxKinds0)
        in case countKinds payload of (order, counts, totalBlocks) \<Rightarrow>
          if totalBlocks = 0 then ''Blocks(0)''
          else
            let limit = min (length order) maxKinds;
                item = (\<lambda>t. PacketTypeName t @ '' x'' @ formatUint (case mget counts t of None \<Rightarrow> 0 | Some n \<Rightarrow> n));
                items = map item (take limit order)
            in ''Blocks('' @ formatUint totalBlocks @ ''): '' @
               concat (map (\<lambda>i. (if 0 < i then '', '' else []) @ items ! i) [0..<limit]) @
               (if limit < length order then '', +'' @ formatUint (length order - limit) @ '' more types'' else []))"

definition packBlocks :: "controlBlock list \<Rightarrow> bytes" where
  "packBlocks bs = foldl AppendPackedControlBlock [] bs"

lemma foldl_AppendPacked:
  "foldl AppendPackedControlBlock dst bs = dst @ concat (map (AppendPackedControlBlock []) bs)"
  by (induction bs arbitrary: dst) (simp_all add: AppendPackedControlBlock_def)

lemma packBlocks_Nil [simp]: "packBlocks [] = []"
  by (simp add: packBlocks_def)

lemma packBlocks_Cons [simp]: "packBlocks (b # bs) = AppendPackedControlBlock [] b @ packBlocks bs"
  by (simp add: packBlocks_def foldl_AppendPacked [of "AppendPackedControlBlock [] b"] foldl_AppendPacked [of "[]"])

lemma length_packBlocks: "length (packBlocks bs) = 7 * length bs"
  by (induction bs) (simp_all add: AppendPackedControlBlock_def)

fun foldWhile :: "('b \<Rightarrow> 's \<Rightarrow> 's \<times> bool) \<Rightarrow> 'b list \<Rightarrow> 's \<Rightarrow> 's" where
  "foldWhile f [] s = s"
| "foldWhile f (x # xs) s = (case f x s of (s', continue) \<Rightarrow> if continue then foldWhile f xs s' else s')"

lemma ForEach_packBlocks:
  "length tail < 7 \<Longrightarrow> ForEachPackedControlBlock yield (packBlocks bs @ tail) st = foldWhile yield bs st"
proof (induction bs arbitrary: st)
  case Nil
  then show ?case by (simp add: ForEachPackedControlBlock.simps [of _ tail])
next
  case (Cons b bs)
  then show ?case
    by (cases b) (simp add: AppendPackedControlBlock_def ForEachPackedControlBlock.simps [of _ "_ # _"]
        split: prod.splits)
qed

section \<open>Capacity of a packed frame (\<open>utils.go\<close>)\<close>

definition CalculateMaxPackedBlocks :: "int \<Rightarrow> int \<Rightarrow> int \<Rightarrow> int" where
  "CalculateMaxPackedBlocks mtu percent absoluteMax =
     (let mtu = max mtu 1; percent = max percent 30; effectiveSize = (mtu * percent) div 100
      in max (min (max (effectiveSize div int PackedControlBlockSize) 1) absoluteMax) 1)"

lemma CalculateMaxPackedBlocks_bounds:
  "1 \<le> CalculateMaxPackedBlocks mtu percent absoluteMax \<and>
   CalculateMaxPackedBlocks mtu percent absoluteMax \<le> max absoluteMax 1 \<and>
   (1 < CalculateMaxPackedBlocks mtu percent absoluteMax \<longrightarrow>
      7 * CalculateMaxPackedBlocks mtu percent absoluteMax \<le> max mtu 1 * max percent 30 div 100)"
proof -
  define e where "e = max mtu 1 * max percent 30 div 100"
  define c where "c = CalculateMaxPackedBlocks mtu percent absoluteMax"
  have c: "c = max (min (max (e div 7) 1) absoluteMax) 1"
    by (simp add: c_def e_def CalculateMaxPackedBlocks_def Let_def)
  have "7 * c \<le> e" if "1 < c"
  proof -
    have "c \<le> e div 7" using c that by (auto simp: max_def min_def split: if_splits)
    then have "7 * c \<le> 7 * (e div 7)" by simp
    also have "\<dots> \<le> e" by simp
    finally show ?thesis .
  qed
  moreover have "1 \<le> c \<and> c \<le> max absoluteMax 1" unfolding c by (auto simp: max_def min_def)
  ultimately show ?thesis unfolding c_def e_def by blast
qed

section \<open>Compressed and encrypted frames (\<open>payload.go\<close>)\<close>

definition PreparePayload :: "compressors \<Rightarrow> u8 \<Rightarrow> bytes \<Rightarrow> u8 \<Rightarrow> int \<Rightarrow> bytes \<times> u8" where
  "PreparePayload cs packetType payload requestedCompression minSize =
     (let requestedCompression = NormalizeAvailableType requestedCompression in
      if requestedCompression = TypeOff then (payload, TypeOff)
      else if \<not> hasCompressionExtension packetType then (payload, TypeOff)
      else if payload = [] then (payload, TypeOff)
      else CompressPayload cs payload requestedCompression minSize)"

definition InflatePayload :: "compressors \<Rightarrow> vpnPacket \<Rightarrow> vpnError + vpnPacket" where
  "InflatePayload cs packet =
     (if \<not> HasCompressionType packet \<or> CompressionType packet = TypeOff then Inr packet
      else case TryDecompressPayload cs (Payload packet) (CompressionType packet) of
        None \<Rightarrow> Inl ErrInvalidCompressedPayload
      | Some payload \<Rightarrow> Inr (packet\<lparr>Payload := payload\<rparr>))"

definition ParseInflatedFromLabels :: "compressors \<Rightarrow> gostring \<Rightarrow> codec option \<Rightarrow> vpnError + vpnPacket" where
  "ParseInflatedFromLabels cs labels c =
     (case ParseFromLabels labels c of Inl err \<Rightarrow> Inl err | Inr packet \<Rightarrow> InflatePayload cs packet)"

definition ParseInflated :: "compressors \<Rightarrow> bytes \<Rightarrow> vpnError + vpnPacket" where
  "ParseInflated cs data =
     (case Parse data of Inl err \<Rightarrow> Inl err | Inr packet \<Rightarrow> InflatePayload cs packet)"

definition prepareOptions :: "compressors \<Rightarrow> buildOptions \<Rightarrow> int \<Rightarrow> buildOptions" where
  "prepareOptions cs opts minSize =
     (let (payload, compressionType) =
        PreparePayload cs (optPacketType opts) (optPayload opts) (optCompressionType opts) minSize
      in opts\<lparr>optPayload := payload, optCompressionType := compressionType\<rparr>)"

definition BuildRawAuto :: "compressors \<Rightarrow> buildOptions \<Rightarrow> int \<Rightarrow> vpnError + bytes" where
  "BuildRawAuto cs opts minSize = BuildRaw (prepareOptions cs opts minSize)"

definition BuildEncodedAuto ::
  "compressors \<Rightarrow> buildOptions \<Rightarrow> codec option \<Rightarrow> entropy \<Rightarrow> int \<Rightarrow> vpnError + gostring" where
  "BuildEncodedAuto cs opts c rand minSize =
     (case BuildRawAuto cs opts minSize of
        Inl err \<Rightarrow> Inl err
      | Inr raw \<Rightarrow>
          if c = None then Inl ErrCodecUnavailable
          else case EncryptAndEncode c rand raw of
            Inl err \<Rightarrow> Inl (ErrFromCodec err)
          | Inr t \<Rightarrow> Inr t)"

text \<open>What a receiver must see of a frame: every field the header carries and the payload.\<close>

definition carries :: "buildOptions \<Rightarrow> vpnPacket \<Rightarrow> bool" where
  "carries opts p \<longleftrightarrow>
     SessionID p = optSessionID opts \<and> PacketType p = optPacketType opts \<and>
     SessionCookie p = optSessionCookie opts \<and> Payload p = optPayload opts \<and>
     HasStreamID p = hasStreamExtension (optPacketType opts) \<and>
     HasSequenceNum p = hasSequenceExtension (optPacketType opts) \<and>
     HasFragmentInfo p = hasFragmentExtension (optPacketType opts) \<and>
     (HasStreamID p \<longrightarrow> StreamID p = optStreamID opts) \<and>
     (HasSequenceNum p \<longrightarrow> SequenceNum p = optSequenceNum opts) \<and>
     (HasFragmentInfo p \<longrightarrow> FragmentID p = optFragmentID opts \<and> TotalFragments p = optTotalFragments opts)"

lemma prepareOptions_fields [simp]:
  "optSessionID (prepareOptions cs opts k) = optSessionID opts"
  "optPacketType (prepareOptions cs opts k) = optPacketType opts"
  "optSessionCookie (prepareOptions cs opts k) = optSessionCookie opts"
  "optStreamID (prepareOptions cs opts k) = optStreamID opts"
  "optSequenceNum (prepareOptions cs opts k) = optSequenceNum opts"
  "optFragmentID (prepareOptions cs opts k) = optFragmentID opts"
  "optTotalFragments (prepareOptions cs opts k) = optTotalFragments opts"
  by (simp_all add: prepareOptions_def split: prod.splits)

lemma PreparePayload_inverse:
  assumes ok: "compressors_ok cs" and len: "length payload \<le> 10485760"
    and pr: "PreparePayload cs t payload ct k = (out, ct')"
  shows "(ct' = 0 \<longrightarrow> out = payload) \<and>
    (ct' \<noteq> 0 \<longrightarrow> hasCompressionExtension t \<and> TryDecompressPayload cs out ct' = Some payload) \<and>
    length out \<le> length payload"
proof (cases "CompressPayload cs payload (NormalizeAvailableType ct) k = (out, ct') \<and> hasCompressionExtension t")
  case True
  then show ?thesis
    using decompress_CompressPayload [OF ok len, of "NormalizeAvailableType ct" k out ct'] by auto
next
  case False
  then show ?thesis using pr by (auto simp: PreparePayload_def Let_def split: if_splits)
qed

lemma ParseInflated_BuildRawAuto:
  assumes ok: "compressors_ok cs" and len: "length (optPayload opts) \<le> 10485760"
    and b: "BuildRawAuto cs opts k = Inr raw"
  shows "\<exists>p. ParseInflated cs raw = Inr p \<and> carries opts p"
proof -
  let ?o = "prepareOptions cs opts k"
  obtain out ct where pr: "PreparePayload cs (optPacketType opts) (optPayload opts) (optCompressionType opts) k = (out, ct)"
    by (metis surj_pair)
  note inv = PreparePayload_inverse [OF ok len pr]
  have o: "optPayload ?o = out" "optCompressionType ?o = ct"
    using pr by (simp_all add: prepareOptions_def)
  have p: "Parse raw = Inr (packetOf ?o)" using b by (intro Parse_BuildRaw) (simp add: BuildRawAuto_def)
  show ?thesis
    using inv by (cases "ct = 0")
      (auto simp: ParseInflated_def p InflatePayload_def packetOf_def Let_def o carries_def)
qed

lemma length_BuildRawAuto:
  assumes "compressors_ok cs" "length (optPayload opts) \<le> 10485760" "BuildRawAuto cs opts k = Inr raw"
  shows "length raw \<le> HeaderRawSize (optPacketType opts) + length (optPayload opts)"
proof -
  obtain out ct where pr: "PreparePayload cs (optPacketType opts) (optPayload opts) (optCompressionType opts) k = (out, ct)"
    by (metis surj_pair)
  then have "optPayload (prepareOptions cs opts k) = out" by (simp add: prepareOptions_def)
  then show ?thesis
    using PreparePayload_inverse [OF assms(1,2) pr] length_BuildRaw [of "prepareOptions cs opts k" raw] assms(3)
    by (simp add: BuildRawAuto_def)
qed

lemma NewCodec_decrypt_Nil: "NewCodec cp mth rawKey = Inr c \<Longrightarrow> DecodeStringAndDecrypt (Some c) [] = Inr []"
  by (auto simp: NewCodec_def Let_def DecodeStringAndDecrypt_def DecodeString_def DecodeLowerBase36String_def
      DecodeLowerBase36_def noCrypto_def xorCrypto_def chachaDecrypt_def makeAESDecryptor_def
      split: if_splits sum.splits)

lemma sealed_frame:
  assumes cs: "compressors_ok cs" and cp: "crypto_ok cp" and r: "entropy_ok rand"
    and m: "0 \<le> mth" "mth \<le> 5" and t: "validType (optPacketType opts)"
    and len: "length (optPayload opts) \<le> 10485760"
  shows "\<exists>c raw. NewCodec cp mth rawKey = Inr c \<and> BuildRawAuto cs opts k = Inr raw \<and>
    (if mth = 2 \<and> \<not> counterRoom rand raw
     then BuildEncodedAuto cs opts (Some c) rand k = Inl (ErrFromCodec PanicCounterOverflow)
     else \<exists>enc. BuildEncodedAuto cs opts (Some c) rand k = Inr enc \<and> set enc \<subseteq> set lowerBase36Alphabet \<and>
       (\<forall>text'. map asciiLower text' = enc \<longrightarrow>
          (\<exists>p. ParseInflatedFromLabels cs text' (Some c) = Inr p \<and> carries opts p)))"
proof -
  obtain raw where raw: "BuildRawAuto cs opts k = Inr raw"
    using t BuildRaw_valid [of "prepareOptions cs opts k"] by (auto simp: BuildRawAuto_def)
  obtain p where p: "ParseInflated cs raw = Inr p" "carries opts p"
    using ParseInflated_BuildRawAuto [OF cs len raw] by blast
  then have ne: "raw \<noteq> []" by (auto simp: ParseInflated_def Parse_def ParseAtOffset_def)
  obtain c where c: "NewCodec cp mth rawKey = Inr c"
      and enc: "if mth = 2 \<and> \<not> counterRoom rand raw then EncryptAndEncode (Some c) rand raw = Inl PanicCounterOverflow
        else \<exists>t. EncryptAndEncode (Some c) rand raw = Inr t \<and> set t \<subseteq> set lowerBase36Alphabet \<and>
          (\<forall>text'. map asciiLower text' = t \<longrightarrow> DecodeStringAndDecrypt (Some c) text' = Inr raw)"
    using NewCodec_round_trip [OF cp m r, of rawKey] by blast
  have "ParseInflatedFromLabels cs text' (Some c) = Inr p" if d: "DecodeStringAndDecrypt (Some c) text' = Inr raw" for text'
  proof -
    have "text' \<noteq> []" using d NewCodec_decrypt_Nil [OF c] ne by auto
    then show ?thesis
      using d p(1) by (auto simp: ParseInflatedFromLabels_def ParseFromLabels_def ParseInflated_def)
  qed
  then show ?thesis
    using c raw p(2) enc by (auto simp: BuildEncodedAuto_def split: if_splits)
qed

section \<open>Properties\<close>

text \<open>
  C14. The parser reads back every frame the builder writes: all header fields the packet type
  carries, absent ones as zero, the payload unchanged; and the frame has the length the sender
  budgets with \<open>HeaderRawSize\<close>.
\<close>

theorem parse_build_round_trip:
  assumes "BuildRaw opts = Inr raw"
  shows "Parse raw = Inr (packetOf opts) \<and>
    length raw = HeaderRawSize (optPacketType opts) + length (optPayload opts)"
  using Parse_BuildRaw [OF assms] length_BuildRaw [OF assms] by simp

theorem parse_build_round_trip_witness:
  "\<exists>raw. BuildRaw \<lparr>optSessionID = 3, optPacketType = PACKET_STREAM_DATA, optSessionCookie = 9,
      optStreamID = 258, optSequenceNum = 772, optFragmentID = 1, optTotalFragments = 2,
      optCompressionType = 0, optPayload = [42]\<rparr> = Inr raw \<and> length raw = 12"
proof -
  let ?o = "\<lparr>optSessionID = 3, optPacketType = PACKET_STREAM_DATA, optSessionCookie = 9,
      optStreamID = 258, optSequenceNum = 772, optFragmentID = 1, optTotalFragments = 2,
      optCompressionType = 0, optPayload = [42]\<rparr>"
  have "validType PACKET_STREAM_DATA"
    unfolding validType_def packetFlags_table by (simp add: streamAndSeq_def)
  then obtain raw where raw: "BuildRaw ?o = Inr raw" using BuildRaw_valid [of ?o] by auto
  have "HeaderRawSize PACKET_STREAM_DATA = 11"
    using packetFlags_table [of PACKET_STREAM_DATA]
    by (simp add: HeaderRawSize_def Let_def streamAndSeq_def fragTypes_def compTypes_def)
  with parse_build_round_trip [OF raw] raw show ?thesis by auto
qed

text \<open>
  C15. Frames are canonical: a byte string that parses is exactly the frame the builder produces
  from the parsed fields, so two different frames never parse to the same packet.
\<close>

theorem build_parse_canonical:
  assumes "Parse raw = Inr p"
  shows "BuildRaw (optionsOf p) = Inr raw \<and> (Parse raw' = Inr p \<longrightarrow> raw' = raw)"
  using BuildRaw_Parse [OF assms] BuildRaw_Parse [of raw' p] by auto

theorem build_parse_canonical_witness:
  "\<exists>p. Parse [7, PACKET_PING, 5, computeHeaderCheckByte [7, PACKET_PING, 5], 1, 2] = Inr p \<and>
    BuildRaw (optionsOf p) = Inr [7, PACKET_PING, 5, computeHeaderCheckByte [7, PACKET_PING, 5], 1, 2]"
proof -
  have f: "packetFlags PACKET_PING AND 4 \<noteq> 0" "packetFlags PACKET_PING AND 8 = 0"
      "packetFlags PACKET_PING AND 16 = 0" "packetFlags PACKET_PING AND 32 = 0" "packetFlags PACKET_PING AND 64 = 0"
    using packetFlags_table [of PACKET_PING]
    by (simp_all add: validOnly_def streamAndSeq_def fragTypes_def compTypes_def)
  obtain p where "Parse [7, PACKET_PING, 5, computeHeaderCheckByte [7, PACKET_PING, 5], 1, 2] = Inr p"
    using f by (simp add: Parse_def ParseAtOffset_def parseFrom_def parseFields_def)
  with build_parse_canonical [OF this] show ?thesis by blast
qed

text \<open>
  C25. A packed control frame is read back block by block: iterating over the packed blocks, with up
  to six stray bytes behind them, calls the callback on exactly these blocks in order, until the
  callback asks to stop.
\<close>

theorem packed_blocks_round_trip:
  assumes "length tail < PackedControlBlockSize"
  shows "ForEachPackedControlBlock yield (packBlocks bs @ tail) st = foldWhile yield bs st \<and>
    length (packBlocks bs) = PackedControlBlockSize * length bs"
  using ForEach_packBlocks [OF assms, of yield bs st] length_packBlocks [of bs] by simp

theorem packed_blocks_round_trip_witness:
  "ForEachPackedControlBlock (\<lambda>b n. (n + unat (bSeq b), True))
     (packBlocks [\<lparr>bType = 1, bStreamID = 2, bSeq = 300, bFrag = 0, bTotal = 0\<rparr>,
                  \<lparr>bType = 1, bStreamID = 2, bSeq = 4, bFrag = 0, bTotal = 0\<rparr>] @ [9]) 0 = 304"
  using packed_blocks_round_trip [of "[9]" "\<lambda>b n. (n + unat (bSeq b), True)"
      "[\<lparr>bType = 1, bStreamID = 2, bSeq = 300, bFrag = 0, bTotal = 0\<rparr>,
        \<lparr>bType = 1, bStreamID = 2, bSeq = 4, bFrag = 0, bTotal = 0\<rparr>]" 0]
  by simp

text \<open>
  C10. The whole frame path: a frame of a valid type, compressed on demand, encrypted by any of the
  six methods and written as base 36, is parsed, decrypted and inflated by the receiver with every
  carried field and the original payload, whatever letter case the text arrives in. Building succeeds,
  except that ChaCha20 panics when its random block counter leaves too few blocks for the frame.
\<close>

theorem sealed_frame_round_trip:
  assumes "compressors_ok cs" "crypto_ok cp" "entropy_ok rand" "0 \<le> mth" "mth \<le> 5"
    and "validType (optPacketType opts)" "length (optPayload opts) \<le> 10485760"
  shows "\<exists>c raw. NewCodec cp mth rawKey = Inr c \<and> BuildRawAuto cs opts k = Inr raw \<and>
    (if mth = 2 \<and> \<not> counterRoom rand raw
     then BuildEncodedAuto cs opts (Some c) rand k = Inl (ErrFromCodec PanicCounterOverflow)
     else \<exists>enc. BuildEncodedAuto cs opts (Some c) rand k = Inr enc \<and> set enc \<subseteq> set lowerBase36Alphabet \<and>
       (\<forall>text'. map asciiLower text' = enc \<longrightarrow>
          (\<exists>p. ParseInflatedFromLabels cs text' (Some c) = Inr p \<and> carries opts p)))"
  using sealed_frame [OF assms(1,2,3,4,5,6,7)] .

theorem sealed_frame_round_trip_witness:
  "\<exists>c enc p. NewCodec demoCrypto 1 [1, 2] = Inr c \<and>
    BuildEncodedAuto demoCompressors \<lparr>optSessionID = 3, optPacketType = PACKET_STREAM_DATA,
      optSessionCookie = 9, optStreamID = 258, optSequenceNum = 772, optFragmentID = 1,
      optTotalFragments = 2, optCompressionType = 2, optPayload = replicate 20 7\<rparr>
      (Some c) (\<lambda>n. Some (replicate n 7)) 5 = Inr enc \<and>
    ParseInflatedFromLabels demoCompressors enc (Some c) = Inr p \<and>
    Payload p = replicate 20 7 \<and> StreamID p = 258"
proof -
  let ?o = "\<lparr>optSessionID = 3, optPacketType = PACKET_STREAM_DATA,
      optSessionCookie = 9, optStreamID = 258, optSequenceNum = 772, optFragmentID = 1,
      optTotalFragments = 2, optCompressionType = 2, optPayload = replicate 20 7\<rparr>"
  have t: "validType (optPacketType ?o)" "hasStreamExtension (optPacketType ?o)"
    unfolding validType_def hasStreamExtension_def packetFlags_table by (simp_all add: streamAndSeq_def)
  obtain c enc where c: "NewCodec demoCrypto 1 [1, 2] = Inr c"
      "BuildEncodedAuto demoCompressors ?o (Some c) (\<lambda>n. Some (replicate n 7)) 5 = Inr enc"
      "set enc \<subseteq> set lowerBase36Alphabet"
      "\<forall>text'. map asciiLower text' = enc \<longrightarrow>
        (\<exists>p. ParseInflatedFromLabels demoCompressors text' (Some c) = Inr p \<and> carries ?o p)"
    using sealed_frame_round_trip [OF demoCompressors_ok demoCrypto_ok demoEntropy_ok _ _ t(1), of 1 "[1, 2]" 5]
    by auto
  then obtain p where "ParseInflatedFromLabels demoCompressors enc (Some c) = Inr p" "carries ?o p"
    using map_asciiLower_alphabet by blast
  then show ?thesis using c t(2) by (auto simp: carries_def)
qed

end
