(* ===== verification/Dns_Transport.thy ===== *)
theory Dns_Transport
  imports Dns_Response Vpn_Proto
begin

text \<open>
  Tunnel messages over DNS (\<open>internal/dnsparser/transport.go\<close>): queries that carry an encoded frame in
  their name, and TXT answers that carry a frame in one or several chunks. The string functions are
  modelled on ASCII text, which is what domains and encoded frames are.
\<close>

section \<open>Strings\<close>

definition isSpaceASCII :: "u8 \<Rightarrow> bool" where
  "isSpaceASCII ch \<longleftrightarrow> (9 \<le> ch \<and> ch \<le> 13) \<or> ch = 32"

definition TrimSpace :: "gostring \<Rightarrow> gostring" where
  "TrimSpace s = rev (dropWhile isSpaceASCII (rev (dropWhile isSpaceASCII s)))"

definition TrimSuffixDot :: "gostring \<Rightarrow> gostring" where
  "TrimSuffixDot s = (if s \<noteq> [] \<and> last s = 46 then butlast s else s)"

definition ToLower :: "gostring \<Rightarrow> gostring" where
  "ToLower s = map asciiLower s"

abbreviation (input) maxDNSNameLen :: nat where "maxDNSNameLen \<equiv> 253"
abbreviation (input) maxDNSLabelLen :: nat where "maxDNSLabelLen \<equiv> 63"
abbreviation (input) maxTXTAnswerPayload :: nat where "maxTXTAnswerPayload \<equiv> 255"
abbreviation (input) maxTXTEncodedChunk :: nat where "maxTXTEncodedChunk \<equiv> 191"

section \<open>Query names\<close>

text \<open>The scan for dots: \<open>label\<close> collects the bytes since the last one.\<close>

fun encodeNameLoop :: "bytes \<Rightarrow> gostring \<Rightarrow> dnsError + bytes" where
  "encodeNameLoop label [] =
     (if length label = 0 \<or> maxDNSLabelLen < length label then Inl ErrInvalidName
      else Inr (of_nat (length label) # label))"
| "encodeNameLoop label (c # cs) =
     (if c \<noteq> 46 then encodeNameLoop (label @ [c]) cs
      else if length label = 0 \<or> maxDNSLabelLen < length label then Inl ErrInvalidName
      else case encodeNameLoop [] cs of
        Inl err \<Rightarrow> Inl err
      | Inr encoded \<Rightarrow> Inr (of_nat (length label) # label @ encoded))"

definition encodeDNSNameStrict :: "gostring \<Rightarrow> dnsError + bytes" where
  "encodeDNSNameStrict name0 =
     (let name = TrimSuffixDot (TrimSpace name0) in
      if name = [] then Inr [0]
      else if maxDNSNameLen < length name then Inl ErrInvalidName
      else case encodeNameLoop [] name of
        Inl err \<Rightarrow> Inl err
      | Inr encoded \<Rightarrow> Inr (encoded @ [0]))"

definition encodedQNameLen :: "nat \<Rightarrow> nat \<Rightarrow> nat" where
  "encodedQNameLen encodedChars domainLen =
     (if encodedChars = 0 then domainLen
      else encodedChars + (encodedChars - 1) div maxDNSLabelLen + 1 + domainLen)"

text \<open>The binary search; \<open>best\<close>, \<open>low\<close> and \<open>high\<close> are Go ints.\<close>

function searchMaxChars :: "nat \<Rightarrow> int \<Rightarrow> int \<Rightarrow> int \<Rightarrow> int" where
  "searchMaxChars domainLen low high best =
     (if low \<le> high then
        let mid = (low + high) div 2 in
        if encodedQNameLen (nat mid) domainLen \<le> maxDNSNameLen
        then searchMaxChars domainLen (mid + 1) high mid
        else searchMaxChars domainLen low (mid - 1) best
      else best)"
  by pat_completeness auto
termination by (relation "measure (\<lambda>(d, low, high, best). nat (high - low + 1))") auto

declare searchMaxChars.simps [simp del]

definition CalculateMaxEncodedQNameChars :: "gostring \<Rightarrow> int" where
  "CalculateMaxEncodedQNameChars domain =
     (let domainLen = length (TrimSuffixDot (TrimSpace domain)) in
      if domainLen = 0 then int maxDNSNameLen
      else searchMaxChars domainLen 0 (int maxDNSNameLen) 0)"

text \<open>Consecutive pieces of at most 63 bytes.\<close>

function labelChunks :: "bytes \<Rightarrow> bytes list" where
  "labelChunks data = (if data = [] then [] else take maxDNSLabelLen data # labelChunks (drop maxDNSLabelLen data))"
  by pat_completeness auto
termination by (relation "measure length") auto

declare labelChunks.simps [simp del]

definition EncodeDataToLabels :: "gostring \<Rightarrow> gostring" where
  "EncodeDataToLabels data = (if length data \<le> maxDNSLabelLen then data else dotJoin (labelChunks data))"

definition BuildTunnelQuestionName :: "gostring \<Rightarrow> gostring \<Rightarrow> dnsError + gostring" where
  "BuildTunnelQuestionName domain0 encodedFrame =
     (let domain = TrimSuffixDot (ToLower (TrimSpace domain0)) in
      if domain = [] then Inl ErrInvalidName
      else if encodedFrame = [] then Inr domain
      else
        let name = EncodeDataToLabels encodedFrame @ [46] @ domain in
        if maxDNSNameLen < length name then Inl ErrInvalidName else Inr name)"

section \<open>Queries\<close>

text \<open>\<open>dnsIDCounter\<close> is the threaded counter; it starts from a random or zero value.\<close>

definition nextDNSRequestID :: "u32 \<Rightarrow> u16 \<times> u32" where
  "nextDNSRequestID counter = (let counter = counter + 1 in (ucast counter, counter))"

definition optRecord :: "u16 \<Rightarrow> bytes" where
  "optRecord ednsUDPSize =
     (if 0 < ednsUDPSize then [0] @ be16 DNS_RECORD_TYPE_OPT @ be16 ednsUDPSize @ [0, 0, 0, 0] @ be16 0 else [])"

definition buildTXTQuestionPacketPrepared :: "bytes \<Rightarrow> u16 \<Rightarrow> u16 \<Rightarrow> u32 \<Rightarrow> bytes \<times> u32" where
  "buildTXTQuestionPacketPrepared qname qt ednsUDPSize counter =
     (let (requestID, counter') = nextDNSRequestID counter;
          arCount = (if 0 < ednsUDPSize then 1 else 0)
      in (dnsHeaderBytes requestID 0x0100 1 0 0 arCount @ qname @ be16 qt @ be16 DNSQ_CLASS_IN @
          optRecord ednsUDPSize, counter'))"

definition BuildTXTQuestionPacket :: "gostring \<Rightarrow> u16 \<Rightarrow> u16 \<Rightarrow> u32 \<Rightarrow> dnsError + bytes \<times> u32" where
  "BuildTXTQuestionPacket name qt ednsUDPSize counter =
     (case encodeDNSNameStrict name of
        Inl err \<Rightarrow> Inl err
      | Inr qname \<Rightarrow> Inr (buildTXTQuestionPacketPrepared qname qt ednsUDPSize counter))"

definition PrepareTunnelDomainQname :: "gostring \<Rightarrow> dnsError + gostring \<times> bytes" where
  "PrepareTunnelDomainQname domain =
     (let normalizedDomain = TrimSuffixDot (ToLower (TrimSpace domain)) in
      if normalizedDomain = [] then Inl ErrInvalidName
      else case encodeDNSNameStrict normalizedDomain of
        Inl err \<Rightarrow> Inl err
      | Inr domainQname \<Rightarrow> Inr (normalizedDomain, domainQname))"

definition BuildTunnelTXTQuestionPacketPrepared ::
  "gostring \<Rightarrow> bytes \<Rightarrow> bytes \<Rightarrow> u16 \<Rightarrow> u16 \<Rightarrow> u32 \<Rightarrow> dnsError + bytes \<times> u32" where
  "BuildTunnelTXTQuestionPacketPrepared normalizedDomain domainQname encodedFrame qt ednsUDPSize counter =
     (if normalizedDomain = [] \<or> domainQname = [] then Inl ErrInvalidName
      else if encodedFrame = [] then Inr (buildTXTQuestionPacketPrepared domainQname qt ednsUDPSize counter)
      else if maxDNSNameLen < encodedQNameLen (length encodedFrame) (length normalizedDomain) then Inl ErrInvalidName
      else Inr (buildTXTQuestionPacketPrepared (wireLabels (labelChunks encodedFrame) @ domainQname) qt ednsUDPSize counter))"

definition BuildTunnelTXTQuestionPacket ::
  "gostring \<Rightarrow> bytes \<Rightarrow> u16 \<Rightarrow> u16 \<Rightarrow> u32 \<Rightarrow> dnsError + bytes \<times> u32" where
  "BuildTunnelTXTQuestionPacket domain encodedFrame qt ednsUDPSize counter =
     (case PrepareTunnelDomainQname domain of
        Inl err \<Rightarrow> Inl err
      | Inr (normalizedDomain, domainQname) \<Rightarrow>
          BuildTunnelTXTQuestionPacketPrepared normalizedDomain domainQname encodedFrame qt ednsUDPSize counter)"

section \<open>Names as label lists\<close>

fun splitDots :: "bytes \<Rightarrow> gostring \<Rightarrow> bytes list" where
  "splitDots label [] = [label]"
| "splitDots label (c # cs) = (if c \<noteq> 46 then splitDots (label @ [c]) cs else label # splitDots [] cs)"

lemma splitDots_nonempty [simp]: "splitDots label cs \<noteq> []"
  by (induction label cs rule: splitDots.induct) auto

lemma dotJoin_splitDots: "dotJoin (splitDots label cs) = label @ cs"
  by (induction label cs rule: splitDots.induct) (auto simp: dotJoin_Cons)

lemma splitDots_dotfree: "46 \<notin> set label \<Longrightarrow> l \<in> set (splitDots label cs) \<Longrightarrow> 46 \<notin> set l"
  by (induction label cs rule: splitDots.induct) (auto split: if_splits)

lemma splitDots_append_dotfree: "46 \<notin> set l \<Longrightarrow> splitDots label (l @ cs) = splitDots (label @ l) cs"
  by (induction l arbitrary: label) auto

lemma splitDots_dotJoin:
  "ls \<noteq> [] \<Longrightarrow> (\<And>l. l \<in> set ls \<Longrightarrow> 46 \<notin> set l) \<Longrightarrow> splitDots [] (dotJoin ls) = ls"
proof (induction ls rule: dotJoin.induct)
  case (2 l)
  then show ?case using splitDots_append_dotfree [of l "[]" "[]"] by simp
next
  case (3 l v va)
  then show ?case using splitDots_append_dotfree [of l "[]" "46 # dotJoin (v # va)"] by simp
qed simp

lemma encodeNameLoop_split:
  "encodeNameLoop label cs =
    (if \<forall>l \<in> set (splitDots label cs). 0 < length l \<and> length l \<le> 63
     then Inr (wireLabels (splitDots label cs)) else Inl ErrInvalidName)"
  by (induction label cs rule: encodeNameLoop.induct) auto

lemma encodeDNSNameStrict_eq:
  "encodeDNSNameStrict name0 =
    (let name = TrimSuffixDot (TrimSpace name0) in
     if name = [] then Inr (wireName [])
     else if length name \<le> 253 \<and> (\<forall>l \<in> set (splitDots [] name). 0 < length l \<and> length l \<le> 63)
     then Inr (wireName (splitDots [] name)) else Inl ErrInvalidName)"
  by (auto simp: encodeDNSNameStrict_def Let_def encodeNameLoop_split wireName_def)

text \<open>The labels of a dotted name.\<close>

definition nameLabels :: "gostring \<Rightarrow> bytes list" where
  "nameLabels name0 = (let name = TrimSuffixDot (TrimSpace name0) in if name = [] then [] else splitDots [] name)"

lemma dotJoin_nameLabels: "dotJoin (nameLabels name0) = TrimSuffixDot (TrimSpace name0)"
  by (simp add: nameLabels_def Let_def dotJoin_splitDots)

lemma nameLabels_dotfree: "l \<in> set (nameLabels name0) \<Longrightarrow> 46 \<notin> set l"
  using splitDots_dotfree [of "[]" l] by (auto simp: nameLabels_def Let_def split: if_splits)

lemma encodeDNSNameStrict_labels:
  assumes "encodeDNSNameStrict name0 = Inr w"
  shows "w = wireName (nameLabels name0) \<and> labelsOk (nameLabels name0)"
proof -
  let ?n = "TrimSuffixDot (TrimSpace name0)"
  show ?thesis
  proof (cases "?n = []")
    case True
    then show ?thesis using assms by (auto simp: nameLabels_def encodeDNSNameStrict_eq Let_def labelsOk_def wireName_def)
  next
    case False
    let ?ls = "splitDots [] ?n"
    have w: "w = wireName ?ls" "length ?n \<le> 253" "\<forall>l \<in> set ?ls. 0 < length l \<and> length l \<le> 63"
      using assms False by (auto simp: encodeDNSNameStrict_eq Let_def split: if_splits)
    have "length (wireName ?ls) \<le> 255"
      using length_dotJoin [of ?ls] w(2) by (simp add: dotJoin_splitDots)
    then show ?thesis using w False by (auto simp: nameLabels_def Let_def labelsOk_def)
  qed
qed

lemma labelChunks_Nil [simp]: "labelChunks [] = []"
  by (simp add: labelChunks.simps)

lemma labelChunks_Cons: "data \<noteq> [] \<Longrightarrow> labelChunks data = take 63 data # labelChunks (drop 63 data)"
  by (simp add: labelChunks.simps [of data])

lemma labelChunks_props:
  "concat (labelChunks data) = data \<and> (\<forall>l \<in> set (labelChunks data). 0 < length l \<and> length l \<le> 63 \<and> set l \<subseteq> set data) \<and>
   length (labelChunks data) = (if data = [] then 0 else (length data - 1) div 63 + 1)"
proof (induction data rule: labelChunks.induct)
  case (1 data)
  show ?case
  proof (cases "data = []")
    case False
    have IH: "concat (labelChunks (drop 63 data)) = drop 63 data"
      "\<forall>l \<in> set (labelChunks (drop 63 data)). 0 < length l \<and> length l \<le> 63 \<and> set l \<subseteq> set (drop 63 data)"
      "length (labelChunks (drop 63 data)) = (if drop 63 data = [] then 0 else (length (drop 63 data) - 1) div 63 + 1)"
      using 1 [OF False] by auto
    have "(if drop 63 data = [] then 0 else (length (drop 63 data) - 1) div 63 + 1) = (length data - 1) div 63"
    proof (cases "length data \<le> 63")
      case True
      then have "length data - 1 < 63" by linarith
      then show ?thesis using True by simp
    next
      case gt: False
      then have "length data - 1 = (length data - 64) + 63" by linarith
      then show ?thesis using gt by simp
    qed
    then show ?thesis
      using IH False set_take_subset [of 63 data] set_drop_subset [of 63 data]
      by (auto simp: labelChunks_Cons [OF False])
  qed simp
qed

lemma length_wireLabels: "length (wireLabels ls) = length (concat ls) + length ls"
  by (induction ls) simp_all

lemma length_wireLabels_chunks:
  "data \<noteq> [] \<Longrightarrow> length (wireLabels (labelChunks data)) = length data + (length data - 1) div 63 + 1"
  using labelChunks_props [of data] by (simp add: length_wireLabels)

section \<open>The capacity of a query name\<close>

lemma encodedQNameLen_mono: "m \<le> n \<Longrightarrow> encodedQNameLen m d \<le> encodedQNameLen n d"
  by (auto simp: encodedQNameLen_def intro!: add_mono div_le_mono)

lemma searchMaxChars_spec:
  assumes "\<And>n. int n < low \<Longrightarrow> encodedQNameLen n d \<le> 253" "\<And>n. high < int n \<Longrightarrow> 253 < encodedQNameLen n d"
    and "0 \<le> low" "best = max 0 (low - 1)" "low \<le> high + 1" "0 \<le> high + 1"
  shows "0 \<le> searchMaxChars d low high best \<and>
    (\<forall>n. searchMaxChars d low high best < int n \<longrightarrow> 253 < encodedQNameLen n d) \<and>
    (\<forall>n. int n < searchMaxChars d low high best \<longrightarrow> encodedQNameLen n d \<le> 253) \<and>
    (d \<le> 253 \<longrightarrow> encodedQNameLen (nat (searchMaxChars d low high best)) d \<le> 253)"
  using assms
proof (induction d low high best rule: searchMaxChars.induct)
  case (1 d low high best)
  show ?case
  proof (cases "low \<le> high")
    case False
    then have hl: "high = low - 1" using "1.prems" by linarith
    have best: "searchMaxChars d low high best = best" using False by (simp add: searchMaxChars.simps [of d low high best])
    show ?thesis
    proof (cases "low = 0")
      case True
      then have all: "253 < encodedQNameLen n d" for n using "1.prems"(2) [of n] hl by simp
      from this [of 0] have "253 < d" by (simp add: encodedQNameLen_def)
      then show ?thesis using all best True "1.prems"(4) by simp
    next
      case low: False
      then have b: "best = low - 1" "0 \<le> best" using "1.prems"(3,4) by auto
      then have "encodedQNameLen (nat best) d \<le> 253" using "1.prems"(1) [of "nat best"] by simp
      then show ?thesis using "1.prems"(1,2) hl best b by auto
    qed
  next
    case True
    let ?m = "(low + high) div 2"
    have m: "low \<le> ?m" "?m \<le> high" "0 \<le> ?m" using True "1.prems"(3) by auto
    show ?thesis
    proof (cases "encodedQNameLen (nat ?m) d \<le> 253")
      case ok: True
      have "encodedQNameLen n d \<le> 253" if "int n < ?m + 1" for n
        using encodedQNameLen_mono [of n "nat ?m" d] ok that by (simp add: nat_le_eq_zle le_nat_iff)
      moreover have e: "searchMaxChars d low high best = searchMaxChars d (?m + 1) high ?m"
        using True ok by (simp add: searchMaxChars.simps [of d low high best] Let_def)
      ultimately show ?thesis
        unfolding e using "1.IH"(1) [OF True refl ok] "1.prems"(2,3,6) m by simp
    next
      case no: False
      have out: "253 < encodedQNameLen n d" if "?m - 1 < int n" for n
        using encodedQNameLen_mono [of "nat ?m" n d] no that by (simp add: nat_le_iff)
      have e: "searchMaxChars d low high best = searchMaxChars d low (?m - 1) best"
        using True no by (simp add: searchMaxChars.simps [of d low high best] Let_def)
      have bounds: "low \<le> ?m - 1 + 1" "0 \<le> ?m - 1 + 1" using m by simp_all
      show ?thesis
        unfolding e by (rule "1.IH"(2) [OF True refl no "1.prems"(1) out "1.prems"(3,4) bounds])
    qed
  qed
qed

lemma CalculateMax_spec:
  assumes "TrimSuffixDot (TrimSpace domain) \<noteq> []" "0 < n"
  shows "n \<le> nat (CalculateMaxEncodedQNameChars domain) \<longleftrightarrow>
    encodedQNameLen n (length (TrimSuffixDot (TrimSpace domain))) \<le> 253"
proof -
  let ?d = "length (TrimSuffixDot (TrimSpace domain))"
  have c: "CalculateMaxEncodedQNameChars domain = searchMaxChars ?d 0 (int 253) 0"
    using assms(1) by (simp add: CalculateMaxEncodedQNameChars_def Let_def)
  have big: "253 < encodedQNameLen n ?d" if "int 253 < int n" for n
    using that by (simp add: encodedQNameLen_def)
  let ?r = "searchMaxChars ?d 0 (int 253) 0"
  have r: "0 \<le> ?r" "\<And>n. ?r < int n \<Longrightarrow> 253 < encodedQNameLen n ?d"
      "\<And>n. int n < ?r \<Longrightarrow> encodedQNameLen n ?d \<le> 253"
      "?d \<le> 253 \<Longrightarrow> encodedQNameLen (nat ?r) ?d \<le> 253"
    using searchMaxChars_spec [of 0 ?d "int 253" 0, OF _ big] by auto
  show ?thesis
  proof (cases "?r < int n")
    case True
    then show ?thesis unfolding c using r(2) [OF True] r(1) by (simp add: le_nat_iff)
  next
    case False
    then have "?d \<le> 253" using r(3) [of 0] assms(2) by (simp add: encodedQNameLen_def)
    then show ?thesis
      unfolding c using False r(1,4) encodedQNameLen_mono [of n "nat ?r" ?d] by (simp add: le_nat_iff)
  qed
qed

section \<open>Reading a built query\<close>

lemma drop_dnsHeaderBytes [simp]: "drop 12 (dnsHeaderBytes i f q a n r @ xs) = xs"
  by (simp add: dnsHeaderBytes_def)

lemma rd16_drop: "rd16 data (i + j) = rd16 (drop i data) j" if "i + j + 1 < length data"
  using that by (simp add: rd16_def add.assoc)

lemma parseQuestions_plain:
  assumes "drop offset data = wireName ls @ be16 t @ be16 c @ rest" "labelsOk ls"
  shows "parseQuestions data offset 1 =
    Inr ([\<lparr>qName = (if ls = [] then [46] else map asciiLower (dotJoin ls)), qType = t, qClass = c\<rparr>],
         offset + length (wireName ls) + 4)"
proof -
  let ?n = "offset + length (wireName ls)"
  have len: "length data = ?n + 4 + length rest"
    using arg_cong [OF assms(1), of length] by (cases "offset \<le> length data") (simp_all add: wireName_def)
  have "drop ?n data = be16 t @ be16 c @ rest"
    using arg_cong [OF assms(1), of "drop (length (wireName ls))"] by (simp add: add.commute)
  then have "rd16 data ?n = t" "rd16 data (?n + 2) = c"
    using rd16_drop [of ?n 0 data] rd16_drop [of ?n 2 data] len
    by (simp_all add: wire_simps)
  then show ?thesis
    using parseName_wireName [OF assms] len parseQuestions.simps(2) [of data offset 0] by simp
qed

lemma query_header_likely:
  "isLikelyDNSRequestHeader (parseHeader (dnsHeaderBytes i 0x0100 1 0 0 ar @ xs)) \<longleftrightarrow> ar \<le> 256"
  by (simp add: isLikelyDNSRequestHeader_def isLikelyDNSMessageHeader_def parseHeader_def Let_def
    rd16_dnsHeaderBytes) (auto simp: not_less)

lemma buildTXTQuestionPacketPrepared_parse:
  assumes "buildTXTQuestionPacketPrepared (wireName ls) qt edns counter = (pkt, counter')" "labelsOk ls"
  shows "\<exists>lp. ParseDNSRequestLite pkt = Inr lp \<and> lHasQuestion lp \<and>
    lQuestions lp = [lFirstQuestion lp] \<and> QDCount (lHeader lp) = 1 \<and> hID (lHeader lp) = ucast counter' \<and>
    counter' = counter + 1 \<and>
    lFirstQuestion lp = \<lparr>qName = (if ls = [] then [46] else map asciiLower (dotJoin ls)), qType = qt,
      qClass = DNSQ_CLASS_IN\<rparr> \<and>
    lQuestionEndOffset lp = 16 + length (wireName ls)"
proof -
  let ?h = "dnsHeaderBytes (ucast (counter + 1)) 0x0100 1 0 0 (if 0 < edns then 1 else 0)"
  have p: "pkt = ?h @ wireName ls @ be16 qt @ be16 DNSQ_CLASS_IN @ optRecord edns" "counter' = counter + 1"
    using assms(1) by (auto simp: buildTXTQuestionPacketPrepared_def nextDNSRequestID_def Let_def)
  have "drop 12 pkt = wireName ls @ be16 qt @ be16 DNSQ_CLASS_IN @ optRecord edns" by (simp add: p)
  note q = parseQuestions_plain [OF this assms(2)]
  have likely: "isLikelyDNSRequestHeader (parseHeader pkt)" unfolding p by (simp add: query_header_likely)
  have h: "QDCount (parseHeader pkt) = 1" "hID (parseHeader pkt) = ucast counter'" by (simp_all add: p)
  show ?thesis
    using q likely h p(2)
    by (simp add: ParseDNSRequestLite_def parsePacketLiteWithHeader_def Let_def p(1))
qed

lemma asciiLower_dot_iff [simp]: "asciiLower c = 46 \<longleftrightarrow> c = 46"
proof
  assume low: "asciiLower c = 46"
  show "c = 46"
  proof (rule ccontr)
    assume "c \<noteq> 46"
    then have r: "65 \<le> c" "c \<le> 90" "c + 32 = 46" using low by (auto simp: asciiLower_def split: if_splits)
    have "c = 46 - 32" unfolding eq_diff_eq by (rule r(3))
    then show False using r(1) by simp
  qed
qed simp

lemma length_TrimSuffixDot_ToLower [simp]: "length (TrimSuffixDot (ToLower s)) = length (TrimSuffixDot s)"
  by (auto simp: TrimSuffixDot_def ToLower_def last_map)

lemma length_TrimSuffixDot: "length (TrimSuffixDot s) \<le> length s"
  by (simp add: TrimSuffixDot_def)

lemma length_TrimSpace: "length (TrimSpace s) \<le> length s"
  unfolding TrimSpace_def length_rev
  by (metis length_dropWhile_le length_rev le_trans)

lemma BuildTunnelTXTQuestionPacketPrepared_wire:
  assumes "encodeDNSNameStrict nd = Inr dq" "nd \<noteq> []"
    and "BuildTunnelTXTQuestionPacketPrepared nd dq enc qt edns counter = Inr r"
  shows "labelsOk (labelChunks enc @ nameLabels nd) \<and>
    r = buildTXTQuestionPacketPrepared (wireName (labelChunks enc @ nameLabels nd)) qt edns counter"
proof -
  let ?dls = "nameLabels nd"
  have d: "dq = wireName ?dls" "labelsOk ?dls" using encodeDNSNameStrict_labels [OF assms(1)] by blast+
  have r: "r = buildTXTQuestionPacketPrepared (wireName (labelChunks enc @ ?dls)) qt edns counter"
    using assms(2,3) d(1)
    by (auto simp: BuildTunnelTXTQuestionPacketPrepared_def wireName_def split: if_splits)
  have "labelsOk (labelChunks enc @ ?dls)"
  proof (cases "enc = []")
    case False
    have fit: "encodedQNameLen (length enc) (length nd) \<le> 253"
      using assms(2,3) False d(1) by (auto simp: BuildTunnelTXTQuestionPacketPrepared_def wireName_def split: if_splits)
    have "length (wireName ?dls) \<le> length nd + 2"
      using length_dotJoin [of ?dls] dotJoin_nameLabels [of nd] length_TrimSuffixDot [of "TrimSpace nd"]
        length_TrimSpace [of nd]
      by (cases "?dls = []") (simp_all add: wireName_def)
    then have "length (wireName (labelChunks enc @ ?dls)) \<le> 255"
      using fit False length_wireLabels_chunks [OF False] by (simp add: wireName_def encodedQNameLen_def)
    then show ?thesis using d(2) labelChunks_props [of enc] by (auto simp: labelsOk_def)
  qed (simp add: d(2))
  then show ?thesis using r by blast
qed

lemma query_fits_iff:
  assumes "PrepareTunnelDomainQname domain = Inr (nd, dq)" "enc \<noteq> []"
  shows "(\<exists>r. BuildTunnelTXTQuestionPacket domain enc qt edns counter = Inr r) \<longleftrightarrow>
    length enc \<le> nat (CalculateMaxEncodedQNameChars domain)"
proof -
  have nd: "nd = TrimSuffixDot (ToLower (TrimSpace domain))" "nd \<noteq> []" "encodeDNSNameStrict nd = Inr dq"
    using assms(1) by (auto simp: PrepareTunnelDomainQname_def Let_def split: if_splits sum.splits)
  then have len: "length nd = length (TrimSuffixDot (TrimSpace domain))" by simp
  then have "TrimSuffixDot (TrimSpace domain) \<noteq> []" using nd(2) by auto
  moreover have "dq \<noteq> []" using encodeDNSNameStrict_labels [OF nd(3)] by (auto simp: wireName_def)
  ultimately show ?thesis
    using assms nd(2) len CalculateMax_spec [of domain "length enc"]
    by (simp add: BuildTunnelTXTQuestionPacket_def BuildTunnelTXTQuestionPacketPrepared_def not_less)
qed

section \<open>Property\<close>

text \<open>
  C17. The client's capacity calculation is exact: for a usable tunnel domain, a non-empty encoded
  frame fits into a query name precisely when it has at most \<open>CalculateMaxEncodedQNameChars\<close>
  characters; and a query that is built parses as a request with one question whose name is the
  frame's labels followed by the domain's, in lower case, under the next request ID.
\<close>

theorem query_name_capacity:
  assumes "PrepareTunnelDomainQname domain = Inr (nd, dq)" "enc \<noteq> []"
  shows "case BuildTunnelTXTQuestionPacket domain enc qt edns counter of
      Inl e \<Rightarrow> e = ErrInvalidName \<and> nat (CalculateMaxEncodedQNameChars domain) < length enc
    | Inr (pkt, counter') \<Rightarrow> length enc \<le> nat (CalculateMaxEncodedQNameChars domain) \<and>
        (\<exists>lp. ParseDNSRequestLite pkt = Inr lp \<and>
           lQuestions lp = [\<lparr>qName = map asciiLower (dotJoin (labelChunks enc @ nameLabels nd)), qType = qt,
             qClass = DNSQ_CLASS_IN\<rparr>] \<and>
           hID (lHeader lp) = ucast (counter + 1) \<and> counter' = counter + 1)"
proof -
  have nd: "nd \<noteq> []" "encodeDNSNameStrict nd = Inr dq"
    using assms(1) by (auto simp: PrepareTunnelDomainQname_def Let_def split: if_splits sum.splits)
  have b: "BuildTunnelTXTQuestionPacket domain enc qt edns counter =
      BuildTunnelTXTQuestionPacketPrepared nd dq enc qt edns counter"
    using assms(1) by (simp add: BuildTunnelTXTQuestionPacket_def)
  show ?thesis
  proof (cases "BuildTunnelTXTQuestionPacket domain enc qt edns counter")
    case (Inl e)
    then have "e = ErrInvalidName"
      unfolding b by (auto simp: BuildTunnelTXTQuestionPacketPrepared_def split: if_splits)
    then show ?thesis using Inl query_fits_iff [OF assms, of qt edns counter] by (simp add: not_le)
  next
    case (Inr r)
    obtain pkt counter' where r: "r = (pkt, counter')" by fastforce
    have d: "labelsOk (labelChunks enc @ nameLabels nd)"
        "buildTXTQuestionPacketPrepared (wireName (labelChunks enc @ nameLabels nd)) qt edns counter = (pkt, counter')"
      using BuildTunnelTXTQuestionPacketPrepared_wire [OF nd(2) nd(1)] Inr r unfolding b by auto
    have "labelChunks enc @ nameLabels nd \<noteq> []" using assms(2) by (simp add: labelChunks_Cons)
    then show ?thesis
      using Inr r query_fits_iff [OF assms, of qt edns counter]
        buildTXTQuestionPacketPrepared_parse [OF d(2,1)] by auto
  qed
qed

theorem query_name_capacity_witness:
  "\<exists>pkt lp. BuildTunnelTXTQuestionPacket [32, 65, 46, 98, 46] [48, 107] 16 0 6 = Inr (pkt, 7) \<and>
    ParseDNSRequestLite pkt = Inr lp \<and> hID (lHeader lp) = 7 \<and>
    lQuestions lp = [\<lparr>qName = [48, 107, 46, 97, 46, 98], qType = 16, qClass = 1\<rparr>]"
proof -
  have p: "PrepareTunnelDomainQname [32, 65, 46, 98, 46] = Inr ([97, 46, 98], wireName [[97], [98]])"
    by (simp add: PrepareTunnelDomainQname_def TrimSpace_def TrimSuffixDot_def ToLower_def isSpaceASCII_def
      asciiLower_def encodeDNSNameStrict_def wireName_def Let_def)
  have b: "\<exists>pkt. BuildTunnelTXTQuestionPacket [32, 65, 46, 98, 46] [48, 107] 16 0 6 = Inr (pkt, 7)"
    using p by (simp add: BuildTunnelTXTQuestionPacket_def BuildTunnelTXTQuestionPacketPrepared_def
      encodedQNameLen_def wireName_def buildTXTQuestionPacketPrepared_def nextDNSRequestID_def)
  have l: "nameLabels [97, 46, 98] = [[97], [98]]" "map asciiLower [48, 107, 46, 97, 46, 98] = [48, 107, 46, 97, 46, 98]"
    by (simp_all add: nameLabels_def TrimSpace_def TrimSuffixDot_def isSpaceASCII_def asciiLower_def)
  show ?thesis
    using query_name_capacity [OF p, where enc = "[48, 107]" and qt = 16 and edns = 0 and counter = 6] b l by (auto simp: labelChunks_Cons)
qed

end
