(* ===== verification/Dns_Answers.thy ===== *)
theory Dns_Answers
  imports Dns_Transport "HOL-Library.Multiset"
begin

text \<open>
  TXT answers that carry tunnel frames (\<open>internal/dnsparser/transport.go\<close>): the server's builders, which
  put a frame into one answer or split it over numbered chunks, and the client's reader, which
  collects the chunks in any order. A response is written into a buffer of computed size as in the
  source: \<open>copy\<close> truncates at its end, an indexed write beyond it panics, and a panic is the value
  \<open>None\<close>.
\<close>

datatype answerError =
    ErrTXTAnswerMissing
  | ErrTXTAnswerMalformed
  | ErrTXTAnswerTooLarge
  | AnswerDns dnsError
  | AnswerVpn vpnError
  | AnswerBase baseError

section \<open>TXT strings\<close>

definition buildLengthPrefixedTXTChunk :: "u8 \<Rightarrow> bytes \<Rightarrow> bytes" where
  "buildLengthPrefixedTXTChunk prefix data = [of_nat (1 + length data), prefix] @ data"

text \<open>Character strings of at most 255 bytes.\<close>

function txtStrings :: "bytes \<Rightarrow> bytes" where
  "txtStrings data =
     (if data = [] then [] else of_nat (length (take 255 data)) # take 255 data @ txtStrings (drop 255 data))"
  by pat_completeness auto
termination by (relation "measure length") auto

declare txtStrings.simps [simp del]

definition appendLengthPrefixedTXT :: "bytes \<Rightarrow> bytes" where
  "appendLengthPrefixedTXT data =
     (if length data \<le> 255 then of_nat (length data) # data else txtStrings data)"

text \<open>The encoder fills the rest of the slice exactly.\<close>

definition appendLengthPrefixedBase64TXT :: "bytes \<Rightarrow> bytes" where
  "appendLengthPrefixedBase64TXT data = of_nat (EncodedRawBase64Len (length data)) # EncodeRawBase64 data"

definition buildTXTAnswerChunk :: "bytes \<Rightarrow> bool \<Rightarrow> bytes" where
  "buildTXTAnswerChunk data baseEncode =
     (if \<not> baseEncode then appendLengthPrefixedTXT data else appendLengthPrefixedBase64TXT data)"

text \<open>
  The chunk loops. A \<open>maxChunkNData\<close> of zero would not advance; the callers pass 254 and 190, and the
  model stops there instead.
\<close>

function rawChunksFrom :: "nat \<Rightarrow> bytes list \<Rightarrow> bytes \<Rightarrow> nat \<Rightarrow> nat \<Rightarrow> bytes list" where
  "rawChunksFrom chunkID chunks payload cursor maxChunkNData =
     (if cursor < length payload \<and> 0 < maxChunkNData then
        let stop = min (cursor + maxChunkNData) (length payload) in
        rawChunksFrom (chunkID + 1) (chunks @ [buildLengthPrefixedTXTChunk (of_nat chunkID) (slice payload cursor stop)])
          payload stop maxChunkNData
      else chunks)"
  by pat_completeness auto
termination by (relation "measure (\<lambda>(i, cs, payload, cursor, n). length payload - cursor)") auto

declare rawChunksFrom.simps [simp del]

definition appendRawTXTAnswerChunks :: "bytes list \<Rightarrow> bytes \<Rightarrow> nat \<Rightarrow> nat \<Rightarrow> bytes list" where
  "appendRawTXTAnswerChunks chunks payload cursor maxChunkNData = rawChunksFrom 1 chunks payload cursor maxChunkNData"

function base64ChunksFrom :: "nat \<Rightarrow> bytes list \<Rightarrow> bytes \<Rightarrow> nat \<Rightarrow> nat \<Rightarrow> bytes list" where
  "base64ChunksFrom chunkID chunks payload cursor maxChunkNData =
     (if cursor < length payload \<and> 0 < maxChunkNData then
        let stop = min (cursor + maxChunkNData) (length payload) in
        base64ChunksFrom (chunkID + 1)
          (chunks @ [appendLengthPrefixedBase64TXT (of_nat chunkID # slice payload cursor stop)])
          payload stop maxChunkNData
      else chunks)"
  by pat_completeness auto
termination by (relation "measure (\<lambda>(i, cs, payload, cursor, n). length payload - cursor)") auto

declare base64ChunksFrom.simps [simp del]

definition appendBase64TXTAnswerChunks :: "bytes list \<Rightarrow> bytes \<Rightarrow> nat \<Rightarrow> nat \<Rightarrow> bytes list" where
  "appendBase64TXTAnswerChunks chunks payload cursor maxChunkNData = base64ChunksFrom 1 chunks payload cursor maxChunkNData"

definition answerTotalChunks :: "nat \<Rightarrow> nat \<Rightarrow> nat \<Rightarrow> nat" where
  "answerTotalChunks payloadLen maxChunk0Data maxChunkNData =
     (let remaining = int payloadLen - int maxChunk0Data
      in 1 + (if 0 < remaining then (nat remaining + maxChunkNData - 1) div maxChunkNData else 0))"

definition buildTXTAnswerChunks :: "bytes \<Rightarrow> bool \<Rightarrow> answerError + bytes list" where
  "buildTXTAnswerChunks rawFrame baseEncode =
     (let maxChunk = (if baseEncode then maxTXTEncodedChunk else maxTXTAnswerPayload) in
      if rawFrame = [] then Inr [appendLengthPrefixedTXT []]
      else if length rawFrame \<le> maxChunk then Inr [buildTXTAnswerChunk rawFrame baseEncode]
      else case Parse rawFrame of
        Inl err \<Rightarrow> Inr [buildTXTAnswerChunk rawFrame baseEncode]
      | Inr header \<Rightarrow>
          let headerLen = HeaderLength header;
              maxChunk0Data = maxChunk - 2 - headerLen;
              maxChunkNData = maxChunk - 1;
              totalChunks = answerTotalChunks (length (Payload header)) maxChunk0Data maxChunkNData
          in
          if 255 < totalChunks then Inl ErrTXTAnswerTooLarge
          else
            let chunk0DataLen = min maxChunk0Data (length (Payload header));
                rawChunk0 = [0, of_nat totalChunks] @ take headerLen rawFrame @ take chunk0DataLen (Payload header)
            in if \<not> baseEncode
               then Inr (appendRawTXTAnswerChunks [appendLengthPrefixedTXT rawChunk0] (Payload header)
                      maxChunk0Data maxChunkNData)
               else Inr (appendBase64TXTAnswerChunks [appendLengthPrefixedBase64TXT rawChunk0] (Payload header)
                      maxChunk0Data maxChunkNData))"

section \<open>The answer's name\<close>

text \<open>
  \<open>strings.EqualFold\<close>: its ASCII loop, and the comparison it continues with at the first non-ASCII
  byte as an argument.
\<close>

fun EqualFold :: "(gostring \<Rightarrow> gostring \<Rightarrow> bool) \<Rightarrow> gostring \<Rightarrow> gostring \<Rightarrow> bool" where
  "EqualFold unicodeFold (sr # s) (tr # t) =
     (if 128 \<le> sr OR tr then unicodeFold (sr # s) (tr # t)
      else if tr = sr then EqualFold unicodeFold s t
      else if 65 \<le> min sr tr \<and> min sr tr \<le> 90 \<and> max sr tr = min sr tr + 32 then EqualFold unicodeFold s t
      else False)"
| "EqualFold unicodeFold s t = (length s = length t)"

definition sameDNSName :: "(gostring \<Rightarrow> gostring \<Rightarrow> bool) \<Rightarrow> gostring \<Rightarrow> gostring \<Rightarrow> bool" where
  "sameDNSName unicodeFold a b = EqualFold unicodeFold (TrimSuffixDot a) (TrimSuffixDot b)"

definition extractFirstQuestionNameWire :: "bytes \<Rightarrow> (bytes \<times> gostring) option" where
  "extractFirstQuestionNameWire packet =
     (if length packet < dnsHeaderSize then None
      else if QDCount (parseHeader packet) = 0 then None
      else case parseName packet dnsHeaderSize of
        Inl err \<Rightarrow> None
      | Inr (name, nextOffset) \<Rightarrow>
          if nextOffset \<le> dnsHeaderSize \<or> length packet < nextOffset then None
          else Some (slice packet dnsHeaderSize nextOffset, name))"

definition responseAnswerNameBytes ::
  "(gostring \<Rightarrow> gostring \<Rightarrow> bool) \<Rightarrow> bytes \<Rightarrow> gostring \<Rightarrow> dnsError + bytes" where
  "responseAnswerNameBytes unicodeFold questionPacket answerName =
     (case extractFirstQuestionNameWire questionPacket of
        Some (rawName, parsedName) \<Rightarrow>
          if sameDNSName unicodeFold parsedName answerName then Inr rawName
          else encodeDNSNameStrict answerName
      | None \<Rightarrow> encodeDNSNameStrict answerName)"

section \<open>Responses\<close>

text \<open>\<open>copy(response[offset:], src)\<close> and the \<open>PutUint16\<close>/\<open>PutUint32\<close> calls at the write position.\<close>

definition bufCopy :: "nat \<Rightarrow> bytes \<Rightarrow> bytes \<Rightarrow> bytes" where
  "bufCopy cap out src = out @ take (cap - length out) src"

definition bufPut :: "nat \<Rightarrow> bytes \<Rightarrow> bytes \<Rightarrow> bytes option" where
  "bufPut cap out bs = (if length out + length bs \<le> cap then Some (out @ bs) else None)"

definition bufFinish :: "nat \<Rightarrow> bytes \<Rightarrow> bytes" where
  "bufFinish cap out = out @ replicate (cap - length out) 0"

definition txtRecordFixed :: "bytes \<Rightarrow> bytes" where
  "txtRecordFixed payload =
     be16 DNS_RECORD_TYPE_TXT @ be16 DNSQ_CLASS_IN @ be32 0 @ be16 (of_nat (length payload))"

fun writeAnswers :: "nat \<Rightarrow> bool \<Rightarrow> nat \<Rightarrow> bytes \<Rightarrow> nat \<Rightarrow> bytes list \<Rightarrow> bytes \<Rightarrow> bytes option" where
  "writeAnswers cap useAnswerNameCompression firstAnswerNameOffset nameBytes i [] out = Some out"
| "writeAnswers cap useAnswerNameCompression firstAnswerNameOffset nameBytes i (payload # answerPayloads) out =
     (case (if useAnswerNameCompression \<and> 0 < i \<and> firstAnswerNameOffset \<le> 0x3FFF
            then bufPut cap out (be16 (0xC000 OR of_nat firstAnswerNameOffset))
            else Some (bufCopy cap out nameBytes)) of
        None \<Rightarrow> None
      | Some out1 \<Rightarrow>
          (case bufPut cap out1 (txtRecordFixed payload) of
             None \<Rightarrow> None
           | Some out2 \<Rightarrow>
               writeAnswers cap useAnswerNameCompression firstAnswerNameOffset nameBytes (i + 1) answerPayloads
                 (bufCopy cap out2 payload)))"

fun answersLen :: "bool \<Rightarrow> bytes \<Rightarrow> nat \<Rightarrow> bytes list \<Rightarrow> nat" where
  "answersLen useAnswerNameCompression nameBytes i [] = 0"
| "answersLen useAnswerNameCompression nameBytes i (payload # answerPayloads) =
     (if useAnswerNameCompression \<and> 0 < i then 2 else length nameBytes) + 10 + length payload +
     answersLen useAnswerNameCompression nameBytes (i + 1) answerPayloads"

definition buildSingleTXTResponsePacket ::
  "(gostring \<Rightarrow> gostring \<Rightarrow> bool) \<Rightarrow> bytes \<Rightarrow> gostring \<Rightarrow> bytes \<Rightarrow> answerError + bytes" where
  "buildSingleTXTResponsePacket unicodeFold questionPacket answerName answerPayload =
     (if length questionPacket < dnsHeaderSize then Inl (AnswerDns ErrDnsPacketTooShort)
      else
        let header = parseHeader questionPacket in
        case extractQuestionSection questionPacket header of (questionBytes, questionCount, questionEndOffset) \<Rightarrow>
        case findOPTRecordRange questionPacket header questionEndOffset of (optStart, optLen) \<Rightarrow>
        case responseAnswerNameBytes unicodeFold questionPacket answerName of
          Inl err \<Rightarrow> Inl (AnswerDns err)
        | Inr nameBytes \<Rightarrow>
            Inr (dnsHeaderBytes (hID header) (buildResponseFlags (hFlags header) DNSR_CODE_NO_ERROR)
                   questionCount 1 0 (getARCount optLen) @
                 questionBytes @ nameBytes @ txtRecordFixed answerPayload @ answerPayload @
                 (if 0 < optLen then slice questionPacket optStart (optStart + optLen) else [])))"

definition BuildTXTResponsePacket ::
  "(gostring \<Rightarrow> gostring \<Rightarrow> bool) \<Rightarrow> bytes \<Rightarrow> gostring \<Rightarrow> bytes list \<Rightarrow> (answerError + bytes) option" where
  "BuildTXTResponsePacket unicodeFold questionPacket answerName answerPayloads =
     (if length answerPayloads = 1
      then Some (buildSingleTXTResponsePacket unicodeFold questionPacket answerName (answerPayloads ! 0))
      else if length questionPacket < dnsHeaderSize then Some (Inl (AnswerDns ErrDnsPacketTooShort))
      else
        let header = parseHeader questionPacket in
        case extractQuestionSection questionPacket header of (questionBytes, questionCount, questionEndOffset) \<Rightarrow>
        case findOPTRecordRange questionPacket header questionEndOffset of (optStart, optLen) \<Rightarrow>
        case responseAnswerNameBytes unicodeFold questionPacket answerName of
          Inl err \<Rightarrow> Some (Inl (AnswerDns err))
        | Inr nameBytes \<Rightarrow>
            let useAnswerNameCompression = 1 < length answerPayloads;
                answerLen = answersLen useAnswerNameCompression nameBytes 0 answerPayloads;
                cap = dnsHeaderSize + length questionBytes + answerLen + optLen;
                out = bufCopy cap
                  (dnsHeaderBytes (hID header) (buildResponseFlags (hFlags header) DNSR_CODE_NO_ERROR)
                     questionCount (of_nat (length answerPayloads)) 0 (getARCount optLen)) questionBytes
            in case writeAnswers cap useAnswerNameCompression (length out) nameBytes 0 answerPayloads out of
                 None \<Rightarrow> None
               | Some out \<Rightarrow>
                   Some (Inr (bufFinish cap
                     (if 0 < optLen then bufCopy cap out (slice questionPacket optStart (optStart + optLen)) else out))))"

definition BuildVPNResponsePacket ::
  "compressors \<Rightarrow> (gostring \<Rightarrow> gostring \<Rightarrow> bool) \<Rightarrow> bytes \<Rightarrow> gostring \<Rightarrow> vpnPacket \<Rightarrow> bool \<Rightarrow>
    (answerError + bytes) option" where
  "BuildVPNResponsePacket cs unicodeFold questionPacket answerName packet baseEncode =
     (case BuildRawAuto cs (optionsOf packet) DefaultMinSize of
        Inl err \<Rightarrow> Some (Inl (AnswerVpn err))
      | Inr rawFrame \<Rightarrow>
          let maxChunk = (if baseEncode then maxTXTEncodedChunk else maxTXTAnswerPayload) in
          if length rawFrame \<le> maxChunk
          then Some (buildSingleTXTResponsePacket unicodeFold questionPacket answerName
                 (buildTXTAnswerChunk rawFrame baseEncode))
          else case buildTXTAnswerChunks rawFrame baseEncode of
            Inl err \<Rightarrow> Some (Inl err)
          | Inr answerPayloads \<Rightarrow> BuildTXTResponsePacket unicodeFold questionPacket answerName answerPayloads)"

section \<open>Reading an answer\<close>

text \<open>A string that claims more bytes than are left takes what is left.\<close>

function extractTXTStrings :: "bytes \<Rightarrow> bytes" where
  "extractTXTStrings rData =
     (case rData of
        [] \<Rightarrow> []
      | b # rest \<Rightarrow>
          let size = unat b in
          if size = 0 then extractTXTStrings rest
          else if length rest < size then rest
          else take size rest @ extractTXTStrings (drop size rest))"
  by pat_completeness auto
termination by (relation "measure length") auto

declare extractTXTStrings.simps [simp del]

definition extractTXTBytes :: "bytes \<Rightarrow> bytes" where
  "extractTXTBytes rData =
     (if rData = [] then []
      else if unat (rData ! 0) + 1 = length rData then tl rData
      else extractTXTStrings rData)"

definition extractTXTAnswerPayloads :: "dnsPacket \<Rightarrow> bytes list" where
  "extractTXTAnswerPayloads parsed =
     filter (\<lambda>raw. length raw \<noteq> 0)
       (map (\<lambda>answer. extractTXTBytes (rrRData answer))
         (filter (\<lambda>answer. rrType answer = DNS_RECORD_TYPE_TXT) (dAnswers parsed)))"

text \<open>The loop's variables; \<open>asmHeader\<close> is the header once \<open>headerSeen\<close>, a nil chunk is \<open>None\<close>.\<close>

record assembly =
  asmChunks :: "bytes option list"
  asmTotal :: nat
  asmSeen :: nat
  asmHeader :: "vpnPacket option"

definition emptyAssembly :: assembly where
  "emptyAssembly = \<lparr>asmChunks = replicate 256 None, asmTotal = 0, asmSeen = 0, asmHeader = None\<rparr>"

definition putChunk :: "nat \<Rightarrow> bytes \<Rightarrow> assembly \<Rightarrow> assembly" where
  "putChunk i d st =
     st\<lparr>asmSeen := (if asmChunks st ! i = None then asmSeen st + 1 else asmSeen st),
        asmChunks := (asmChunks st)[i := Some d]\<rparr>"

definition decodeAnswer :: "bool \<Rightarrow> bytes \<Rightarrow> answerError + bytes" where
  "decodeAnswer baseEncoded raw = (if baseEncoded then map_sum AnswerBase id (DecodeRawBase64 raw) else Inr raw)"

definition assembleStep :: "bytes \<Rightarrow> assembly \<Rightarrow> answerError + assembly" where
  "assembleStep raw st =
     (if length raw = 0 then Inr st
      else if raw ! 0 = 0 then
        (if length raw < 3 then Inl ErrTXTAnswerMalformed
         else
           let totalExpected = unat (raw ! 1) in
           if totalExpected \<le> 0 \<or> length (asmChunks st) < totalExpected then Inl ErrTXTAnswerMalformed
           else case ParseAtOffset raw 2 of
             Inl err \<Rightarrow> Inl (AnswerVpn err)
           | Inr parsed \<Rightarrow>
               Inr (putChunk 0 (Payload parsed) (st\<lparr>asmTotal := totalExpected, asmHeader := Some parsed\<rparr>)))
      else
        let chunkID = unat (raw ! 0) in
        if length (asmChunks st) \<le> chunkID then Inl ErrTXTAnswerMalformed
        else Inr (putChunk chunkID (tl raw) st))"

fun assembleLoop :: "bool \<Rightarrow> bytes list \<Rightarrow> assembly \<Rightarrow> answerError + assembly" where
  "assembleLoop baseEncoded [] st = Inr st"
| "assembleLoop baseEncoded (raw # rawAnswers) st =
     (case decodeAnswer baseEncoded raw of
        Inl err \<Rightarrow> Inl err
      | Inr raw' \<Rightarrow>
          (case assembleStep raw' st of
             Inl err \<Rightarrow> Inl err
           | Inr st' \<Rightarrow> assembleLoop baseEncoded rawAnswers st'))"

definition assembleFinish :: "compressors \<Rightarrow> assembly \<Rightarrow> answerError + vpnPacket" where
  "assembleFinish cs st =
     (case asmHeader st of
        None \<Rightarrow> Inl ErrTXTAnswerMalformed
      | Some header \<Rightarrow>
          if asmTotal st \<le> 0 \<or> asmSeen st \<noteq> asmTotal st then Inl ErrTXTAnswerMalformed
          else if list_ex (\<lambda>i. asmChunks st ! i = None) [0..<asmTotal st] then Inl ErrTXTAnswerMalformed
          else if list_ex (\<lambda>i. asmChunks st ! i \<noteq> None) [asmTotal st..<length (asmChunks st)]
          then Inl ErrTXTAnswerMalformed
          else
            let payload = concat (map (\<lambda>i. case asmChunks st ! i of None \<Rightarrow> [] | Some d \<Rightarrow> d) [0..<asmTotal st])
            in map_sum AnswerVpn id (InflatePayload cs (header\<lparr>Payload := payload\<rparr>)))"

definition assembleVPNResponse :: "compressors \<Rightarrow> bytes list \<Rightarrow> bool \<Rightarrow> answerError + vpnPacket" where
  "assembleVPNResponse cs rawAnswers baseEncoded =
     (if length rawAnswers = 1 then
        (case decodeAnswer baseEncoded (rawAnswers ! 0) of
           Inl err \<Rightarrow> Inl err
         | Inr raw \<Rightarrow> map_sum AnswerVpn id (ParseInflated cs raw))
      else
        case assembleLoop baseEncoded rawAnswers emptyAssembly of
          Inl err \<Rightarrow> Inl err
        | Inr st \<Rightarrow> assembleFinish cs st)"

definition ExtractVPNResponse :: "compressors \<Rightarrow> bytes \<Rightarrow> bool \<Rightarrow> answerError + vpnPacket" where
  "ExtractVPNResponse cs packet baseEncoded =
     (case ParsePacket packet of
        Inl err \<Rightarrow> Inl (AnswerDns err)
      | Inr parsed \<Rightarrow>
          let rawAnswers = extractTXTAnswerPayloads parsed in
          if length rawAnswers = 0 then Inl ErrTXTAnswerMissing
          else assembleVPNResponse cs rawAnswers baseEncoded)"

section \<open>Diagnostics\<close>

definition summarizeRecordTypes :: "resourceRecord list \<Rightarrow> string" where
  "summarizeRecordTypes records =
     (if records = [] then []
      else
        let (order, counts) =
              fold (\<lambda>rr (order, counts).
                (if mget counts (rrType rr) = None then order @ [rrType rr] else order,
                 mput counts (rrType rr) ((case mget counts (rrType rr) of None \<Rightarrow> 0 | Some n \<Rightarrow> n) + 1)))
                records ([], []);
            parts = map (\<lambda>t. DNSRecordTypeName t @ '' x'' @
              formatUint (case mget counts t of None \<Rightarrow> 0 | Some n \<Rightarrow> n)) order
        in concat (map (\<lambda>i. (if 0 < i then '', '' else []) @ parts ! i) [0..<length parts]))"

definition dnsErrorText :: "dnsError \<Rightarrow> string" where
  "dnsErrorText e =
     (case e of
        ErrDnsPacketTooShort \<Rightarrow> ''dns packet too short''
      | ErrInvalidName \<Rightarrow> ''invalid dns name''
      | ErrInvalidQuestion \<Rightarrow> ''invalid dns question section''
      | ErrInvalidAnswer \<Rightarrow> ''invalid dns resource record section''
      | ErrNotDNSMessage \<Rightarrow> ''packet does not look like a complete dns message''
      | ErrNotDNSRequest \<Rightarrow> ''packet does not look like a supported dns request'')"

definition DescribeResponseWithoutTunnelPayload :: "bytes \<Rightarrow> string" where
  "DescribeResponseWithoutTunnelPayload packet =
     (case ParsePacket packet of
        Inl err \<Rightarrow> ''unparseable dns response: '' @ dnsErrorText err
      | Inr parsed \<Rightarrow>
          let name = (if dQuestions parsed \<noteq> [] \<and> qName (dQuestions parsed ! 0) \<noteq> []
                then map (char_of \<circ> unat) (qName (dQuestions parsed ! 0)) else ''-'');
              answerKinds = summarizeRecordTypes (dAnswers parsed);
              answerKinds = (if answerKinds = [] then ''none'' else answerKinds);
              h = dHeader parsed
          in ''RCODE='' @ formatUint (unat (hRCode h)) @ '' QD='' @ formatUint (unat (QDCount h)) @
             '' AN='' @ formatUint (unat (ANCount h)) @ '' NS='' @ formatUint (unat (NSCount h)) @
             '' AR='' @ formatUint (unat (ARCount h)) @ '' QName='' @ name @ '' Answers='' @ answerKinds)"

section \<open>Resource records laid out in a message\<close>

lemma parseRecords_step:
  assumes n: "parseName data offset = Inr (name, offset + k)"
    and d: "drop (offset + k) data = be16 t @ be16 c @ be32 ttl @ be16 (of_nat (length rd)) @ rd @ rest"
    and len: "length rd < 65536"
    and more: "parseResourceRecords data (offset + k + 10 + length rd) m = Inr (rs, stop)"
  shows "parseResourceRecords data offset (Suc m) =
    Inr (\<lparr>rrName = name, rrType = t, rrClass = c, rrTTL = ttl, rrRDLen = of_nat (length rd), rrRData = rd\<rparr> # rs, stop)"
proof -
  let ?n = "offset + k"
  have l: "length data = ?n + 10 + length rd + length rest"
    using arg_cong [OF d, of length] by (cases "?n \<le> length data") simp_all
  have f: "rd16 data ?n = t" "rd16 data (?n + 2) = c" "rd16 data (?n + 8) = of_nat (length rd)"
    using rd16_drop [of ?n 0 data] rd16_drop [of ?n 2 data] rd16_drop [of ?n 8 data] l d
    by (simp_all add: wire_simps)
  have "rd32 data (?n + 4) = rd32 (drop ?n data) 4"
    using rd16_drop [of ?n 4 data] rd16_drop [of ?n "4 + 2" data] l unfolding rd32_def by (simp add: ac_simps)
  then have g: "rd32 data (?n + 4) = ttl" unfolding d by (simp add: wire_simps)
  have s: "slice data (?n + 10) (?n + 10 + length rd) = rd"
  proof -
    have "drop (?n + 10) data = drop 10 (drop ?n data)" by (simp add: add.commute)
    then show ?thesis unfolding slice_def d by simp
  qed
  have u: "unat (of_nat (length rd) :: u16) = length rd" using len by (rule unat_of_nat_u16)
  show ?thesis
    unfolding parseResourceRecords.simps n using f(2) by (simp add: f(1,3) g s u more l Let_def)
qed

text \<open>A pointer to a name written out earlier in the message reads as that name.\<close>

lemma pointer_plus: "off \<le> 0x3FFF \<Longrightarrow> (0xC000 OR of_nat off :: u16) = of_nat (49152 + off)"
proof -
  assume "off \<le> 0x3FFF"
  then have "take_bit 14 off = off" by (simp add: take_bit_nat_eq_self)
  then have lo: "bit off n \<Longrightarrow> n < 14" for n by (metis bit_take_bit_iff)
  have "(0xC000 :: u16) = push_bit 14 3" by (simp add: push_bit_eq_mult)
  then have hi: "bit (0xC000 :: u16) n \<Longrightarrow> 14 \<le> n" for n by (simp only: bit_push_bit_iff)
  have "bit (of_nat off :: u16) n \<Longrightarrow> n < 14" for n using lo by (simp add: bit_of_nat_iff)
  then have "(0xC000 OR of_nat off :: u16) = 0xC000 + of_nat off"
    using hi by (intro disjunctive_add [symmetric]) (meson not_le)
  then show ?thesis by simp
qed

lemma unat_hi8: "unat (hi8 w) = unat w div 256"
  using unat_join16 [of "hi8 w" "lo8 w"] by simp

lemma rd16_pointer: "off \<le> 0x3FFF \<Longrightarrow> unat ((0xC000 OR of_nat off :: u16) AND 0x3FFF) = off"
proof -
  assume le: "off \<le> 0x3FFF"
  have m: "(0x3FFF :: u16) = mask 14" by (simp add: mask_eq_decr_exp)
  have "unat ((0xC000 OR of_nat off :: u16) AND 0x3FFF) = unat (of_nat (49152 + off) :: u16) mod 16384"
    unfolding pointer_plus [OF le] m take_bit_eq_mask [symmetric]
    by (subst unsigned_take_bit_eq) (simp add: take_bit_eq_mod)
  also have "\<dots> = (49152 + off) mod 16384" using le by (subst unat_of_nat_u16) simp_all
  also have "\<dots> = off" using le by (simp add: mod_if)
  finally show ?thesis .
qed

lemma hi8_pointer: "off \<le> 0x3FFF \<Longrightarrow> 192 \<le> unat (hi8 (0xC000 OR of_nat off :: u16))"
  unfolding unat_hi8 pointer_plus by (subst unat_of_nat_u16) simp_all

lemma parseName_pointer:
  assumes p: "drop offset data = be16 (0xC000 OR of_nat off) @ rest"
    and off: "12 \<le> off" "off < offset" "off \<le> 0x3FFF"
    and t: "drop off data = wireName ls @ rest'" and ok: "labelsOk ls"
  shows "parseName data offset =
    Inr (if ls = [] then [46] else map asciiLower (dotJoin ls), offset + 2)"
proof -
  have len: "offset + 1 < length data" using arg_cong [OF p, of length] by (simp add: not_less)
  have r: "rd16 data offset = 0xC000 OR of_nat off"
    using rd16_drop [of offset 0 data] len p by (simp add: wire_simps)
  have b: "data ! offset = hi8 (0xC000 OR of_nat off)"
    using arg_cong [OF p, of "\<lambda>xs. xs ! 0"] len by (simp add: be16_def)
  let ?r = "(offset + 2, ls \<noteq> [], Some (if ls = [] then [] else map asciiLower (dotJoin ls)))"
  have ptr: "unat (rd16 data offset AND 0x3FFF) = off" unfolding r by (rule rd16_pointer [OF off(3)])
  have w: "walks data off True 1 (offset + 2) False 1 (Some []) ?r"
    using walks_wireName [OF t, of 1 True 1 "offset + 2" False "[]"] ok
    by (auto simp: labelsOk_def wireName_def split: if_splits)
  have "walks data offset False 0 offset False 1 (Some []) ?r"
  proof (rule walks.pointer)
    show "offset + 1 < length data" by (rule len)
    show "192 \<le> unat (data ! offset)" unfolding b by (rule hi8_pointer [OF off(3)])
    show "walks data (unat (rd16 data offset AND 0x3FFF)) True (0 + 1) (if False then offset else offset + 2)
        False 1 (Some []) ?r" unfolding ptr using w by simp
  qed (simp_all add: ptr off)
  then show ?thesis
    using len unfolding walkLoop_walks [symmetric] by (simp add: parseName_def walkName_def)
qed

section \<open>Responses as byte strings\<close>

fun answersBytes :: "nat \<Rightarrow> bytes \<Rightarrow> nat \<Rightarrow> bytes list \<Rightarrow> bytes" where
  "answersBytes off nm i [] = []"
| "answersBytes off nm i (p # ps) =
     (if 0 < i then be16 (0xC000 OR of_nat off) else nm) @ txtRecordFixed p @ p @ answersBytes off nm (i + 1) ps"

lemma length_txtRecordFixed [simp]: "length (txtRecordFixed p) = 10"
  by (simp add: txtRecordFixed_def)

lemma length_answersBytes: "length (answersBytes off nm i ps) = answersLen True nm i ps"
  by (induction ps arbitrary: i) auto

lemma writeAnswers_fits:
  assumes "off \<le> 0x3FFF" "length out + answersLen True nm i ps \<le> cap"
  shows "writeAnswers cap True off nm i ps out = Some (out @ answersBytes off nm i ps)"
  using assms
proof (induction ps arbitrary: i out)
  case (Cons p ps)
  show ?case
  proof (cases "0 < i")
    case True
    then show ?thesis
      using Cons.prems Cons.IH [of "out @ be16 (0xC000 OR of_nat off) @ txtRecordFixed p @ p" "i + 1"]
      by (simp add: bufPut_def bufCopy_def)
  next
    case False
    then show ?thesis
      using Cons.prems Cons.IH [of "out @ nm @ txtRecordFixed p @ p" "i + 1"]
      by (simp add: bufPut_def bufCopy_def)
  qed
qed simp

lemma parseRecords_pointers:
  assumes "drop offset data = answersBytes off nm i ps @ rest" "0 < i"
    and "12 \<le> off" "off < offset" "off \<le> 0x3FFF" "drop off data = wireName ls @ rest'" "labelsOk ls"
    and "\<forall>p \<in> set ps. length p < 65536"
  shows "\<exists>rs. parseResourceRecords data offset (length ps) = Inr (rs, offset + length (answersBytes off nm i ps)) \<and>
    map rrRData rs = ps \<and> (\<forall>r \<in> set rs. rrType r = DNS_RECORD_TYPE_TXT)"
  using assms
proof (induction ps arbitrary: i offset)
  case (Cons p ps)
  let ?o = "offset + 2 + 10 + length p"
  have d: "drop offset data = be16 (0xC000 OR of_nat off) @ txtRecordFixed p @ p @ answersBytes off nm (i + 1) ps @ rest"
    using Cons.prems(1,2) by simp
  have n: "parseName data offset = Inr (if ls = [] then [46] else map asciiLower (dotJoin ls), offset + 2)"
    by (rule parseName_pointer [OF d Cons.prems(3,4,5,6,7)])
  have d2: "drop (offset + 2) data = txtRecordFixed p @ p @ answersBytes off nm (i + 1) ps @ rest"
    using arg_cong [OF d, of "drop 2"] by (simp add: add.commute)
  have d3: "drop ?o data = answersBytes off nm (i + 1) ps @ rest"
    using arg_cong [OF d2, of "drop (10 + length p)"] by (simp add: ac_simps)
  have o: "off < ?o" using Cons.prems(4) by simp
  obtain rs where rs: "parseResourceRecords data ?o (length ps) = Inr (rs, ?o + length (answersBytes off nm (i + 1) ps))"
      "map rrRData rs = ps" "\<forall>r \<in> set rs. rrType r = DNS_RECORD_TYPE_TXT"
    using Cons.IH [OF d3 _ Cons.prems(3) o Cons.prems(5,6,7)] Cons.prems(8) by auto
  have e: "?o + length (answersBytes off nm (i + 1) ps) = offset + length (answersBytes off nm i (p # ps))"
    using Cons.prems(2) by simp
  have len: "length p < 65536" using Cons.prems(8) by simp
  show ?case
    using parseRecords_step [OF n d2 [unfolded txtRecordFixed_def append_assoc] len rs(1)] rs(2,3)
    unfolding e length_Cons by fastforce
qed simp

lemma parseRecords_answers:
  assumes "drop off data = answersBytes off (wireName ls) 0 ps @ rest" "12 \<le> off" "off \<le> 0x3FFF" "labelsOk ls"
    and "\<forall>p \<in> set ps. length p < 65536"
  shows "\<exists>rs. parseResourceRecords data off (length ps) = Inr (rs, off + length (answersBytes off (wireName ls) 0 ps)) \<and>
    map rrRData rs = ps \<and> (\<forall>r \<in> set rs. rrType r = DNS_RECORD_TYPE_TXT)"
proof (cases ps)
  case (Cons p qs)
  let ?k = "length (wireName ls)"
  let ?o = "off + ?k + 10 + length p"
  have d: "drop off data = wireName ls @ txtRecordFixed p @ p @ answersBytes off (wireName ls) 1 qs @ rest"
    using assms(1) Cons by simp
  have d2: "drop (off + ?k) data = txtRecordFixed p @ p @ answersBytes off (wireName ls) 1 qs @ rest"
    using arg_cong [OF d, of "drop ?k"] by (simp add: add.commute)
  have d3: "drop ?o data = answersBytes off (wireName ls) 1 qs @ rest"
    using arg_cong [OF d2, of "drop (10 + length p)"] by (simp add: ac_simps)
  obtain rs where rs: "parseResourceRecords data ?o (length qs) = Inr (rs, ?o + length (answersBytes off (wireName ls) 1 qs))"
      "map rrRData rs = qs" "\<forall>r \<in> set rs. rrType r = DNS_RECORD_TYPE_TXT"
    using parseRecords_pointers [OF d3 _ assms(2) _ assms(3) d assms(4)] assms(5) Cons by auto
  have e: "?o + length (answersBytes off (wireName ls) 1 qs) = off + length (answersBytes off (wireName ls) 0 ps)"
    using Cons by simp
  have len: "length p < 65536" using assms(5) Cons by simp
  show ?thesis
    using parseRecords_step [OF parseName_wireName [OF d assms(4)] d2 [unfolded txtRecordFixed_def append_assoc] len rs(1)]
      rs(2,3) unfolding e Cons length_Cons by fastforce
qed simp

text \<open>An OPT record whose owner is the root, as the sender of a request writes it.\<close>

definition optOk :: "u16 \<Rightarrow> bytes \<Rightarrow> bool" where
  "optOk ar opt \<longleftrightarrow> ar = 0 \<and> opt = [] \<or>
     ar = 1 \<and> 11 \<le> length opt \<and> opt ! 0 = 0 \<and> length opt = 11 + unat (rd16 opt 9)"

lemma parseRecords_opt:
  assumes "drop offset data = opt" "optOk ar opt" "offset \<le> length data"
  shows "\<exists>rs stop. parseResourceRecords data offset (unat ar) = Inr (rs, stop)"
proof (cases "ar = 0")
  case False
  then have o: "ar = 1" "11 \<le> length opt" "opt ! 0 = 0" "length opt = 11 + unat (rd16 opt 9)"
    using assms(2) by (auto simp: optOk_def)
  have d: "drop offset data = wireName [] @ tl opt"
    using assms(1) o(2,3) by (cases opt) (auto simp: wireName_def)
  have n: "parseName data offset = Inr ([46], offset + 1)"
    using parseName_wireName [OF d] by (simp add: labelsOk_def wireName_def)
  have l: "length data = offset + length opt" using assms(1,3) by auto
  have r: "rd16 data (offset + 9) = rd16 opt 9"
    using rd16_drop [of offset 9 data] l o(2) assms(1) by simp
  show ?thesis
    using n r l o by (simp add: Let_def add.commute [of offset])
qed simp

lemma ParsePacket_response:
  assumes data: "data = dnsHeaderBytes i f 1 (of_nat (length ps)) 0 ar @ (wireName ls @ be16 t @ be16 c) @
      answersBytes (16 + length (wireName ls)) (wireName ls') 0 ps @ opt"
    and ok: "labelsOk ls" "labelsOk ls'" "optOk ar opt"
    and len: "length ps < 65536" "\<forall>p \<in> set ps. length p < 65536"
  shows "\<exists>p. ParsePacket data = Inr p \<and> map rrRData (dAnswers p) = ps \<and>
    (\<forall>r \<in> set (dAnswers p). rrType r = DNS_RECORD_TYPE_TXT)"
proof -
  let ?off = "16 + length (wireName ls)" and ?an = "answersBytes (16 + length (wireName ls)) (wireName ls') 0 ps"
  have le: "?off \<le> 0x3FFF" using ok(1) by (simp add: labelsOk_def)
  have d12: "drop 12 data = wireName ls @ be16 t @ be16 c @ ?an @ opt" by (simp add: data)
  have q: "parseQuestions data 12 1 = Inr ([\<lparr>qName = (if ls = [] then [46] else map asciiLower (dotJoin ls)),
      qType = t, qClass = c\<rparr>], ?off)"
    using parseQuestions_plain [OF d12 ok(1)] by (simp add: ac_simps)
  have da: "drop ?off data = ?an @ opt"
    using arg_cong [OF d12, of "drop (length (wireName ls) + 4)"] by (simp add: ac_simps)
  obtain rs where rs: "parseResourceRecords data ?off (length ps) = Inr (rs, ?off + length ?an)"
      "map rrRData rs = ps" "\<forall>r \<in> set rs. rrType r = DNS_RECORD_TYPE_TXT"
    using parseRecords_answers [OF da _ le ok(2) len(2)] by auto
  have "drop (?off + length ?an) data = opt"
    using arg_cong [OF da, of "drop (length ?an)"] by (simp add: ac_simps)
  moreover have "?off + length ?an \<le> length data" by (simp add: data)
  ultimately obtain os stop where os: "parseResourceRecords data (?off + length ?an) (unat ar) = Inr (os, stop)"
    using parseRecords_opt [OF _ ok(3)] by blast
  have h: "QDCount (parseHeader data) = 1" "ANCount (parseHeader data) = of_nat (length ps)"
      "NSCount (parseHeader data) = 0" "ARCount (parseHeader data) = ar" "12 \<le> length data"
    by (simp_all add: data)
  show ?thesis
    using q rs os h(5) unat_of_nat_u16 [OF len(1)]
    by (simp add: ParsePacket_def Let_def h(1-4) not_less)
qed

text \<open>
  A request as resolvers forward it: one question with a name written out, and an OPT record, if any,
  owned by the root.
\<close>

definition plainRequest :: "bytes \<Rightarrow> bytes list \<Rightarrow> u16 \<Rightarrow> u16 \<Rightarrow> bytes \<Rightarrow> bool" where
  "plainRequest q ls t c rest \<longleftrightarrow>
     QDCount (parseHeader q) = 1 \<and> labelsOk ls \<and> drop 12 q = wireName ls @ be16 t @ be16 c @ rest \<and>
     (case findOPTRecordRange q (parseHeader q) (16 + length (wireName ls)) of (s, l) \<Rightarrow> 0 < l \<longrightarrow> q ! s = 0)"

lemma plainRequest_length:
  assumes "plainRequest q ls t c rest"
  shows "length q = 16 + length (wireName ls) + length rest"
proof -
  have "drop 12 q = wireName ls @ be16 t @ be16 c @ rest" using assms by (simp add: plainRequest_def)
  from arg_cong [OF this, of length] show ?thesis by (simp add: wireName_def)
qed

lemma plainRequest_section:
  assumes "plainRequest q ls t c rest"
  shows "extractQuestionSection q (parseHeader q) = (wireName ls @ be16 t @ be16 c, 1, 16 + length (wireName ls))"
proof -
  have p: "QDCount (parseHeader q) = 1" "labelsOk ls" "drop 12 q = wireName ls @ be16 t @ be16 c @ rest"
    using assms by (auto simp: plainRequest_def)
  have s: "skipQuestions q 12 1 = (16 + length (wireName ls), None)"
    using skipQuestions_parse(1) [OF parseQuestions_plain [OF p(3,2)]] by simp
  have "slice q 12 (16 + length (wireName ls)) = wireName ls @ be16 t @ be16 c"
    unfolding slice_def p(3) by simp
  then show ?thesis using s p(1) by (simp add: extractQuestionSection_def)
qed

lemma plainRequest_opt:
  assumes "plainRequest q ls t c rest" "findOPTRecordRange q (parseHeader q) (16 + length (wireName ls)) = (s, l)"
  shows "optOk (getARCount l) (if 0 < l then slice q s (s + l) else [])"
proof (cases "0 < l")
  case True
  obtain n where n: "s + l \<le> length q" "skipName q s = Inr n" "s < n" "s + l = n + 10 + unat (rd16 q (n + 8))"
    using findOPTRecordRange_record [OF assms(2) True] by auto
  have z: "q ! s = 0" using assms True by (auto simp: plainRequest_def)
  have sl: "s < length q" using n(1) True by simp
  have "drop s q = wireName [] @ drop (Suc s) q"
    using z drop_eq_Cons [OF sl] by (simp add: wireName_def)
  then have "parseName q s = Inr ([46], s + 1)"
    using parseName_wireName [of s q "[]"] by (simp add: labelsOk_def wireName_def)
  then have n1: "n = s + 1" using n(2) by (simp add: skipName_parseName)
  have l: "l = 11 + unat (rd16 q (s + 9))" using n(4) by (simp add: n1 add.commute)
  have "rd16 (slice q s (s + l)) 9 = rd16 q (s + 9)"
    using l n(1) by (simp add: slice_def rd16_def add.commute)
  moreover have "slice q s (s + l) ! 0 = 0" using z True sl by (simp add: slice_def)
  ultimately show ?thesis using True l n(1) by (simp add: optOk_def getARCount_def)
qed (simp add: optOk_def getARCount_def)

lemma plainRequest_name:
  assumes "plainRequest q ls t c rest" "responseAnswerNameBytes uf q name = Inr nb"
  shows "\<exists>ls'. nb = wireName ls' \<and> labelsOk ls'"
proof -
  have p: "QDCount (parseHeader q) = 1" "labelsOk ls" "drop 12 q = wireName ls @ be16 t @ be16 c @ rest"
    using assms by (auto simp: plainRequest_def)
  have "slice q 12 (12 + length (wireName ls)) = wireName ls" unfolding slice_def p(3) by simp
  then have "extractFirstQuestionNameWire q =
      Some (wireName ls, if ls = [] then [46] else map asciiLower (dotJoin ls))"
    using p(1) parseName_wireName [OF p(3,2)] plainRequest_length [OF assms(1)]
    by (simp add: extractFirstQuestionNameWire_def wireName_def)
  then show ?thesis
    using assms(2) p(2) encodeDNSNameStrict_labels by (fastforce simp: responseAnswerNameBytes_def split: if_splits)
qed

lemma responseAnswerNameBytes_ok:
  "encodeDNSNameStrict name = Inr w \<Longrightarrow> \<exists>nb. responseAnswerNameBytes uf q name = Inr nb"
  by (auto simp: responseAnswerNameBytes_def split: option.splits)

definition responseBytes :: "bytes \<Rightarrow> bytes list \<Rightarrow> u16 \<Rightarrow> u16 \<Rightarrow> bytes \<Rightarrow> bytes list \<Rightarrow> bytes" where
  "responseBytes q ls t c nb ps =
     (case findOPTRecordRange q (parseHeader q) (16 + length (wireName ls)) of (s, l) \<Rightarrow>
        dnsHeaderBytes (hID (parseHeader q)) (buildResponseFlags (hFlags (parseHeader q)) DNSR_CODE_NO_ERROR) 1
          (of_nat (length ps)) 0 (getARCount l) @ (wireName ls @ be16 t @ be16 c) @
        answersBytes (16 + length (wireName ls)) nb 0 ps @ (if 0 < l then slice q s (s + l) else []))"

lemma buildSingle_bytes:
  assumes "plainRequest q ls t c rest" "responseAnswerNameBytes uf q name = Inr nb"
  shows "buildSingleTXTResponsePacket uf q name p = Inr (responseBytes q ls t c nb [p])"
  using assms plainRequest_section [OF assms(1)] plainRequest_length [OF assms(1)]
  by (simp add: buildSingleTXTResponsePacket_def responseBytes_def Let_def split: prod.splits)

lemma BuildTXTResponsePacket_bytes:
  assumes "plainRequest q ls t c rest" "responseAnswerNameBytes uf q name = Inr nb" "2 \<le> length ps"
  shows "BuildTXTResponsePacket uf q name ps = Some (Inr (responseBytes q ls t c nb ps))"
proof -
  let ?off = "16 + length (wireName ls)"
  obtain s l where o: "findOPTRecordRange q (parseHeader q) ?off = (s, l)" by fastforce
  have off: "?off \<le> 0x3FFF" using assms(1) by (simp add: plainRequest_def labelsOk_def)
  have opt: "length (slice q s (s + l)) = l" if "0 < l"
    using findOPTRecordRange_record [OF o that] by simp
  let ?h = "dnsHeaderBytes (hID (parseHeader q)) (buildResponseFlags (hFlags (parseHeader q)) DNSR_CODE_NO_ERROR) 1
          (of_nat (length ps)) 0 (getARCount l) @ (wireName ls @ be16 t @ be16 c)"
  let ?cap = "12 + length (wireName ls @ be16 t @ be16 c) + answersLen True nb 0 ps + l"
  have w: "writeAnswers ?cap True ?off nb 0 ps ?h = Some (?h @ answersBytes ?off nb 0 ps)"
    by (rule writeAnswers_fits [OF off]) simp
  have c: "1 < length ps" "length ps \<noteq> 1" using assms(3) by auto
  show ?thesis
    using assms(2) plainRequest_section [OF assms(1)] plainRequest_length [OF assms(1)] o w opt c
    by (simp add: BuildTXTResponsePacket_def responseBytes_def Let_def bufCopy_def bufFinish_def
      length_answersBytes)
qed

text \<open>The TXT data of a message, in the order of its answers.\<close>

definition txtData :: "dnsPacket \<Rightarrow> bytes list" where
  "txtData p = map rrRData (filter (\<lambda>r. rrType r = DNS_RECORD_TYPE_TXT) (dAnswers p))"

lemma responseBytes_parse:
  assumes "plainRequest q ls t c rest" "responseAnswerNameBytes uf q name = Inr nb"
    and "length ps < 65536" "\<forall>p \<in> set ps. length p < 65536"
  shows "\<exists>p. ParsePacket (responseBytes q ls t c nb ps) = Inr p \<and> txtData p = ps"
proof -
  obtain s l where o: "findOPTRecordRange q (parseHeader q) (16 + length (wireName ls)) = (s, l)" by fastforce
  obtain ls' where n: "nb = wireName ls'" "labelsOk ls'" using plainRequest_name [OF assms(1,2)] by blast
  have ok: "labelsOk ls" using assms(1) by (simp add: plainRequest_def)
  have eq: "responseBytes q ls t c nb ps =
      dnsHeaderBytes (hID (parseHeader q)) (buildResponseFlags (hFlags (parseHeader q)) DNSR_CODE_NO_ERROR) 1
        (of_nat (length ps)) 0 (getARCount l) @ (wireName ls @ be16 t @ be16 c) @
      answersBytes (16 + length (wireName ls)) (wireName ls') 0 ps @ (if 0 < l then slice q s (s + l) else [])"
    by (simp add: responseBytes_def o n(1))
  obtain p where "ParsePacket (responseBytes q ls t c nb ps) = Inr p" "map rrRData (dAnswers p) = ps"
      "\<forall>r \<in> set (dAnswers p). rrType r = DNS_RECORD_TYPE_TXT"
    using ParsePacket_response [OF eq ok n(2) plainRequest_opt [OF assms(1) o] assms(3,4)] by blast
  moreover from this(3) have "filter (\<lambda>r. rrType r = DNS_RECORD_TYPE_TXT) (dAnswers p) = dAnswers p"
    by (simp add: filter_id_conv)
  ultimately show ?thesis by (simp add: txtData_def)
qed

section \<open>Chunks\<close>

lemma EncodedRawBase64Len_le: "n \<le> 191 \<Longrightarrow> EncodedRawBase64Len n \<le> 255"
proof -
  assume "n \<le> 191"
  then have "n div 3 \<le> 63" by (metis div_le_mono numeral_le_iff div_le_mono [of n 191 3, simplified])
  moreover have "n mod 3 \<le> 2" using mod_less_divisor [of 3 n] by linarith
  then have "n mod 3 * 8 + 5 \<le> 21" by linarith
  then have "(n mod 3 * 8 + 5) div 6 \<le> 21 div 6" by (rule div_le_mono)
  ultimately show ?thesis unfolding EncodedRawBase64Len_def by simp
qed

definition txtPrefix :: "bool \<Rightarrow> bytes \<Rightarrow> bytes" where
  "txtPrefix be raw = (if be then appendLengthPrefixedBase64TXT raw else of_nat (length raw) # raw)"

definition maxChunkOf :: "bool \<Rightarrow> nat" where
  "maxChunkOf be = (if be then maxTXTEncodedChunk else maxTXTAnswerPayload)"

lemma extractTXTBytes_prefix: "length d \<le> 255 \<Longrightarrow> extractTXTBytes (of_nat (length d) # d) = d"
  by (simp add: extractTXTBytes_def unat_of_nat_u8)

lemma txtPrefix_read:
  assumes "length raw \<le> maxChunkOf be" "raw \<noteq> []"
  shows "decodeAnswer be (extractTXTBytes (txtPrefix be raw)) = Inr raw \<and>
    extractTXTBytes (txtPrefix be raw) \<noteq> [] \<and> length (txtPrefix be raw) \<le> 256"
proof (cases be)
  case True
  let ?e = "encode64 raw"
  have e: "length ?e = EncodedRawBase64Len (length raw)" "length ?e \<le> 255"
    using assms(1) True EncodedRawBase64Len_le by (simp_all add: length_encode64 maxChunkOf_def)
  have ne: "?e \<noteq> []" using assms(2) by (cases raw rule: encode64.cases) (simp_all add: Let_def)
  have t: "txtPrefix be raw = of_nat (length ?e) # ?e"
    using True assms(2) e(1) by (simp add: txtPrefix_def appendLengthPrefixedBase64TXT_def EncodeRawBase64_def)
  show ?thesis
    using True e(2) ne unfolding t extractTXTBytes_prefix [OF e(2)]
    by (simp add: decodeAnswer_def DecodeRawBase64_def decode64_encode64)
next
  case False
  then have "length raw \<le> 255" using assms(1) by (simp add: maxChunkOf_def)
  then show ?thesis
    using False assms(2) by (simp add: txtPrefix_def extractTXTBytes_prefix decodeAnswer_def)
qed

lemma buildTXTAnswerChunk_prefix: "length raw \<le> maxChunkOf be \<Longrightarrow> buildTXTAnswerChunk raw be = txtPrefix be raw"
  by (auto simp: buildTXTAnswerChunk_def txtPrefix_def appendLengthPrefixedTXT_def maxChunkOf_def split: if_splits)

text \<open>Consecutive pieces of \<open>n\<close> bytes.\<close>

function pieces :: "nat \<Rightarrow> bytes \<Rightarrow> bytes list" where
  "pieces n data = (if data = [] \<or> n = 0 then [] else take n data # pieces n (drop n data))"
  by pat_completeness auto
termination by (relation "measure (\<lambda>(n, data). length data)") auto

declare pieces.simps [simp del]

lemma pieces_Nil [simp]: "pieces n [] = []"
  by (simp add: pieces.simps)

lemma pieces_Cons: "data \<noteq> [] \<Longrightarrow> 0 < n \<Longrightarrow> pieces n data = take n data # pieces n (drop n data)"
  by (simp add: pieces.simps [of n data])

lemma pieces_props:
  assumes "0 < n"
  shows "concat (pieces n data) = data \<and> (\<forall>d \<in> set (pieces n data). length d \<le> n) \<and>
    length (pieces n data) = (length data + n - 1) div n"
  using assms
proof (induction n data rule: pieces.induct)
  case (1 n data)
  show ?case
  proof (cases "data = [] \<or> n = 0")
    case False
    then have n: "0 < n" and d: "data \<noteq> []" by auto
    have "(length (drop n data) + n - 1) div n + 1 = (length data + n - 1) div n"
    proof (cases "length data \<le> n")
      case True
      obtain m where m: "length data = Suc m" using d by (cases data) auto
      have "(length data + n - 1) div n = 1" using True n unfolding m by (intro div_nat_eqI) auto
      then show ?thesis using True n by simp
    next
      case gt: False
      then have a: "length (drop n data) + n - 1 = length data - 1" by simp
      have b: "length data + n - 1 = (length data - 1) + n" using gt by simp
      show ?thesis unfolding a b using n div_add_self2 [of n "length data - 1"] by simp
    qed
    then show ?thesis using 1(1) [OF False n] by (simp add: pieces_Cons [OF d n])
  qed (use 1(2) in auto)
qed

lemma chunkLoop_pieces:
  assumes "\<And>i chunks cursor. loop i chunks payload cursor n =
      (if cursor < length payload \<and> 0 < n then
         let stop = min (cursor + n) (length payload)
         in loop (i + 1) (chunks @ [f i (slice payload cursor stop)]) payload stop n
       else chunks)" and "0 < n"
  shows "loop i chunks payload cursor n = chunks @ map (\<lambda>(k, d). f k d) (enumerate i (pieces n (drop cursor payload)))"
proof (induction "length payload - cursor" arbitrary: i chunks cursor rule: less_induct)
  case less
  show ?case
  proof (cases "cursor < length payload")
    case True
    let ?stop = "min (cursor + n) (length payload)"
    have s: "slice payload cursor ?stop = take n (drop cursor payload)"
      by (auto simp: slice_def min_def)
    have d: "drop ?stop payload = drop n (drop cursor payload)" by (simp add: min_def add.commute)
    have "length payload - ?stop < length payload - cursor" using True assms(2) by auto
    note IH = less [OF this]
    have p: "pieces n (drop cursor payload) = take n (drop cursor payload) # pieces n (drop n (drop cursor payload))"
      using True assms(2) by (simp add: pieces_Cons)
    show ?thesis
      unfolding assms(1) [of i] p using True assms(2) IH [unfolded d] by (simp add: Let_def s)
  next
    case False
    then show ?thesis unfolding assms(1) [of i] by simp
  qed
qed

lemma rawChunksFrom_pieces:
  "0 < n \<Longrightarrow> rawChunksFrom i chunks payload cursor n =
     chunks @ map (\<lambda>(k, d). buildLengthPrefixedTXTChunk (of_nat k) d) (enumerate i (pieces n (drop cursor payload)))"
  by (rule chunkLoop_pieces [where loop = rawChunksFrom and f = "\<lambda>k d. buildLengthPrefixedTXTChunk (of_nat k) d"])
    (rule rawChunksFrom.simps)

lemma base64ChunksFrom_pieces:
  "0 < n \<Longrightarrow> base64ChunksFrom i chunks payload cursor n =
     chunks @ map (\<lambda>(k, d). appendLengthPrefixedBase64TXT (of_nat k # d)) (enumerate i (pieces n (drop cursor payload)))"
  by (rule chunkLoop_pieces [where loop = base64ChunksFrom and f = "\<lambda>k d. appendLengthPrefixedBase64TXT (of_nat k # d)"])
    (rule base64ChunksFrom.simps)

lemma Parse_replace_payload:
  assumes "Parse raw = Inr h"
  shows "raw = take (HeaderLength h) raw @ Payload h \<and> Parse (take (HeaderLength h) raw @ d) = Inr (h\<lparr>Payload := d\<rparr>) \<and>
    length (take (HeaderLength h) raw) = HeaderLength h \<and> HeaderLength h \<le> 11 \<and> 0 < HeaderLength h"
proof -
  let ?o = "optionsOf h"
  have b: "BuildRaw ?o = Inr raw" by (rule BuildRaw_Parse [OF assms])
  have h: "packetOf ?o = h" using Parse_BuildRaw [OF b] assms by simp
  have hl: "HeaderLength h = HeaderRawSize (optPacketType ?o)" by (subst h [symmetric]) (simp add: packetOf_def Let_def)
  obtain hdr where hdr: "raw = hdr @ optPayload ?o" "\<And>d. BuildRaw (?o\<lparr>optPayload := d\<rparr>) = Inr (hdr @ d)"
      "hdr \<noteq> []"
    using b by (auto simp: BuildRaw_def Let_def headerBytes_def split: if_splits)
  have len: "length hdr = HeaderLength h"
    using length_BuildRaw [OF b] hdr(1) hl by simp
  have "packetOf (?o\<lparr>optPayload := d\<rparr>) = (packetOf ?o)\<lparr>Payload := d\<rparr>" by (simp add: packetOf_def Let_def)
  then have "Parse (hdr @ d) = Inr (h\<lparr>Payload := d\<rparr>)" using Parse_BuildRaw [OF hdr(2) [of d]] h by simp
  then show ?thesis
    using len hdr(1) hl HeaderRawSize_le hdr(3) [folded length_greater_0_conv] by (simp add: optionsOf_def)
qed

definition chunkRaw :: "bytes \<Rightarrow> nat \<Rightarrow> nat \<times> bytes \<Rightarrow> bytes" where
  "chunkRaw hdr tot kd = (if fst kd = 0 then [0, of_nat tot] @ hdr @ snd kd else of_nat (fst kd) # snd kd)"

definition chunkParts :: "bool \<Rightarrow> vpnPacket \<Rightarrow> bytes list" where
  "chunkParts be h =
     (let m0 = maxChunkOf be - 2 - HeaderLength h
      in take m0 (Payload h) # pieces (maxChunkOf be - 1) (drop m0 (Payload h)))"

lemma answerTotalChunks_parts:
  "answerTotalChunks (length (Payload h)) (maxChunkOf be - 2 - HeaderLength h) (maxChunkOf be - 1) =
   length (chunkParts be h)"
proof -
  let ?m0 = "maxChunkOf be - 2 - HeaderLength h" and ?n = "maxChunkOf be - 1"
  have n: "0 < ?n" by (simp add: maxChunkOf_def)
  have l: "length (chunkParts be h) = 1 + (length (Payload h) - ?m0 + ?n - 1) div ?n"
    using pieces_props [OF n, of "drop ?m0 (Payload h)"] by (simp add: chunkParts_def Let_def)
  show ?thesis
  proof (cases "?m0 < length (Payload h)")
    case True
    then have "nat (int (length (Payload h)) - int ?m0) = length (Payload h) - ?m0" by (simp add: nat_diff_distrib)
    then show ?thesis using True unfolding l answerTotalChunks_def Let_def by simp
  next
    case False
    then have "length (Payload h) - ?m0 = 0" by simp
    then show ?thesis using False n unfolding l answerTotalChunks_def Let_def by simp
  qed
qed

lemma buildTXTAnswerChunks_eq:
  assumes p: "Parse raw = Inr h" and big: "maxChunkOf be < length raw"
  shows "buildTXTAnswerChunks raw be =
    (if 255 < length (chunkParts be h) then Inl ErrTXTAnswerTooLarge
     else Inr (map (\<lambda>kd. txtPrefix be (chunkRaw (take (HeaderLength h) raw) (length (chunkParts be h)) kd))
            (enumerate 0 (chunkParts be h))))"
proof -
  let ?m0 = "maxChunkOf be - 2 - HeaderLength h" and ?n = "maxChunkOf be - 1" and ?t = "length (chunkParts be h)"
  let ?c0 = "[0, of_nat ?t] @ take (HeaderLength h) raw @ take ?m0 (Payload h)"
  have n: "0 < ?n" by (simp add: maxChunkOf_def)
  have hl: "length (take (HeaderLength h) raw) = HeaderLength h" "HeaderLength h \<le> 11"
    using Parse_replace_payload [OF p] by auto
  have c0: "length ?c0 \<le> maxChunkOf be" using hl by (auto simp: maxChunkOf_def)
  have m: "take (min ?m0 (length (Payload h))) (Payload h) = take ?m0 (Payload h)" by (simp add: min_def)
  have k: "map (\<lambda>(k, d). txtPrefix be (of_nat k # d)) (enumerate 1 (pieces ?n xs)) =
      map (\<lambda>kd. txtPrefix be (chunkRaw hdr t kd)) (enumerate 1 (pieces ?n xs))" for xs hdr t
    by (rule map_cong [OF refl]) (auto simp: chunkRaw_def in_set_enumerate_eq)
  have e: "enumerate 0 (chunkParts be h) = (0, take ?m0 (Payload h)) # enumerate 1 (pieces ?n (drop ?m0 (Payload h)))"
    by (simp add: chunkParts_def Let_def)
  have raws: "\<not> be \<Longrightarrow> appendLengthPrefixedTXT ?c0 = txtPrefix be ?c0" "be \<Longrightarrow> appendLengthPrefixedBase64TXT ?c0 = txtPrefix be ?c0"
    using c0 by (auto simp: txtPrefix_def appendLengthPrefixedTXT_def maxChunkOf_def)
  have tl: "appendRawTXTAnswerChunks [x] (Payload h) ?m0 ?n =
        x # map (\<lambda>(k, d). txtPrefix be (of_nat k # d)) (enumerate 1 (pieces ?n (drop ?m0 (Payload h))))" if "\<not> be" for x
    unfolding appendRawTXTAnswerChunks_def rawChunksFrom_pieces [OF n]
    using that by (auto simp: txtPrefix_def buildLengthPrefixedTXTChunk_def)
  have tlb: "appendBase64TXTAnswerChunks [x] (Payload h) ?m0 ?n =
        x # map (\<lambda>(k, d). txtPrefix be (of_nat k # d)) (enumerate 1 (pieces ?n (drop ?m0 (Payload h))))" if "be" for x
    unfolding appendBase64TXTAnswerChunks_def base64ChunksFrom_pieces [OF n]
    using that by (simp add: txtPrefix_def)
  have c: "chunkRaw (take (HeaderLength h) raw) ?t (0, take ?m0 (Payload h)) = ?c0" by (simp add: chunkRaw_def)
  have mc: "(if be then maxTXTEncodedChunk else maxTXTAnswerPayload) = maxChunkOf be" by (simp add: maxChunkOf_def)
  have ne: "raw \<noteq> []" "\<not> length raw \<le> maxChunkOf be" using big by auto
  show ?thesis
    unfolding buildTXTAnswerChunks_def mc Let_def p sum.case answerTotalChunks_parts m e list.map c
    using ne raws tl tlb k [of "drop ?m0 (Payload h)" "take (HeaderLength h) raw" ?t] by (cases be) simp_all
qed

section \<open>Assembling chunks in any order\<close>

lemma mset_map_split:
  "mset xs = mset (map f ys) \<Longrightarrow> \<exists>zs. mset zs = mset ys \<and> xs = map f zs"
proof (induction xs arbitrary: ys)
  case (Cons x xs)
  then have "x \<in> set (map f ys)" by (metis list.set_intros(1) mset_eq_setD)
  then obtain y where y: "y \<in> set ys" "x = f y" by auto
  then have ys: "mset ys = mset (y # remove1 y ys)" by simp
  then have "mset (map f ys) = mset (map f (y # remove1 y ys))" by (simp only: mset_map)
  then have "mset xs = mset (map f (remove1 y ys))" using Cons.prems y(2) by simp
  then obtain zs where zs: "mset zs = mset (remove1 y ys)" "xs = map f zs" using Cons.IH by blast
  have "mset (y # zs) = mset ys" unfolding ys mset.simps zs(1) ..
  then show ?case using zs(2) y(2) by (intro exI [of _ "y # zs"]) simp
qed simp

lemma assembleStep_chunk:
  assumes "k < 256" "0 < tot" "tot \<le> 255" "length (asmChunks st) = 256" "asmChunks st ! k = None"
    and "\<And>d. Parse (hdr @ d) = Inr (h\<lparr>Payload := d\<rparr>)" "hdr \<noteq> []"
  shows "assembleStep (chunkRaw hdr tot (k, d)) st =
    Inr (st\<lparr>asmTotal := (if k = 0 then tot else asmTotal st),
            asmHeader := (if k = 0 then Some (h\<lparr>Payload := d\<rparr>) else asmHeader st),
            asmSeen := asmSeen st + 1, asmChunks := (asmChunks st)[k := Some d]\<rparr>)"
proof (cases "k = 0")
  case True
  have "ParseAtOffset ([0, of_nat tot] @ hdr @ d) 2 = Parse (hdr @ d)"
    using assms(7) by (simp add: Parse_def ParseAtOffset_def parseFrom_def)
  then show ?thesis
    using True assms by (cases hdr) (simp_all add: chunkRaw_def assembleStep_def putChunk_def unat_of_nat_u8 Let_def)
next
  case False
  then have "(of_nat k :: u8) \<noteq> 0" "unat (of_nat k :: u8) = k"
    using assms(1) by (auto simp: unat_of_nat_u8 unat_eq_zero [symmetric] simp del: unat_eq_zero)
  then show ?thesis
    using False assms(1,4,5) by (simp add: chunkRaw_def assembleStep_def putChunk_def Let_def)
qed

lemma assembleLoop_chunks:
  assumes "\<And>e. e \<in> set es \<Longrightarrow> decodeAnswer be (g e) = Inr (chunkRaw hdr tot e)"
    and "distinct (map fst es)" "\<forall>k \<in> fst ` set es. k < 256 \<and> asmChunks st ! k = None"
    and "length (asmChunks st) = 256" "0 < tot" "tot \<le> 255"
    and "\<And>d. Parse (hdr @ d) = Inr (h\<lparr>Payload := d\<rparr>)" "hdr \<noteq> []"
  shows "\<exists>st'. assembleLoop be (map g es) st = Inr st' \<and> length (asmChunks st') = 256 \<and>
    asmSeen st' = asmSeen st + length es \<and>
    (\<forall>i < 256. asmChunks st' ! i = (case map_of es i of Some d \<Rightarrow> Some d | None \<Rightarrow> asmChunks st ! i)) \<and>
    (if 0 \<in> fst ` set es then asmTotal st' = tot \<and> (\<exists>d. asmHeader st' = Some (h\<lparr>Payload := d\<rparr>))
     else asmTotal st' = asmTotal st \<and> asmHeader st' = asmHeader st)"
  using assms(1-4)
proof (induction es arbitrary: st)
  case (Cons e es)
  obtain k d where e: "e = (k, d)" by fastforce
  let ?st = "st\<lparr>asmTotal := (if k = 0 then tot else asmTotal st),
            asmHeader := (if k = 0 then Some (h\<lparr>Payload := d\<rparr>) else asmHeader st),
            asmSeen := asmSeen st + 1, asmChunks := (asmChunks st)[k := Some d]\<rparr>"
  have k: "k < 256" "asmChunks st ! k = None" "k \<notin> fst ` set es"
    using Cons.prems(2,3) by (auto simp: e)
  have step: "assembleLoop be (map g (e # es)) st = assembleLoop be (map g es) ?st"
    using Cons.prems(1) [of e] assembleStep_chunk [OF k(1) assms(5,6) Cons.prems(4) k(2) assms(7,8)] by (simp add: e)
  have "\<forall>k' \<in> fst ` set es. k' < 256 \<and> asmChunks ?st ! k' = None"
    using Cons.prems(3,4) k by (auto simp: e nth_list_update image_iff)
  then obtain st' where st': "assembleLoop be (map g es) ?st = Inr st'" "length (asmChunks st') = 256"
      "asmSeen st' = asmSeen ?st + length es"
      "\<forall>i < 256. asmChunks st' ! i = (case map_of es i of Some d \<Rightarrow> Some d | None \<Rightarrow> asmChunks ?st ! i)"
      "if 0 \<in> fst ` set es then asmTotal st' = tot \<and> (\<exists>d. asmHeader st' = Some (h\<lparr>Payload := d\<rparr>))
       else asmTotal st' = asmTotal ?st \<and> asmHeader st' = asmHeader ?st"
    using Cons.IH [of ?st] Cons.prems by auto
  have all: "\<forall>i < 256. asmChunks st' ! i = (case map_of (e # es) i of Some d \<Rightarrow> Some d | None \<Rightarrow> asmChunks st ! i)"
  proof (intro allI impI)
    fix i :: nat assume i: "i < 256"
    have "map_of es k = None" using k(3) by (simp add: map_of_eq_None_iff)
    then show "asmChunks st' ! i = (case map_of (e # es) i of Some d \<Rightarrow> Some d | None \<Rightarrow> asmChunks st ! i)"
      using st'(4) i Cons.prems(4) by (cases "i = k"; cases "map_of es i") (simp_all add: e)
  qed
  have tail: "if 0 \<in> fst ` set (e # es) then asmTotal st' = tot \<and> (\<exists>d. asmHeader st' = Some (h\<lparr>Payload := d\<rparr>))
      else asmTotal st' = asmTotal st \<and> asmHeader st' = asmHeader st"
  proof (cases "0 \<in> fst ` set es")
    case True
    then show ?thesis using st'(5) by (simp add: e)
  next
    case False
    then have t: "asmTotal st' = asmTotal ?st" "asmHeader st' = asmHeader ?st" using st'(5) by presburger+
    have z: "0 \<in> fst ` set (e # es) \<longleftrightarrow> k = 0" using False by (auto simp: e)
    show ?thesis unfolding z t by simp blast
  qed
  have "asmSeen st' = asmSeen st + length (e # es)" using st'(3) by simp
  then show ?case
    unfolding step using st'(1,2) all tail by blast
qed simp

lemma enumerate_perm:
  assumes "mset es = mset (enumerate 0 ds)"
  shows "distinct (map fst es)" "fst ` set es = {..<length ds}" "length es = length ds"
    "map_of es i = (if i < length ds then Some (ds ! i) else None)"
proof -
  have "mset (map fst es) = mset (map fst (enumerate 0 ds))" using assms by (simp only: mset_map)
  then show d: "distinct (map fst es)" by (metis distinct_upt map_fst_enumerate mset_eq_imp_distinct_iff)
  have s: "set es = set (enumerate 0 ds)" using assms by (rule mset_eq_setD)
  show f: "fst ` set es = {..<length ds}"
    unfolding s by (metis atLeast_upt list.set_map map_fst_enumerate add_0)
  show "length es = length ds" using mset_eq_length [OF assms] by simp
  show "map_of es i = (if i < length ds then Some (ds ! i) else None)"
  proof (cases "i < length ds")
    case True
    then have "(i, ds ! i) \<in> set es" unfolding s by (simp add: in_set_enumerate_eq)
    then show ?thesis using True d by simp
  next
    case False
    then show ?thesis using f by (simp add: map_of_eq_None_iff)
  qed
qed

lemma assemble_chunks:
  assumes g: "\<And>e. e \<in> set es \<Longrightarrow> decodeAnswer be (g e) = Inr (chunkRaw hdr (length ds) e)"
    and es: "mset es = mset (enumerate 0 ds)" and len: "2 \<le> length ds" "length ds \<le> 255"
    and p: "\<And>d. Parse (hdr @ d) = Inr (h\<lparr>Payload := d\<rparr>)" "hdr \<noteq> []"
  shows "assembleVPNResponse cs (map g es) be = map_sum AnswerVpn id (InflatePayload cs (h\<lparr>Payload := concat ds\<rparr>))"
proof -
  note perm = enumerate_perm [OF es]
  have slots: "\<forall>k \<in> fst ` set es. k < 256 \<and> asmChunks emptyAssembly ! k = None"
    using perm(2) len by (auto simp: emptyAssembly_def)
  obtain st where st: "assembleLoop be (map g es) emptyAssembly = Inr st" "length (asmChunks st) = 256"
      "asmSeen st = length ds"
      "\<And>i. i < 256 \<Longrightarrow> asmChunks st ! i = (if i < length ds then Some (ds ! i) else None)"
      "asmTotal st = length ds" "\<exists>d. asmHeader st = Some (h\<lparr>Payload := d\<rparr>)"
    using assembleLoop_chunks [OF g perm(1) slots _ _ len(2) p] len perm(2,3)
    by (fastforce simp: emptyAssembly_def perm(4))
  obtain d0 where d0: "asmHeader st = Some (h\<lparr>Payload := d0\<rparr>)" using st(6) by blast
  have a: "\<not> list_ex (\<lambda>i. asmChunks st ! i = None) [0..<length ds]"
    "\<not> list_ex (\<lambda>i. asmChunks st ! i \<noteq> None) [length ds..<256]"
    using st(4) len by (auto simp: list_ex_iff)
  have "map (\<lambda>i. case asmChunks st ! i of None \<Rightarrow> [] | Some d \<Rightarrow> d) [0..<length ds] = map (\<lambda>i. ds ! i) [0..<length ds]"
    using st(4) len by (intro map_cong) auto
  then have c: "concat (map (\<lambda>i. case asmChunks st ! i of None \<Rightarrow> [] | Some d \<Rightarrow> d) [0..<length ds]) = concat ds"
    by (simp add: map_nth)
  have "assembleFinish cs st = map_sum AnswerVpn id (InflatePayload cs (h\<lparr>Payload := concat ds\<rparr>))"
    unfolding assembleFinish_def d0 option.case st(2,3,5) Let_def c using a len by auto
  then show ?thesis using st(1) len perm(3) by (simp add: assembleVPNResponse_def)
qed

lemma chunkRaw_size:
  assumes "Parse raw = Inr h" "e \<in> set (enumerate 0 (chunkParts be h))"
  shows "chunkRaw (take (HeaderLength h) raw) t e \<noteq> [] \<and>
    length (chunkRaw (take (HeaderLength h) raw) t e) \<le> maxChunkOf be"
proof -
  obtain k d where e: "e = (k, d)" "k < length (chunkParts be h)" "d = chunkParts be h ! k"
    using assms(2) [unfolded in_set_enumerate_eq] by (cases e) auto
  have hl: "length (take (HeaderLength h) raw) = HeaderLength h" "HeaderLength h \<le> 11"
    using Parse_replace_payload [OF assms(1)] by auto
  let ?n = "maxChunkOf be - 1"
  have n: "0 < ?n" "13 \<le> maxChunkOf be" by (simp_all add: maxChunkOf_def)
  show ?thesis
  proof (cases k)
    case 0
    then have "length d \<le> maxChunkOf be - 2 - HeaderLength h" using e by (simp add: chunkParts_def Let_def)
    then show ?thesis using 0 e(1) hl n(2) by (simp add: chunkRaw_def)
  next
    case (Suc j)
    then have "d \<in> set (pieces ?n (drop (maxChunkOf be - 2 - HeaderLength h) (Payload h)))"
      using e(2,3) by (auto simp: chunkParts_def Let_def)
    then have "length d \<le> ?n" using pieces_props [OF n(1)] by blast
    then show ?thesis using Suc e(1) n(2) by (simp add: chunkRaw_def)
  qed
qed

lemma concat_chunkParts: "concat (chunkParts be h) = Payload h"
proof -
  have "0 < maxChunkOf be - 1" by (simp add: maxChunkOf_def)
  from pieces_props [OF this] show ?thesis by (simp add: chunkParts_def Let_def)
qed

lemma chunkParts_many:
  assumes "Parse raw = Inr h" "maxChunkOf be < length raw"
  shows "2 \<le> length (chunkParts be h)"
proof -
  have "length raw = HeaderLength h + length (Payload h)" "HeaderLength h \<le> 11"
    using Parse_replace_payload [OF assms(1)] by (metis length_append)+
  then have "drop (maxChunkOf be - 2 - HeaderLength h) (Payload h) \<noteq> []"
    using assms(2) by (simp add: not_le maxChunkOf_def split: if_splits)
  then show ?thesis by (simp add: chunkParts_def Let_def pieces_Cons maxChunkOf_def Suc_le_eq)
qed

lemma extract_txtData:
  "extractTXTAnswerPayloads p = filter (\<lambda>raw. length raw \<noteq> 0) (map extractTXTBytes (txtData p))"
  by (simp add: extractTXTAnswerPayloads_def txtData_def comp_def)

text \<open>The answer data of a frame: one string, or the numbered chunks.\<close>

definition frameAnswers :: "bytes \<Rightarrow> bool \<Rightarrow> answerError + bytes list" where
  "frameAnswers raw be =
     (if length raw \<le> maxChunkOf be then Inr [buildTXTAnswerChunk raw be] else buildTXTAnswerChunks raw be)"

lemma extract_frameAnswers:
  assumes h: "Parse raw = Inr h" and f: "frameAnswers raw be = Inr ps"
    and m: "ParsePacket msg = Inr p" "mset (txtData p) = mset ps"
  shows "ExtractVPNResponse cs msg be = map_sum AnswerVpn id (ParseInflated cs raw)"
proof (cases "length raw \<le> maxChunkOf be")
  case True
  have "raw \<noteq> []" using h by (auto simp: Parse_def ParseAtOffset_def)
  note r = txtPrefix_read [OF True this]
  have "txtData p = [txtPrefix be raw]"
    using f m(2) True mset_single_iff_right by (auto simp: frameAnswers_def buildTXTAnswerChunk_prefix)
  then show ?thesis
    using m(1) r by (simp add: ExtractVPNResponse_def extract_txtData assembleVPNResponse_def Let_def)
next
  case False
  let ?ds = "chunkParts be h" and ?hdr = "take (HeaderLength h) raw"
  let ?raw = "chunkRaw ?hdr (length ?ds)"
  have ps: "ps = map (\<lambda>e. txtPrefix be (?raw e)) (enumerate 0 ?ds)" "length ?ds \<le> 255"
    using f False buildTXTAnswerChunks_eq [OF h, of be] by (auto simp: frameAnswers_def split: if_splits)
  obtain es where es: "mset es = mset (enumerate 0 ?ds)" "txtData p = map (\<lambda>e. txtPrefix be (?raw e)) es"
    using mset_map_split [of "txtData p" "\<lambda>e. txtPrefix be (?raw e)" "enumerate 0 ?ds"] m(2) unfolding ps(1) by blast
  have r: "decodeAnswer be (extractTXTBytes (txtPrefix be (?raw e))) = Inr (?raw e) \<and> extractTXTBytes (txtPrefix be (?raw e)) \<noteq> []"
    if "e \<in> set es" for e
    using txtPrefix_read [of "?raw e" be] chunkRaw_size [OF h] that mset_eq_setD [OF es(1)] by blast
  have many: "2 \<le> length ?ds" using chunkParts_many [OF h] False by simp
  have hdr: "0 < length ?hdr" "\<And>d. Parse (?hdr @ d) = Inr (h\<lparr>Payload := d\<rparr>)"
    using Parse_replace_payload [OF h] by presburger+
  let ?g = "\<lambda>e. extractTXTBytes (txtPrefix be (?raw e))"
  have x: "extractTXTAnswerPayloads p = map ?g es"
    unfolding extract_txtData es(2) using r by (simp add: filter_id_conv comp_def)
  have a: "assembleVPNResponse cs (map ?g es) be = map_sum AnswerVpn id (InflatePayload cs (h\<lparr>Payload := concat ?ds\<rparr>))"
    using r by (intro assemble_chunks [OF _ es(1) many ps(2) hdr(2) hdr(1) [unfolded length_greater_0_conv]]) blast
  have "es \<noteq> []" using enumerate_perm(3) [OF es(1)] many by auto
  then show ?thesis
    using m(1) x a h by (simp add: ExtractVPNResponse_def Let_def ParseInflated_def concat_chunkParts)
qed

lemma frameAnswers_ok:
  assumes h: "Parse raw = Inr h" and len: "length (Payload h) \<le> 48000"
  shows "\<exists>ps. frameAnswers raw be = Inr ps \<and> length ps \<le> 255 \<and> (\<forall>p \<in> set ps. length p \<le> 256) \<and>
    (maxChunkOf be < length raw \<longrightarrow> 2 \<le> length ps)"
proof (cases "length raw \<le> maxChunkOf be")
  case True
  have "raw \<noteq> []" using h by (auto simp: Parse_def ParseAtOffset_def)
  then show ?thesis
    using True txtPrefix_read [OF True] by (simp add: frameAnswers_def buildTXTAnswerChunk_prefix)
next
  case False
  let ?ds = "chunkParts be h" and ?n = "maxChunkOf be - 1" and ?m0 = "maxChunkOf be - 2 - HeaderLength h"
  have n: "190 \<le> ?n" by (simp add: maxChunkOf_def)
  have "length ?ds = 1 + (length (drop ?m0 (Payload h)) + ?n - 1) div ?n"
    using pieces_props [of ?n "drop ?m0 (Payload h)"] n by (simp add: chunkParts_def Let_def)
  also have "\<dots> \<le> 1 + (48000 + ?n) div ?n" using len by (intro add_left_mono div_le_mono) simp
  also have "\<dots> = 2 + 48000 div ?n" using n div_add_self2 [of ?n 48000] by linarith
  also have "\<dots> \<le> 2 + 48000 div 190" using n by (intro add_left_mono div_le_mono2) simp_all
  finally have le: "length ?ds \<le> 255" by simp
  have "length p \<le> 256" if "p \<in> (\<lambda>e. txtPrefix be (chunkRaw (take (HeaderLength h) raw) (length ?ds) e)) ` set (enumerate 0 ?ds)" for p
    using that txtPrefix_read chunkRaw_size [OF h] by blast
  then show ?thesis
    using False le chunkParts_many [OF h] buildTXTAnswerChunks_eq [OF h, of be] by (auto simp: frameAnswers_def)
qed

lemma BuildVPNResponsePacket_bytes:
  assumes raw: "BuildRawAuto cs (optionsOf pkt) DefaultMinSize = Inr raw" and f: "frameAnswers raw be = Inr ps"
    and many: "maxChunkOf be < length raw \<longrightarrow> 2 \<le> length ps"
    and q: "plainRequest q ls t c rest" and nb: "responseAnswerNameBytes uf q name = Inr nb"
  shows "BuildVPNResponsePacket cs uf q name pkt be = Some (Inr (responseBytes q ls t c nb ps))"
proof -
  have mc: "(if be then maxTXTEncodedChunk else maxTXTAnswerPayload) = maxChunkOf be" by (simp add: maxChunkOf_def)
  show ?thesis
  proof (cases "length raw \<le> maxChunkOf be")
    case True
    then show ?thesis
      using f buildSingle_bytes [OF q nb]
      unfolding BuildVPNResponsePacket_def raw mc by (auto simp: frameAnswers_def)
  next
    case False
    then show ?thesis
      using f many BuildTXTResponsePacket_bytes [OF q nb]
      unfolding BuildVPNResponsePacket_def raw mc by (auto simp: frameAnswers_def)
  qed
qed

section \<open>Properties\<close>

text \<open>
  C2. The downlink: a packet of a valid type with up to 48000 bytes of payload, answered to a
  request with one plain question, always becomes a response (never an error or a panic); the client
  parses it, and recovers every carried field and the payload from it and from every message with
  the same TXT data, in whatever order a resolver returns the answers, raw or base 64.
\<close>

theorem downlink_round_trip:
  assumes "compressors_ok cs" "plainRequest q ls t c rest" "encodeDNSNameStrict name = Inr w"
    and "validType (PacketType pkt)" "length (Payload pkt) \<le> 48000"
  shows "\<exists>resp parsed. BuildVPNResponsePacket cs uf q name pkt be = Some (Inr resp) \<and> ParsePacket resp = Inr parsed \<and>
    (\<forall>msg m. ParsePacket msg = Inr m \<and> mset (txtData m) = mset (txtData parsed) \<longrightarrow>
       (\<exists>p. ExtractVPNResponse cs msg be = Inr p \<and> carries (optionsOf pkt) p))"
proof -
  let ?o = "optionsOf pkt" and ?o' = "prepareOptions cs (optionsOf pkt) DefaultMinSize"
  have len: "length (optPayload ?o) \<le> 10485760" using assms(5) by (simp add: optionsOf_def)
  obtain raw where raw: "BuildRawAuto cs ?o DefaultMinSize = Inr raw"
    using assms(4) BuildRaw_valid [of ?o'] by (auto simp: BuildRawAuto_def optionsOf_def)
  have h: "Parse raw = Inr (packetOf ?o')" using Parse_BuildRaw raw by (simp add: BuildRawAuto_def)
  have "length raw \<le> HeaderRawSize (optPacketType ?o) + length (optPayload ?o)"
    by (rule length_BuildRawAuto [OF assms(1) len raw])
  then have "length (Payload (packetOf ?o')) \<le> 48000"
    using length_BuildRaw [OF raw [unfolded BuildRawAuto_def]] assms(5)
    by (simp add: packetOf_def Let_def optionsOf_def)
  then obtain ps where ps: "frameAnswers raw be = Inr ps" "length ps \<le> 255" "\<forall>p \<in> set ps. length p \<le> 256"
      "maxChunkOf be < length raw \<longrightarrow> 2 \<le> length ps"
    using frameAnswers_ok [OF h] by blast
  obtain nb where nb: "responseAnswerNameBytes uf q name = Inr nb" using responseAnswerNameBytes_ok [OF assms(3)] by blast
  have "length ps < 65536" "\<forall>p \<in> set ps. length p < 65536" using ps(2,3) by force+
  then obtain parsed where parsed: "ParsePacket (responseBytes q ls t c nb ps) = Inr parsed" "txtData parsed = ps"
    using responseBytes_parse [OF assms(2) nb] by blast
  obtain p where p: "ParseInflated cs raw = Inr p" "carries ?o p"
    using ParseInflated_BuildRawAuto [OF assms(1) len raw] by blast
  have "\<exists>p. ExtractVPNResponse cs msg be = Inr p \<and> carries ?o p"
    if "ParsePacket msg = Inr m" "mset (txtData m) = mset (txtData parsed)" for msg m
    using extract_frameAnswers [OF h ps(1) that(1), of cs] that(2) parsed(2) p by simp
  then show ?thesis
    using BuildVPNResponsePacket_bytes [OF raw ps(1,4) assms(2) nb] parsed(1) by blast
qed

theorem downlink_round_trip_witness:
  "\<exists>resp p. BuildVPNResponsePacket demoCompressors (\<lambda>_ _. False) [0, 7, 1, 0, 0, 1, 0, 0, 0, 0, 0, 0, 1, 65, 0, 0, 16, 0, 1] [97]
      (packetOf \<lparr>optSessionID = 3, optPacketType = PACKET_STREAM_DATA, optSessionCookie = 9, optStreamID = 258,
        optSequenceNum = 772, optFragmentID = 1, optTotalFragments = 2, optCompressionType = 0,
        optPayload = replicate 20000 7\<rparr>) True = Some (Inr resp) \<and>
    ExtractVPNResponse demoCompressors resp True = Inr p \<and> Payload p = replicate 20000 7 \<and> SequenceNum p = 772"
proof -
  let ?q = "[0, 7, 1, 0, 0, 1, 0, 0, 0, 0, 0, 0, 1, 65, 0, 0, 16, 0, 1] :: bytes"
  let ?pkt = "packetOf \<lparr>optSessionID = 3, optPacketType = PACKET_STREAM_DATA, optSessionCookie = 9, optStreamID = 258,
        optSequenceNum = 772, optFragmentID = 1, optTotalFragments = 2, optCompressionType = 0,
        optPayload = replicate 20000 7\<rparr>"
  have q: "plainRequest ?q [[65]] 16 1 []"
    by (simp add: plainRequest_def parseHeader_def rd16_def join16_plus labelsOk_def wireName_def be16_def
      hi8_def lo8_def drop_bit_eq_div findOPTRecordRange_def Let_def)
  have n: "encodeDNSNameStrict [97] = Inr [1, 97, 0]"
    by (simp add: encodeDNSNameStrict_def TrimSuffixDot_def TrimSpace_def isSpaceASCII_def Let_def)
  have v: "validType (PacketType ?pkt)" "length (Payload ?pkt) \<le> 48000" "hasSequenceExtension (PacketType ?pkt)"
    by (simp_all add: packetOf_def Let_def validType_def hasSequenceExtension_def packetFlags_table validOnly_def
      streamAndSeq_def)
  have pl: "Payload ?pkt = replicate 20000 7" "SequenceNum ?pkt = 772"
    using v(3) by (simp_all add: packetOf_def Let_def)
  show ?thesis
    using downlink_round_trip [OF demoCompressors_ok q n v(1,2), of "\<lambda>_ _. False" True] v(3) pl
    by (auto simp: carries_def optionsOf_def)
qed

section \<open>Large question sections\<close>

lemma bufCopy_length: "length out \<le> cap \<Longrightarrow> length (bufCopy cap out src) = min cap (length out + length src)"
  by (auto simp: bufCopy_def min_def)

lemma bufPut_None: "cap < length out + length bs \<Longrightarrow> bufPut cap out bs = None"
  by (simp add: bufPut_def)

lemma bufPut_Some: "bufPut cap out bs = Some out' \<Longrightarrow> length out' = length out + length bs \<and> length out' \<le> cap"
  by (auto simp: bufPut_def split: if_splits)

lemma writeAnswers_overflow:
  assumes "0x3FFF < off" "ps \<noteq> []" "length out \<le> cap"
    and "cap < length out + length ps * (length nm + 10) + length (concat (butlast ps))"
  shows "writeAnswers cap True off nm i ps out = None"
  using assms
proof (induction ps arbitrary: i out)
  case (Cons p ps)
  let ?o1 = "bufCopy cap out nm"
  have l1: "length ?o1 = min cap (length out + length nm)" by (rule bufCopy_length [OF Cons.prems(3)])
  show ?case
  proof (cases "bufPut cap ?o1 (txtRecordFixed p)")
    case None
    then show ?thesis using assms(1) by simp
  next
    case (Some o2)
    have l2: "length o2 = length out + length nm + 10" "length o2 \<le> cap" "ps \<noteq> []"
      using bufPut_Some [OF Some] l1 Cons.prems(4) by auto
    have l3: "length (bufCopy cap o2 p) = min cap (length o2 + length p)" by (rule bufCopy_length [OF l2(2)])
    have pos: "0 < length ps * (length nm + 10)" using l2(3) by simp
    have "cap < length (bufCopy cap o2 p) + length ps * (length nm + 10) + length (concat (butlast ps))"
      using Cons.prems(4) pos l2(1,3) unfolding l3 by (simp add: min_def)
    then have "writeAnswers cap True off nm (i + 1) ps (bufCopy cap o2 p) = None"
      using Cons.IH [OF assms(1) l2(3)] l3 by simp
    then show ?thesis using Some assms(1) by simp
  qed
qed simp

lemma answersLen_Suc: "0 < i \<Longrightarrow> answersLen True nm i ps = 12 * length ps + length (concat ps)"
  by (induction ps arbitrary: i) auto

lemma answersLen_zero: "ps \<noteq> [] \<Longrightarrow> answersLen True nm 0 ps + 2 = length nm + 12 * length ps + length (concat ps)"
  by (cases ps) (simp_all add: answersLen_Suc)

text \<open>
  C34. With at least two answers behind a question section that ends beyond offset 16383 the builder
  reserves two bytes for each further answer name but writes the full name: when the excess is
  larger than the last payload and the OPT record, it writes past its buffer and panics.
\<close>

theorem large_question_section_panics:
  assumes "12 \<le> length q" "extractQuestionSection q (parseHeader q) = (qb, qc, qe)"
    and "findOPTRecordRange q (parseHeader q) qe = (s, l)" "responseAnswerNameBytes uf q name = Inr nb"
    and "2 \<le> length ps" "0x3FFF < 12 + length qb"
    and "length (last ps) + l < (length ps - 1) * (length nb - 2)"
  shows "BuildTXTResponsePacket uf q name ps = None"
proof -
  let ?h = "dnsHeaderBytes (hID (parseHeader q)) (buildResponseFlags (hFlags (parseHeader q)) DNSR_CODE_NO_ERROR) qc
          (of_nat (length ps)) 0 (getARCount l)"
  let ?cap = "12 + length qb + answersLen True nb 0 ps + l"
  have ne: "ps \<noteq> []" using assms(5) by auto
  then have cat: "length (concat ps) = length (concat (butlast ps)) + length (last ps)"
    by (metis append_butlast_last_id concat.simps concat_append length_append append_Nil2)
  obtain k where k: "length ps = Suc k" using ne by (cases ps) auto
  obtain m where m: "length nb = m + 2" using assms(7) by (cases "2 \<le> length nb") (auto dest: le_Suc_ex simp: add.commute)
  have "length ps * (length nb + 10) + length (concat (butlast ps)) + length (last ps) =
      answersLen True nb 0 ps + k * m"
    using answersLen_zero [OF ne, of nb] cat by (simp add: k m algebra_simps)
  then have over: "?cap < length (?h @ qb) + length ps * (length nb + 10) + length (concat (butlast ps))"
    using assms(7) by (simp add: k m)
  have "writeAnswers ?cap True (12 + length qb) nb 0 ps (?h @ qb) = None"
    by (rule writeAnswers_overflow [OF assms(6) ne _ over]) simp
  then show ?thesis
    using assms(1-5) by (simp add: BuildTXTResponsePacket_def Let_def bufCopy_def)
qed

lemma skipQuestions_replicate:
  assumes "drop offset data = concat (replicate n (wireName ls @ be16 t @ be16 c)) @ rest" "labelsOk ls"
  shows "skipQuestions data offset n = (offset + n * (length (wireName ls) + 4), None)"
  using assms(1)
proof (induction n arbitrary: offset)
  case (Suc n)
  let ?w = "length (wireName ls)"
  have d: "drop offset data = wireName ls @ be16 t @ be16 c @ concat (replicate n (wireName ls @ be16 t @ be16 c)) @ rest"
    using Suc.prems by simp
  have "drop (offset + (?w + 4)) data = concat (replicate n (wireName ls @ be16 t @ be16 c)) @ rest"
    using arg_cong [OF d, of "drop (?w + 4)"] by (simp add: add.commute)
  note IH = Suc.IH [OF this]
  have "length data = offset + (?w + 4) + length (concat (replicate n (wireName ls @ be16 t @ be16 c)) @ rest)"
    using arg_cong [OF d, of length] by (cases "offset \<le> length data") (simp_all add: wireName_def)
  then show ?case
    using parseName_wireName [OF d assms(2)] IH by (simp add: skipName_parseName ac_simps)
qed simp

text \<open>A request with 64 questions of 259 bytes, which the server's parser accepts.\<close>

definition longLabels :: "bytes list" where
  "longLabels = [replicate 63 97, replicate 63 97, replicate 63 97, replicate 61 97]"

definition manyQuestions :: bytes where
  "manyQuestions = dnsHeaderBytes 7 0x0100 64 0 0 0 @ concat (replicate 64 (wireName longLabels @ be16 16 @ be16 1))"

lemma longLabels_ok: "labelsOk longLabels" "length (wireName longLabels) = 255"
  by (simp_all add: longLabels_def labelsOk_def wireName_def)

lemma length_concat_replicate: "length (concat (replicate n xs)) = n * length xs"
  by (induction n) simp_all

theorem large_question_section_panics_witness:
  "(\<exists>lp. ParseDNSRequestLite manyQuestions = Inr lp) \<and>
   BuildTXTResponsePacket (\<lambda>_ _. False) manyQuestions (dotJoin longLabels) (replicate 3 (replicate 256 7)) = None"
proof -
  let ?q = manyQuestions and ?ps = "replicate 3 (replicate 256 7) :: bytes list"
  have d: "drop 12 ?q = concat (replicate 64 (wireName longLabels @ be16 16 @ be16 1)) @ []"
    by (simp add: manyQuestions_def)
  have len: "length ?q = 12 + 64 * 259"
    unfolding manyQuestions_def by (simp add: length_concat_replicate longLabels_ok)
  have h: "QDCount (parseHeader ?q) = 64" "ARCount (parseHeader ?q) = 0"
    by (simp_all add: manyQuestions_def)
  have s: "skipQuestions ?q 12 64 = (12 + 64 * 259, None)"
    using skipQuestions_replicate [OF d longLabels_ok(1)] by (simp add: longLabels_ok)
  have x: "extractQuestionSection ?q (parseHeader ?q) = (slice ?q 12 (12 + 64 * 259), 64, 12 + 64 * 259)"
    using s h by (simp add: extractQuestionSection_def)
  have o: "findOPTRecordRange ?q (parseHeader ?q) (12 + 64 * 259) = (0, 0)"
    using h by (simp add: findOPTRecordRange_def)
  have likely: "isLikelyDNSRequestHeader (parseHeader ?q)"
    unfolding manyQuestions_def
    by (simp add: isLikelyDNSRequestHeader_def isLikelyDNSMessageHeader_def parseHeader_def Let_def rd16_dnsHeaderBytes)
  have req: "\<exists>lp. ParseDNSRequestLite ?q = Inr lp"
    using skipQuestions_None [OF s] likely len h
    by (auto simp: ParseDNSRequestLite_def parsePacketLiteWithHeader_def Let_def)
  have f: "drop 12 ?q = wireName longLabels @ (be16 16 @ be16 1 @
      concat (replicate 63 (wireName longLabels @ be16 16 @ be16 1)))"
    using replicate_Suc [of 63 "wireName longLabels @ be16 16 @ be16 1"] d by (simp del: replicate_Suc)
  have n: "parseName ?q 12 = Inr (map asciiLower (dotJoin longLabels), 267)"
    using parseName_wireName [OF f longLabels_ok(1)] by (simp add: longLabels_ok) (simp add: longLabels_def)
  have a: "asciiLower 97 = 97" by (simp add: asciiLower_def)
  then have low: "map asciiLower (dotJoin longLabels) = dotJoin longLabels"
    by (simp add: longLabels_def)
  have fold_same: "EqualFold (\<lambda>_ _. False) xs xs" if "\<forall>x \<in> set xs. x < 128" for xs
    using that by (induction xs) auto
  have nb: "responseAnswerNameBytes (\<lambda>_ _. False) ?q (dotJoin longLabels) = Inr (slice ?q 12 267)"
    using n len h low fold_same [of "TrimSuffixDot (dotJoin longLabels)"]
    by (simp add: responseAnswerNameBytes_def extractFirstQuestionNameWire_def sameDNSName_def) (simp add: longLabels_def TrimSuffixDot_def)
  show ?thesis
    using req large_question_section_panics [OF _ x o nb, of ?ps] len by simp
qed

end
