(* ===== verification/Domain_Matcher.thy ===== *)
theory Domain_Matcher
  imports Dns_Transport "HOL-Library.List_Lexorder"
begin

text \<open>
  The server's domain matcher (\<open>internal/domainmatcher/matcher.go\<close>): a trie over the labels of the
  allowed domains from the right, and the walk of a request name through it. The walk is shown to find
  the longest allowed domain that ends the name at a label boundary, and the decision of \<open>Match\<close> is
  characterised by that specification.
\<close>

datatype matchAction = ActionFormatError | ActionNoData | ActionProcess

record decision =
  dAction :: matchAction
  dReason :: string
  dQuestion :: dnsQuestion
  dRequestName :: gostring
  dBaseDomain :: gostring
  dLabels :: gostring
  dQuestionType :: u16

text \<open>A node owns its children, so the pointers of the source form a tree; a nil map is empty.\<close>

datatype domainNode = DomainNode (children: "(gostring, domainNode) gomap") (nodeDomain: gostring)

record matcher =
  allowedDomains :: "gostring list"
  mRoot :: "domainNode option"
  minLabelLength :: int

section \<open>Strings\<close>

text \<open>\<open>strings.LastIndexByte(s, '.')\<close>, with \<open>None\<close> for -1.\<close>

definition lastIndexDot :: "gostring \<Rightarrow> nat option" where
  "lastIndexDot s =
     (let after = takeWhile (\<lambda>c. c \<noteq> 46) (rev s)
      in if length after = length s then None else Some (length s - 1 - length after))"

definition normalizeDomain :: "gostring \<Rightarrow> gostring" where
  "normalizeDomain domain = TrimSuffixDot (ToLower (TrimSpace domain))"

definition normalizeParsedDomain :: "gostring \<Rightarrow> gostring" where
  "normalizeParsedDomain domain =
     (if length domain \<noteq> 0 \<and> domain ! (length domain - 1) = 46 then take (length domain - 1) domain else domain)"

text \<open>
  The keys of \<open>unique\<close>, sorted by decreasing length and then lexicographically; the comparison is a
  total order, so the iteration order of the map does not matter.
\<close>

definition normalizeDomains :: "gostring list \<Rightarrow> gostring list" where
  "normalizeDomains domains =
     (let unique = remdups (filter (\<lambda>d. \<not> (d = [] \<or> d = [46])) (map normalizeDomain domains))
      in sort_key (\<lambda>d. - int (length d)) (sort unique))"

definition stripLabelDots :: "gostring \<Rightarrow> gostring" where
  "stripLabelDots labels = (if 46 \<notin> set labels then labels else filter (\<lambda>c. c \<noteq> 46) labels)"

section \<open>Trie\<close>

lemma lastIndexDot_less: "lastIndexDot s = Some i \<Longrightarrow> i < length s"
  using length_takeWhile_le [of "\<lambda>c. c \<noteq> 46" "rev s"] by (auto simp: lastIndexDot_def Let_def split: if_splits)

definition childNode :: "domainNode \<Rightarrow> gostring \<Rightarrow> domainNode" where
  "childNode node label = (case mget (children node) label of None \<Rightarrow> DomainNode [] [] | Some child \<Rightarrow> child)"

function insertDomain :: "gostring \<Rightarrow> nat \<Rightarrow> domainNode \<Rightarrow> domainNode" where
  "insertDomain domain offset node =
     (if offset = 0 then DomainNode (children node) domain
      else case lastIndexDot (take offset domain) of
        None \<Rightarrow>
          let label = slice domain 0 offset; child = childNode node label
          in DomainNode (mput (children node) label (DomainNode (children child) domain)) (nodeDomain node)
      | Some start \<Rightarrow>
          let label = slice domain (start + 1) offset; child = childNode node label
          in DomainNode (mput (children node) label (insertDomain domain start child)) (nodeDomain node))"
  by pat_completeness auto
termination
  by (relation "measure (\<lambda>(domain, offset, node). offset)") (auto dest!: lastIndexDot_less)

declare insertDomain.simps [simp del]

definition buildDomainTrie :: "gostring list \<Rightarrow> domainNode option" where
  "buildDomainTrie domains =
     (if domains = [] then None
      else Some (fold (\<lambda>domain root. insertDomain domain (length domain) root) domains (DomainNode [] [])))"

text \<open>The loop's result: the last domain seen and the start of its first label in the request name.\<close>

function walkDomain :: "gostring \<Rightarrow> nat \<Rightarrow> domainNode \<Rightarrow> (gostring \<times> nat) option \<Rightarrow> (gostring \<times> nat) option" where
  "walkDomain requestName offset node found =
     (if offset = 0 then found
      else
        let start = lastIndexDot (take offset requestName);
            labelStart = (case start of None \<Rightarrow> 0 | Some i \<Rightarrow> i + 1)
        in case mget (children node) (slice requestName labelStart offset) of
             None \<Rightarrow> found
           | Some child \<Rightarrow>
               let found' = (if nodeDomain child \<noteq> [] then Some (nodeDomain child, labelStart) else found)
               in case start of None \<Rightarrow> found' | Some i \<Rightarrow> walkDomain requestName i child found')"
  by pat_completeness auto
termination
  by (relation "measure (\<lambda>(requestName, offset, node, found). offset)") (auto dest!: lastIndexDot_less [OF sym])

declare walkDomain.simps [simp del]

definition findAllowedDomain :: "gostring \<Rightarrow> domainNode option \<Rightarrow> gostring \<times> gostring \<times> bool" where
  "findAllowedDomain requestName root =
     (case root of
        None \<Rightarrow> ([], [], False)
      | Some node \<Rightarrow>
          if requestName = [] then ([], [], False)
          else case walkDomain requestName (length requestName) node None of
            None \<Rightarrow> ([], [], False)
          | Some (baseDomain, matchedPos) \<Rightarrow>
              if matchedPos = 0 then (baseDomain, [], True)
              else
                let labels = take (matchedPos - 1) requestName
                in (baseDomain, if 46 \<in> set labels then stripLabelDots labels else labels, True))"

section \<open>Matcher\<close>

definition newMatcher :: "gostring list \<Rightarrow> int \<Rightarrow> matcher" where
  "newMatcher domains minLabelLength0 =
     (let normalized = normalizeDomains domains
      in \<lparr>allowedDomains = normalized, mRoot = buildDomainTrie normalized,
          minLabelLength = (if minLabelLength0 < 1 then 3 else minLabelLength0)\<rparr>)"

definition matcherDomains :: "matcher \<Rightarrow> gostring list" where
  "matcherDomains m = allowedDomains m"

definition Match :: "matcher \<Rightarrow> litePacket \<Rightarrow> decision" where
  "Match m parsed =
     (let zero = \<lparr>dAction = ActionFormatError, dReason = [], dQuestion = emptyQuestion, dRequestName = [],
            dBaseDomain = [], dLabels = [], dQuestionType = 0\<rparr> in
      if \<not> lHasQuestion parsed then zero\<lparr>dReason := ''missing-question''\<rparr>
      else
        let q0 = lFirstQuestion parsed; requestName = normalizeParsedDomain (qName q0) in
        if requestName = [] \<or> requestName = [46] then zero\<lparr>dReason := ''empty-qname''\<rparr>
        else case findAllowedDomain requestName (mRoot m) of (baseDomain, labels, matched) \<Rightarrow>
          let noData = zero\<lparr>dAction := ActionNoData, dQuestion := q0, dRequestName := requestName,
                dQuestionType := qType q0\<rparr> in
          if \<not> matched then noData\<lparr>dReason := ''unauthorized-domain''\<rparr>
          else if qType q0 \<noteq> DNS_RECORD_TYPE_TXT
          then noData\<lparr>dReason := ''unsupported-qtype'', dBaseDomain := baseDomain\<rparr>
          else if labels = [] then noData\<lparr>dReason := ''missing-vpn-labels'', dBaseDomain := baseDomain\<rparr>
          else if int (length labels) < minLabelLength m
          then noData\<lparr>dReason := ''labels-too-short'', dBaseDomain := baseDomain, dLabels := labels\<rparr>
          else noData\<lparr>dAction := ActionProcess, dReason := ''matched-vpn-domain'', dBaseDomain := baseDomain,
                 dLabels := labels\<rparr>)"

section \<open>Names as label paths\<close>

lemma lastIndexDot_dotfree [simp]: "46 \<notin> set s \<Longrightarrow> lastIndexDot s = None"
proof -
  assume "46 \<notin> set s"
  then have e: "takeWhile (\<lambda>c. c \<noteq> 46) (rev s) = rev s" by (auto simp: takeWhile_eq_all_conv)
  show ?thesis unfolding lastIndexDot_def e by simp
qed

lemma lastIndexDot_append [simp]: "46 \<notin> set l \<Longrightarrow> lastIndexDot (p @ 46 # l) = Some (length p)"
proof -
  assume "46 \<notin> set l"
  then have "\<And>c. c \<in> set (rev l) \<Longrightarrow> c \<noteq> 46" by auto
  from takeWhile_append2 [of "rev l" "\<lambda>c. c \<noteq> 46" "46 # rev p", OF this] have e: "takeWhile (\<lambda>c. c \<noteq> 46) (rev (p @ 46 # l)) = rev l" by simp
  show ?thesis unfolding lastIndexDot_def e by simp
qed

lemma name_cases:
  obtains (single) "46 \<notin> set s" | (dotted) p l where "s = p @ 46 # l" "46 \<notin> set l"
  by (meson split_list_last)

text \<open>The labels of a name from the right, as both loops visit them.\<close>

function labelPath :: "gostring \<Rightarrow> gostring list" where
  "labelPath s =
     (if s = [] then []
      else case lastIndexDot s of None \<Rightarrow> [s] | Some i \<Rightarrow> drop (i + 1) s # labelPath (take i s))"
  by pat_completeness auto
termination by (relation "measure length") (auto dest!: lastIndexDot_less)

declare labelPath.simps [simp del]

fun trieInsert :: "gostring list \<Rightarrow> gostring \<Rightarrow> domainNode \<Rightarrow> domainNode" where
  "trieInsert [] d (DomainNode cs _) = DomainNode cs d"
| "trieInsert (l # ls) d (DomainNode cs e) =
     DomainNode (mput cs l (trieInsert ls d (childNode (DomainNode cs e) l))) e"

fun trieLookup :: "gostring list \<Rightarrow> domainNode \<Rightarrow> gostring" where
  "trieLookup [] node = nodeDomain node"
| "trieLookup (l # ls) node = (case mget (children node) l of None \<Rightarrow> [] | Some c \<Rightarrow> trieLookup ls c)"

lemma trieLookup_empty [simp]: "trieLookup ls (DomainNode [] []) = []"
  by (cases ls) simp_all

lemma trieLookup_insert: "trieLookup ls (trieInsert ks d node) = (if ls = ks then d else trieLookup ls node)"
proof (induction ks d node arbitrary: ls rule: trieInsert.induct)
  case (1 d cs e)
  then show ?case by (cases ls) simp_all
next
  case (2 k ks d cs e)
  show ?case
  proof (cases ls)
    case (Cons l ls')
    then show ?thesis
      using 2 by (simp add: childNode_def split: option.splits)
  qed simp
qed

lemma labelPath_Nil [simp]: "labelPath [] = []"
  by (simp add: labelPath.simps)

lemma labelPath_single: "46 \<notin> set s \<Longrightarrow> s \<noteq> [] \<Longrightarrow> labelPath s = [s]"
  by (simp add: labelPath.simps)

lemma labelPath_dotted [simp]: "46 \<notin> set l \<Longrightarrow> labelPath (p @ 46 # l) = l # labelPath p"
  by (simp add: labelPath.simps [of "p @ 46 # l"])

lemma insertDomain_path:
  "insertDomain (p @ rest) (length p) node =
     (if p = [] then trieInsert [] (p @ rest) node else trieInsert (labelPath p) (p @ rest) node)"
proof (induction "length p" arbitrary: p rest node rule: less_induct)
  case less
  obtain cs e where node: "node = DomainNode cs e" by (cases node)
  show ?case
  proof (cases p rule: name_cases)
    case single
    obtain cs' e' where c: "childNode node p = DomainNode cs' e'" by (cases "childNode node p")
    show ?thesis
      using single c by (simp add: insertDomain.simps [of "p @ rest" "length p"] labelPath_single slice_def node)
  next
    case (dotted q l)
    have "insertDomain (q @ 46 # l @ rest) (length q) n = trieInsert (labelPath q) (q @ 46 # l @ rest) n" for n
      using less [of q "46 # l @ rest" n] dotted by simp
    then show ?thesis
      using dotted by (simp add: insertDomain.simps [of "q @ 46 # l @ rest"] slice_def node)
  qed
qed

definition trieOf :: "gostring list \<Rightarrow> domainNode" where
  "trieOf ds = fold (\<lambda>d. trieInsert (labelPath d) d) ds (DomainNode [] [])"

lemma buildDomainTrie_eq: "buildDomainTrie ds = (if ds = [] then None else Some (trieOf ds))"
proof -
  have "insertDomain d (length d) = trieInsert (labelPath d) d" for d
    using insertDomain_path [of d "[]"] by (cases "d = []") (auto simp: fun_eq_iff)
  then show ?thesis by (simp add: buildDomainTrie_def trieOf_def)
qed

text \<open>Domains that can be reached by a walk: not empty and not starting with a dot.\<close>

definition cleanDomain :: "gostring \<Rightarrow> bool" where
  "cleanDomain d \<longleftrightarrow> d \<noteq> [] \<and> hd d \<noteq> 46"

text \<open>\<open>d\<close> ends the name \<open>n\<close> at a label boundary.\<close>

definition dotSuffix :: "gostring \<Rightarrow> gostring \<Rightarrow> bool" where
  "dotSuffix d n \<longleftrightarrow> n = d \<or> (\<exists>p. n = p @ 46 # d)"

lemma labelPath_eq_Nil [simp]: "labelPath s = [] \<longleftrightarrow> s = []"
  by (cases s rule: name_cases) (auto simp: labelPath.simps)

lemma labelPath_append: "cleanDomain d \<Longrightarrow> labelPath (p @ 46 # d) = labelPath d @ labelPath p"
proof (induction "length d" arbitrary: d rule: less_induct)
  case less
  show ?case
  proof (cases d rule: name_cases)
    case single
    then show ?thesis using less.prems by (simp add: labelPath_single cleanDomain_def)
  next
    case (dotted q l)
    then have "cleanDomain q" using less.prems by (cases q) (auto simp: cleanDomain_def)
    then have "labelPath (p @ 46 # q) = labelPath q @ labelPath p" using less.hyps dotted by simp
    then show ?thesis using dotted labelPath_dotted [of l "p @ 46 # q"] by simp
  qed
qed

lemma labelPath_suffix:
  "cleanDomain d \<Longrightarrow> labelPath n = labelPath d @ r \<Longrightarrow> dotSuffix d n"
proof (induction "length d" arbitrary: d n rule: less_induct)
  case less
  have n: "n \<noteq> []" using less.prems by (auto simp: cleanDomain_def)
  show ?case
  proof (cases d rule: name_cases)
    case single
    then have hd: "labelPath n = d # r" using less.prems by (simp add: labelPath_single cleanDomain_def)
    then show ?thesis
      using n by (cases n rule: name_cases) (auto simp: labelPath_single dotSuffix_def)
  next
    case (dotted q l)
    then have c: "cleanDomain q" using less.prems(1) by (cases q) (auto simp: cleanDomain_def)
    then have q: "labelPath q \<noteq> []" by (simp add: cleanDomain_def)
    have e: "labelPath n = l # labelPath q @ r" using less.prems(2) dotted by simp
    show ?thesis
    proof (cases n rule: name_cases)
      case single
      then show ?thesis using e n q by (simp add: labelPath_single)
    next
      case (dotted m k)
      then have "k = l" "labelPath m = labelPath q @ r" using e by auto
      moreover have "dotSuffix q m" using less.hyps [OF _ c calculation(2)] \<open>d = q @ 46 # l\<close> by simp
      ultimately show ?thesis using dotted \<open>d = q @ 46 # l\<close> by (auto simp: dotSuffix_def)
    qed
  qed
qed

lemma labelPath_prefix:
  assumes "cleanDomain d" "dotSuffix d n"
  obtains r where "labelPath n = labelPath d @ r"
  using assms labelPath_append [OF assms(1)] that [of "[]"] unfolding dotSuffix_def by auto

lemma labelPath_inject:
  assumes "cleanDomain d" "cleanDomain e" "labelPath d = labelPath e"
  shows "d = e"
proof (rule ccontr)
  assume "d \<noteq> e"
  then obtain p where p: "e = p @ 46 # d"
    using labelPath_suffix [of d e "[]"] assms by (auto simp: dotSuffix_def)
  then have "labelPath p = []" using labelPath_append [OF assms(1), of p] assms(3) by simp
  then show False using p assms(2) by (simp add: cleanDomain_def)
qed

lemma trieLookup_fold:
  assumes "\<forall>d \<in> set ds. cleanDomain d" "d \<noteq> []"
  shows "trieLookup ls (trieOf ds) = d \<longleftrightarrow> d \<in> set ds \<and> labelPath d = ls"
  using assms(1)
proof (induction ds rule: rev_induct)
  case Nil
  then show ?case using assms(2) by (simp add: trieOf_def)
next
  case (snoc e ds)
  have "trieOf (ds @ [e]) = trieInsert (labelPath e) e (trieOf ds)" by (simp add: trieOf_def)
  then show ?case
    using snoc labelPath_inject by (auto simp: trieLookup_insert)
qed

fun walkPath :: "gostring list \<Rightarrow> nat \<Rightarrow> domainNode \<Rightarrow> (gostring \<times> nat) option \<Rightarrow> (gostring \<times> nat) option" where
  "walkPath [] off node found = found"
| "walkPath (l # ls) off node found =
     (case mget (children node) l of
        None \<Rightarrow> found
      | Some c \<Rightarrow> walkPath ls (off - length l - 1) c
          (if nodeDomain c \<noteq> [] then Some (nodeDomain c, off - length l) else found))"

lemma walkDomain_path:
  "walkDomain (p @ rest) (length p) node found = walkPath (labelPath p) (length p) node found"
proof (induction "length p" arbitrary: p rest node found rule: less_induct)
  case less
  show ?case
  proof (cases p rule: name_cases)
    case single
    then show ?thesis
      by (cases "p = []") (simp_all add: walkDomain.simps [of "p @ rest" "length p"] walkDomain.simps [of rest 0]
        labelPath_single slice_def Let_def split: option.splits)
  next
    case (dotted q l)
    have IH: "walkDomain (q @ 46 # l @ rest) (length q) n f = walkPath (labelPath q) (length q) n f" for n f
      using less [of q "46 # l @ rest" n f] dotted by simp
    show ?thesis
      using dotted by (subst walkDomain.simps) (simp add: slice_def Let_def IH split: option.splits)
  qed
qed

lemma walkPath_spec:
  "(\<forall>i. 0 < i \<and> i \<le> length ls \<longrightarrow> trieLookup (take i ls) node = []) \<and> walkPath ls off node found = found \<or>
   (\<exists>i. 0 < i \<and> i \<le> length ls \<and> trieLookup (take i ls) node \<noteq> [] \<and>
      (\<forall>j. i < j \<and> j \<le> length ls \<longrightarrow> trieLookup (take j ls) node = []) \<and>
      walkPath ls off node found = Some (trieLookup (take i ls) node, off - length (concat (take i ls)) - (i - 1)))"
proof (induction ls arbitrary: off node found)
  case (Cons l ls)
  show ?case
  proof (cases "mget (children node) l")
    case None
    then have "trieLookup (take i (l # ls)) node = []" if "0 < i" for i using that by (cases i) auto
    then show ?thesis using None by simp
  next
    case (Some c)
    let ?f = "if nodeDomain c \<noteq> [] then Some (nodeDomain c, off - length l) else found"
    have t: "trieLookup (take (Suc i) (l # ls)) node = trieLookup (take i ls) c" for i using Some by simp
    have w: "walkPath (l # ls) off node found = walkPath ls (off - length l - 1) c ?f" using Some by simp
    from Cons.IH [of c "off - length l - 1" ?f] show ?thesis
    proof (elim disjE exE conjE)
      assume none: "\<forall>i. 0 < i \<and> i \<le> length ls \<longrightarrow> trieLookup (take i ls) c = []"
        and f: "walkPath ls (off - length l - 1) c ?f = ?f"
      have later: "trieLookup (take j (l # ls)) node = []" if "1 < j" "j \<le> length (l # ls)" for j
        using none that t [of "j - 1"] by (cases j) auto
      show ?thesis
      proof (cases "nodeDomain c = []")
        case True
        then have "trieLookup (take j (l # ls)) node = []" if "0 < j" "j \<le> length (l # ls)" for j
          using later that t [of 0] by (cases "j = 1") auto
        then show ?thesis using w f True by auto
      next
        case False
        then show ?thesis using w f later t [of 0] by (intro disjI2 exI [of _ 1]) auto
      qed
    next
      fix i assume i: "0 < i" "i \<le> length ls" "trieLookup (take i ls) c \<noteq> []"
        and later: "\<forall>j. i < j \<and> j \<le> length ls \<longrightarrow> trieLookup (take j ls) c = []"
        and f: "walkPath ls (off - length l - 1) c ?f =
          Some (trieLookup (take i ls) c, off - length l - 1 - length (concat (take i ls)) - (i - 1))"
      have "trieLookup (take j (l # ls)) node = []" if "Suc i < j" "j \<le> length (l # ls)" for j
        using later that t [of "j - 1"] by (cases j) auto
      then show ?thesis using i w f t [of i] by (intro disjI2 exI [of _ "Suc i"]) auto
    qed
  qed
qed simp

section \<open>The walk finds the longest allowed domain\<close>

lemma labelPath_length: "cleanDomain d \<Longrightarrow> length (concat (labelPath d)) + length (labelPath d) = length d + 1"
proof (induction "length d" arbitrary: d rule: less_induct)
  case less
  show ?case
  proof (cases d rule: name_cases)
    case single
    then show ?thesis using less.prems by (simp add: labelPath_single cleanDomain_def)
  next
    case (dotted q l)
    then have "cleanDomain q" using less.prems by (cases q) (auto simp: cleanDomain_def)
    then show ?thesis using less.hyps [of q] dotted by simp
  qed
qed

lemma dotSuffix_length: "dotSuffix d n \<Longrightarrow> length d \<le> length n"
  by (auto simp: dotSuffix_def)

lemma walk_longest:
  assumes clean: "\<forall>d \<in> set ds. cleanDomain d"
  shows "walkDomain n (length n) (trieOf ds) None = None \<and> (\<forall>d \<in> set ds. \<not> dotSuffix d n) \<or>
    (\<exists>d \<in> set ds. dotSuffix d n \<and> (\<forall>d' \<in> set ds. dotSuffix d' n \<longrightarrow> length d' \<le> length d) \<and>
       walkDomain n (length n) (trieOf ds) None = Some (d, length n - length d))"
proof -
  let ?ls = "labelPath n" and ?t = "trieOf ds"
  have w: "walkDomain n (length n) ?t None = walkPath ?ls (length n) ?t None" using walkDomain_path [of n "[]"] by simp
  have look: "trieLookup ks ?t = d \<longleftrightarrow> labelPath d = ks" if "d \<in> set ds" for d ks
    using trieLookup_fold [OF clean, of d ks] that clean by (auto simp: cleanDomain_def)
  have pos: "\<exists>i. 0 < i \<and> i \<le> length ?ls \<and> trieLookup (take i ?ls) ?t = d \<and> labelPath d = take i ?ls"
    if d: "d \<in> set ds" "dotSuffix d n" for d
  proof -
    have c: "cleanDomain d" using clean d(1) by blast
    obtain r where "?ls = labelPath d @ r" using labelPath_prefix [OF c d(2)] .
    moreover have "labelPath d \<noteq> []" using c by (simp add: cleanDomain_def)
    ultimately show ?thesis using look [OF d(1)] by (intro exI [of _ "length (labelPath d)"]) auto
  qed
  from walkPath_spec [of ?ls ?t "length n" None] show ?thesis
  proof (elim disjE exE conjE)
    assume none: "\<forall>i. 0 < i \<and> i \<le> length ?ls \<longrightarrow> trieLookup (take i ?ls) ?t = []"
      and f: "walkPath ?ls (length n) ?t None = None"
    have "\<not> dotSuffix d n" if "d \<in> set ds" for d
      using pos [OF that] none clean that by (force simp: cleanDomain_def)
    then show ?thesis using w f by simp
  next
    fix i assume i: "0 < i" "i \<le> length ?ls" "trieLookup (take i ?ls) ?t \<noteq> []"
      and later: "\<forall>j. i < j \<and> j \<le> length ?ls \<longrightarrow> trieLookup (take j ?ls) ?t = []"
      and f: "walkPath ?ls (length n) ?t None =
        Some (trieLookup (take i ?ls) ?t, length n - length (concat (take i ?ls)) - (i - 1))"
    let ?d = "trieLookup (take i ?ls) ?t"
    have d: "?d \<in> set ds" "labelPath ?d = take i ?ls" using trieLookup_fold [OF clean i(3), of "take i ?ls"] by auto
    have c: "cleanDomain ?d" using clean d(1) by blast
    have suf: "dotSuffix ?d n" using labelPath_suffix [OF c, of n "drop i ?ls"] d(2) by simp
    have len: "length e' \<le> length ?d" if d': "e' \<in> set ds" "dotSuffix e' n" for e'
    proof -
      obtain j where j: "0 < j" "j \<le> length ?ls" "trieLookup (take j ?ls) ?t = e'" "labelPath e' = take j ?ls"
        using pos [OF d'] by blast
      have c': "cleanDomain e'" using clean d'(1) by blast
      then have "e' \<noteq> []" by (simp add: cleanDomain_def)
      then have "j \<le> i" using later j(2,3) by (meson not_le)
      then have "labelPath ?d = labelPath e' @ drop j (take i ?ls)"
        using d(2) j(4) by (metis append_take_drop_id min.absorb1 take_take)
      then show ?thesis using labelPath_suffix [OF c'] dotSuffix_length by blast
    qed
    have "length n - length (concat (take i ?ls)) - (i - 1) = length n - length ?d"
      using labelPath_length [OF c] i(1,2) unfolding d(2) by simp
    then show ?thesis using w f suf d(1) len by auto
  qed
qed

lemma findAllowedDomain_spec:
  assumes clean: "\<forall>d \<in> set ds. cleanDomain d" and n: "n \<noteq> []"
  shows "(\<forall>d \<in> set ds. \<not> dotSuffix d n) \<and> findAllowedDomain n (buildDomainTrie ds) = ([], [], False) \<or>
    (\<exists>d \<in> set ds. dotSuffix d n \<and> (\<forall>d' \<in> set ds. dotSuffix d' n \<longrightarrow> length d' \<le> length d) \<and>
       findAllowedDomain n (buildDomainTrie ds) =
         (d, filter (\<lambda>c. c \<noteq> 46) (take (length n - length d - 1) n), True))"
proof (cases "ds = []")
  case False
  have s: "(if 46 \<in> set xs then stripLabelDots xs else xs) = filter (\<lambda>c. c \<noteq> 46) xs" for xs
    by (auto simp: stripLabelDots_def intro!: filter_True [symmetric])
  show ?thesis
    using walk_longest [OF clean, of n] n False by (auto simp: findAllowedDomain_def buildDomainTrie_eq s Let_def)
qed (simp add: findAllowedDomain_def buildDomainTrie_eq)

lemma normalizeDomains_set:
  "set (normalizeDomains domains) = {d \<in> normalizeDomain ` set domains. d \<noteq> [] \<and> d \<noteq> [46]} \<and>
   distinct (normalizeDomains domains)"
  by (auto simp: normalizeDomains_def Let_def)

section \<open>Property\<close>

text \<open>
  C6. The matcher implements longest-suffix matching. For a request with a usable question name, the
  decision is \<open>NoData\<close> when no allowed domain ends the name at a label boundary; otherwise the base
  domain is the longest allowed one that does, and the request is processed exactly when it is a TXT
  query with enough characters in front of that domain, which are then handed on without their dots.
\<close>

theorem match_longest_suffix:
  assumes "\<forall>d \<in> set (allowedDomains (newMatcher domains k)). hd d \<noteq> 46"
    and "lHasQuestion lp" "n = normalizeParsedDomain (qName (lFirstQuestion lp))" "n \<noteq> []" "n \<noteq> [46]"
  shows "dAction (Match (newMatcher domains k) lp) = ActionNoData \<and>
      dReason (Match (newMatcher domains k) lp) = ''unauthorized-domain'' \<and>
      (\<forall>d \<in> set (allowedDomains (newMatcher domains k)). \<not> dotSuffix d n) \<or>
    (\<exists>d \<in> set (allowedDomains (newMatcher domains k)). dotSuffix d n \<and>
      (\<forall>d' \<in> set (allowedDomains (newMatcher domains k)). dotSuffix d' n \<longrightarrow> length d' \<le> length d) \<and>
      dBaseDomain (Match (newMatcher domains k) lp) = d \<and>
      (let labels = filter (\<lambda>c. c \<noteq> 46) (take (length n - length d - 1) n)
       in if qType (lFirstQuestion lp) = DNS_RECORD_TYPE_TXT \<and> (if k < 1 then 3 else k) \<le> int (length labels)
          then dAction (Match (newMatcher domains k) lp) = ActionProcess \<and>
               dLabels (Match (newMatcher domains k) lp) = labels
          else dAction (Match (newMatcher domains k) lp) = ActionNoData))"
proof -
  let ?m = "newMatcher domains k"
  have c: "\<forall>d \<in> set (allowedDomains ?m). cleanDomain d"
    using assms(1) normalizeDomains_set [of domains] by (auto simp: newMatcher_def Let_def cleanDomain_def)
  have r: "mRoot ?m = buildDomainTrie (allowedDomains ?m)" "minLabelLength ?m = (if k < 1 then 3 else k)"
    by (simp_all add: newMatcher_def Let_def)
  have e: "Match ?m lp = (case findAllowedDomain n (mRoot ?m) of (baseDomain, labels, matched) \<Rightarrow>
      let noData = \<lparr>dAction = ActionNoData, dReason = [], dQuestion = lFirstQuestion lp, dRequestName = n,
            dBaseDomain = [], dLabels = [], dQuestionType = qType (lFirstQuestion lp)\<rparr> in
          if \<not> matched then noData\<lparr>dReason := ''unauthorized-domain''\<rparr>
          else if qType (lFirstQuestion lp) \<noteq> DNS_RECORD_TYPE_TXT
          then noData\<lparr>dReason := ''unsupported-qtype'', dBaseDomain := baseDomain\<rparr>
          else if labels = [] then noData\<lparr>dReason := ''missing-vpn-labels'', dBaseDomain := baseDomain\<rparr>
          else if int (length labels) < minLabelLength ?m
          then noData\<lparr>dReason := ''labels-too-short'', dBaseDomain := baseDomain, dLabels := labels\<rparr>
          else noData\<lparr>dAction := ActionProcess, dReason := ''matched-vpn-domain'', dBaseDomain := baseDomain,
                 dLabels := labels\<rparr>)"
    using assms(2,4,5) by (simp add: Match_def Let_def assms(3) split: prod.split)
  from findAllowedDomain_spec [OF c assms(4)] show ?thesis
  proof (elim disjE bexE conjE)
    assume "\<forall>d \<in> set (allowedDomains ?m). \<not> dotSuffix d n"
      and "findAllowedDomain n (buildDomainTrie (allowedDomains ?m)) = ([], [], False)"
    then show ?thesis by (simp add: e r)
  next
    fix d assume d: "d \<in> set (allowedDomains ?m)" "dotSuffix d n"
        "\<forall>d' \<in> set (allowedDomains ?m). dotSuffix d' n \<longrightarrow> length d' \<le> length d"
      and f: "findAllowedDomain n (buildDomainTrie (allowedDomains ?m)) =
        (d, filter (\<lambda>c. c \<noteq> 46) (take (length n - length d - 1) n), True)"
    let ?l = "filter (\<lambda>c. c \<noteq> 46) (take (length n - length d - 1) n)"
    have k: "(if k < 1 then 3 else k) \<le> int (length ?l) \<Longrightarrow> ?l \<noteq> []" by (auto split: if_splits)
    show ?thesis
      using d k by (intro disjI2 bexI [OF _ d(1)]) (simp add: e r f Let_def)
  qed
qed

theorem match_longest_suffix_witness:
  "let m = newMatcher [[101, 120], [118, 46, 69, 120, 46]] 0;
       d = Match m \<lparr>lHeader = parseHeader (replicate 12 0), lQuestions = [],
             lFirstQuestion = \<lparr>qName = [97, 98, 46, 99, 46, 118, 46, 101, 120], qType = 16, qClass = 1\<rparr>,
             lHasQuestion = True, lQuestionEndOffset = 12\<rparr>
   in dAction d = ActionProcess \<and> dBaseDomain d = [118, 46, 101, 120] \<and> dLabels d = [97, 98, 99]"
proof -
  let ?m = "newMatcher [[101, 120], [118, 46, 69, 120, 46]] 0"
  let ?n = "[97, 98, 46, 99, 46, 118, 46, 101, 120] :: gostring"
  let ?lp = "\<lparr>lHeader = parseHeader (replicate 12 0), lQuestions = [], lFirstQuestion =
      \<lparr>qName = ?n, qType = 16, qClass = 1\<rparr>, lHasQuestion = True, lQuestionEndOffset = 12\<rparr>"
  have a: "set (allowedDomains ?m) = {[118, 46, 101, 120], [101, 120]}"
    using normalizeDomains_set [of "[[101, 120], [118, 46, 69, 120, 46]]"]
    by (auto simp: newMatcher_def Let_def normalizeDomain_def TrimSuffixDot_def ToLower_def TrimSpace_def
      isSpaceASCII_def asciiLower_def)
  have n: "?n = normalizeParsedDomain (qName (lFirstQuestion ?lp))" by (simp add: normalizeParsedDomain_def)
  have s: "dotSuffix [118, 46, 101, 120] ?n"
    unfolding dotSuffix_def by (rule disjI2, rule exI [of _ "[97, 98, 46, 99]"]) simp
  show ?thesis
    using match_longest_suffix [of "[[101, 120], [118, 46, 69, 120, 46]]" 0 ?lp, OF _ _ n] s unfolding a
    by (auto simp: Let_def)
qed

end
