(* ===== verification/Tunnel_Query.thy ===== *)
theory Tunnel_Query
  imports Dns_Transport Domain_Matcher
begin

text \<open>
  The client's tunnel queries (\<open>internal/client/tunnel_query.go\<close>): a frame is built, compressed,
  encrypted and put into the name of a TXT query. Together with the server's parser and matcher this
  gives the uplink: the lemmas show what the server reads from a query as a resolver forwards it.
\<close>

section \<open>Queries of the client\<close>

abbreviation (input) EDnsSafeUDPSize :: u16 where "EDnsSafeUDPSize \<equiv> 4096"

datatype queryError = QueryVpn vpnError | QueryDns dnsError

record preparedTunnelDomain =
  normalized :: gostring
  qname :: bytes

definition buildTunnelTXTQuestionBytes :: "gostring \<Rightarrow> bytes \<Rightarrow> u32 \<Rightarrow> dnsError + bytes \<times> u32" where
  "buildTunnelTXTQuestionBytes domain encoded counter =
     BuildTunnelTXTQuestionPacket domain encoded DNS_RECORD_TYPE_TXT EDnsSafeUDPSize counter"

definition prepareTunnelDomain :: "gostring \<Rightarrow> dnsError + preparedTunnelDomain" where
  "prepareTunnelDomain domain =
     (case PrepareTunnelDomainQname domain of
        Inl err \<Rightarrow> Inl err
      | Inr (nd, dq) \<Rightarrow> Inr \<lparr>normalized = nd, qname = dq\<rparr>)"

definition buildTunnelTXTQueryRaw ::
  "codec option \<Rightarrow> entropy \<Rightarrow> gostring \<Rightarrow> buildOptions \<Rightarrow> u32 \<Rightarrow> queryError + bytes \<times> u32" where
  "buildTunnelTXTQueryRaw c rand domain options counter =
     (case BuildRaw options of
        Inl err \<Rightarrow> Inl (QueryVpn err)
      | Inr raw \<Rightarrow>
          (case EncryptAndEncodeBytes c rand raw of
             Inl err \<Rightarrow> Inl (QueryVpn (ErrFromCodec err))
           | Inr encoded \<Rightarrow> map_sum QueryDns id (buildTunnelTXTQuestionBytes domain encoded counter)))"

definition buildEncodedAutoWithCompressionTrace ::
  "compressors \<Rightarrow> codec option \<Rightarrow> entropy \<Rightarrow> int \<Rightarrow> buildOptions \<Rightarrow> vpnError + bytes" where
  "buildEncodedAutoWithCompressionTrace cs c rand compressionMinSize options =
     (case BuildRawAuto cs options compressionMinSize of
        Inl err \<Rightarrow> Inl err
      | Inr raw \<Rightarrow>
          if c = None then Inl ErrCodecUnavailable
          else map_sum ErrFromCodec id (EncryptAndEncodeBytes c rand raw))"

definition buildTunnelTXTQuery ::
  "compressors \<Rightarrow> codec option \<Rightarrow> entropy \<Rightarrow> int \<Rightarrow> gostring \<Rightarrow> buildOptions \<Rightarrow> u32 \<Rightarrow> queryError + bytes \<times> u32" where
  "buildTunnelTXTQuery cs c rand compressionMinSize domain options counter =
     (case buildEncodedAutoWithCompressionTrace cs c rand compressionMinSize options of
        Inl err \<Rightarrow> Inl (QueryVpn err)
      | Inr encoded \<Rightarrow> map_sum QueryDns id (buildTunnelTXTQuestionBytes domain encoded counter))"

section \<open>Encoded frames\<close>

lemma EncryptAndEncodeBytes_eq: "EncryptAndEncodeBytes c rand data = EncryptAndEncode c rand data"
  by (auto simp: EncryptAndEncodeBytes_def EncryptAndEncode_def EncodeToBytes_def Encode_eq
    EncodeLowerBase36Bytes_eq split: option.splits sum.splits)

lemma encodedAuto_eq:
  "buildEncodedAutoWithCompressionTrace cs c rand k options = BuildEncodedAuto cs options c rand k"
  by (cases "BuildRawAuto cs options k"; cases c)
    (auto simp: buildEncodedAutoWithCompressionTrace_def BuildEncodedAuto_def EncryptAndEncodeBytes_eq split: sum.splits)

section \<open>The request as the server reads it\<close>

text \<open>
  A request that asks what \<open>ls\<close> and \<open>t\<close> ask, up to letter case, as resolvers forward it: with another
  ID, other flags and other records.
\<close>

definition asks :: "bytes list \<Rightarrow> u16 \<Rightarrow> bytes \<Rightarrow> bool" where
  "asks ls t msg \<longleftrightarrow> isLikelyDNSRequestHeader (parseHeader msg) \<and> QDCount (parseHeader msg) = 1 \<and>
     (\<exists>ls' c rest. map (map asciiLower) ls' = map (map asciiLower) ls \<and> drop 12 msg = wireName ls' @ be16 t @ be16 c @ rest)"

lemma asciiLower_idem [simp]: "asciiLower (asciiLower c) = asciiLower c"
proof (cases "65 \<le> c \<and> c \<le> 90")
  case True
  then have "unat (c + 32) = unat c + 32" "unat c \<le> 90" "65 \<le> unat c"
    by (simp_all add: word_le_nat_alt unat_word_ariths)
  then have "\<not> (c + 32 \<le> 90)" by (simp add: word_le_nat_alt)
  then show ?thesis using True by (simp add: asciiLower_def)
qed (simp add: asciiLower_def)

lemma map_asciiLower_dotJoin: "map asciiLower (dotJoin ls) = dotJoin (map (map asciiLower) ls)"
  by (induction ls rule: dotJoin.induct) auto

lemma labelsOk_lower: "map (map asciiLower) ls' = map (map asciiLower) ls \<Longrightarrow> labelsOk ls \<Longrightarrow> labelsOk ls'"
proof -
  assume eq: "map (map asciiLower) ls' = map (map asciiLower) ls" and ok: "labelsOk ls"
  have "map length (map (map asciiLower) xs) = map length xs" for xs by (simp add: comp_def)
  then have len: "map length ls' = map length ls" using eq by metis
  moreover have "length ls' = length ls" using len by (rule map_eq_imp_length_eq)
  ultimately have "length (wireLabels ls') = length (wireLabels ls)" by (simp add: length_wireLabels length_concat)
  moreover have "0 < length l \<and> length l \<le> 63" if "l \<in> set ls'" for l
  proof -
    have "length l \<in> set (map length ls)" using that unfolding len [symmetric] by simp
    then show ?thesis using ok by (auto simp: labelsOk_def)
  qed
  ultimately show ?thesis using ok by (simp add: labelsOk_def wireName_def)
qed

lemma asks_parse:
  assumes "asks ls t msg" "labelsOk ls" "ls \<noteq> []"
  shows "\<exists>lp. ParseDNSRequestLite msg = Inr lp \<and> lHasQuestion lp \<and>
    qName (lFirstQuestion lp) = map asciiLower (dotJoin ls) \<and> qType (lFirstQuestion lp) = t"
proof -
  obtain ls' c rest where l: "map (map asciiLower) ls' = map (map asciiLower) ls"
      "drop 12 msg = wireName ls' @ be16 t @ be16 c @ rest"
      "isLikelyDNSRequestHeader (parseHeader msg)" "QDCount (parseHeader msg) = 1"
    using assms(1) by (auto simp: asks_def)
  have ok: "labelsOk ls'" by (rule labelsOk_lower [OF l(1) assms(2)])
  have ne: "ls' \<noteq> []" using l(1) assms(3) by auto
  have n: "map asciiLower (dotJoin ls') = map asciiLower (dotJoin ls)" by (simp add: map_asciiLower_dotJoin l(1))
  have "\<not> length msg < 12" using arg_cong [OF l(2), of length] by (auto simp: wireName_def)
  then show ?thesis
    using parseQuestions_plain [OF l(2) ok] l(3,4) ne n
    by (simp add: ParseDNSRequestLite_def parsePacketLiteWithHeader_def Let_def)
qed

section \<open>The match\<close>

lemma dotSuffix_chain:
  assumes "dotSuffix a n" "dotSuffix b n" "length a \<le> length b"
  shows "dotSuffix a b"
proof (cases "length a = length b")
  case True
  then show ?thesis using assms(1,2) by (auto simp: dotSuffix_def)
next
  case False
  then obtain p where p: "n = p @ 46 # a" using assms by (auto simp: dotSuffix_def dest: dotSuffix_length)
  have "b = drop (length n - length b) n" using assms(2) by (auto simp: dotSuffix_def)
  then have "b = drop (length n - length b) p @ 46 # a" using False assms(3) p by simp
  then show ?thesis by (auto simp: dotSuffix_def)
qed

lemma Match_process:
  assumes "lHasQuestion lp" "normalizeParsedDomain (qName (lFirstQuestion lp)) = n" "n \<noteq> []" "n \<noteq> [46]"
    and "findAllowedDomain n (mRoot m) = (d, labels, True)" "qType (lFirstQuestion lp) = DNS_RECORD_TYPE_TXT"
    and "labels \<noteq> []" "minLabelLength m \<le> int (length labels)"
  shows "dAction (Match m lp) = ActionProcess \<and> dLabels (Match m lp) = labels \<and> dBaseDomain (Match m lp) = d"
  using assms by (simp add: Match_def Let_def)

lemma filter_dots_concat: "(\<And>l. l \<in> set ls \<Longrightarrow> 46 \<notin> set l) \<Longrightarrow> filter (\<lambda>c. c \<noteq> 46) (dotJoin ls) = concat ls"
proof (induction ls rule: dotJoin.induct)
  case (2 l)
  then show ?case by (auto intro!: filter_True)
next
  case (3 l m ls)
  then have "filter (\<lambda>c. c \<noteq> 46) l = l" by (auto intro!: filter_True)
  then show ?case using 3 by simp
qed simp

lemma dotJoin_append: "ls \<noteq> [] \<Longrightarrow> ms \<noteq> [] \<Longrightarrow> dotJoin (ls @ ms) = dotJoin ls @ 46 # dotJoin ms"
  by (induction ls rule: dotJoin.induct) (auto simp: dotJoin_Cons)

lemma trimmed_last:
  assumes "TrimSuffixDot (TrimSpace d) = d" "d \<noteq> []"
  shows "last d \<noteq> 46"
proof
  assume dot: "last d = 46"
  let ?s = "TrimSpace d"
  have "length d \<le> length ?s" "length ?s \<le> length d"
    using length_TrimSuffixDot [of ?s] length_TrimSpace [of d] assms(1) by simp_all
  then have len: "length ?s = length d" by simp
  then have "butlast ?s \<noteq> d" using assms(2) length_butlast [of ?s] by (metis diff_less length_greater_0_conv less_irrefl zero_less_one)
  then have "\<not> (?s \<noteq> [] \<and> last ?s = 46)" using assms(1) by (auto simp: TrimSuffixDot_def)
  then have "?s = d" using assms(1) unfolding TrimSuffixDot_def by (meson if_not_P)
  then show False using dot \<open>\<not> (?s \<noteq> [] \<and> last ?s = 46)\<close> assms(2) by simp
qed

text \<open>Allowed domains that do not nest below \<open>nd\<close>, so that no label of a frame can extend the match.\<close>

definition ownDomain :: "gostring \<Rightarrow> gostring list \<Rightarrow> bool" where
  "ownDomain nd ds \<longleftrightarrow> nd \<in> set ds \<and> (\<forall>d \<in> set ds. hd d \<noteq> 46 \<and> (dotSuffix nd d \<longrightarrow> d = nd))"

lemma match_tunnel_name:
  assumes m: "m = newMatcher domains k" and own: "ownDomain nd (allowedDomains m)"
    and nd: "TrimSuffixDot (TrimSpace nd) = nd" "nd \<noteq> []" "map asciiLower nd = nd"
    and enc: "enc \<noteq> []" "set enc \<subseteq> set lowerBase36Alphabet" "minLabelLength m \<le> int (length enc)"
    and lp: "lHasQuestion lp" "qName (lFirstQuestion lp) = map asciiLower (dotJoin (labelChunks enc @ nameLabels nd))"
      "qType (lFirstQuestion lp) = DNS_RECORD_TYPE_TXT"
  shows "dAction (Match m lp) = ActionProcess \<and> dLabels (Match m lp) = enc \<and> dBaseDomain (Match m lp) = nd"
proof -
  have alpha: "c \<noteq> 46" "asciiLower c = c" if "c \<in> set enc" for c
    using that enc(2) asciiLower_alphabet lowerBase36Alphabet_iff [of 46] by auto
  have ch: "labelChunks enc \<noteq> []" "concat (labelChunks enc) = enc" "\<And>l. l \<in> set (labelChunks enc) \<Longrightarrow> set l \<subseteq> set enc"
    using labelChunks_props [of enc] enc(1) by (auto simp del: concat_eq_Nil_conv)
  have nl: "nameLabels nd \<noteq> []" "dotJoin (nameLabels nd) = nd"
    using nd(1,2) dotJoin_nameLabels [of nd] by (auto simp: nameLabels_def)
  let ?j = "dotJoin (labelChunks enc)" and ?n = "dotJoin (labelChunks enc) @ 46 # nd"
  have low: "map asciiLower ?j = ?j"
  proof -
    have "map (map asciiLower) (labelChunks enc) = labelChunks enc"
      using ch(3) alpha(2) by (intro map_idI) (meson subsetD)
    then show ?thesis by (simp add: map_asciiLower_dotJoin)
  qed
  have n: "qName (lFirstQuestion lp) = ?n" using lp(2) nd(3) low by (simp add: dotJoin_append [OF ch(1) nl(1)] nl(2))
  have "?n ! (length ?n - 1) = last ?n" by (rule last_conv_nth [symmetric]) simp
  also have "\<dots> = last nd" using nd(2) by simp
  also have "\<dots> \<noteq> 46" by (rule trimmed_last [OF nd(1,2)])
  finally have norm: "normalizeParsedDomain ?n = ?n" unfolding normalizeParsedDomain_def by (simp only: simp_thms if_False)
  have clean: "\<forall>d \<in> set (allowedDomains m). cleanDomain d"
    using own normalizeDomains_set [of domains] unfolding m by (auto simp: ownDomain_def cleanDomain_def newMatcher_def Let_def)
  have r: "mRoot m = buildDomainTrie (allowedDomains m)" by (simp add: m newMatcher_def Let_def)
  have suf: "dotSuffix nd ?n" by (auto simp: dotSuffix_def)
  have "filter (\<lambda>c. c \<noteq> 46) ?j = enc"
    using filter_dots_concat [of "labelChunks enc"] ch alpha(1) by (metis subsetD)
  then have f: "findAllowedDomain ?n (mRoot m) = (nd, enc, True)"
    using findAllowedDomain_spec [OF clean, of ?n] own suf dotSuffix_chain [OF suf]
    unfolding r by (fastforce simp: ownDomain_def)
  show ?thesis
    by (rule Match_process [OF lp(1) _ _ _ f lp(3) enc(1,3)]) (use nd(2) in \<open>simp_all add: n norm append_eq_Cons_conv\<close>)
qed

end
