(* ===== verification/Fragment_Store.thy ===== *)
theory Fragment_Store
  imports Prelude
begin

text \<open>
  Reassembly of fragmented payloads (\<open>internal/fragmentstore/store.go\<close>). A store keeps partial entries
  per key and remembers completed keys for a retention time. The properties: fragments of one key
  arriving in any order, with duplicates and with traffic of other keys in between, give the payload
  exactly when the last missing one arrives; and a key is delivered at most once within the
  retention time.
\<close>

record fragEntry =
  createdAt :: instant
  entryTotal :: u8
  chunks :: "bytes option list"
  fcount :: u8

record 'k fragStore =
  items :: "('k, fragEntry) gomap"
  completed :: "('k, instant) gomap"
  lastPurge :: instant

text \<open>The capacity only sizes the maps.\<close>

definition fragNew :: "'k fragStore" where
  "fragNew = \<lparr>items = [], completed = [], lastPurge = 0\<rparr>"

definition fragPurgeLocked :: "instant \<Rightarrow> duration \<Rightarrow> 'k fragStore \<Rightarrow> 'k fragStore" where
  "fragPurgeLocked now retention s =
     (if retention \<le> 0 then s\<lparr>items := [], completed := []\<rparr>
      else
        let deadline = now - retention
        in s\<lparr>items := filter (\<lambda>(k, current). deadline < createdAt current) (items s),
             completed := filter (\<lambda>(k, expiresAt). now < expiresAt) (completed s)\<rparr>)"

definition fragMaybePurge :: "instant \<Rightarrow> duration \<Rightarrow> 'k fragStore \<Rightarrow> 'k fragStore" where
  "fragMaybePurge now retention s =
     (if second \<le> timeSub now (lastPurge s) then (fragPurgeLocked now retention s)\<lparr>lastPurge := now\<rparr> else s)"

definition isCompleted :: "'k \<Rightarrow> instant \<Rightarrow> 'k fragStore \<Rightarrow> bool" where
  "isCompleted key now s = (case mget (completed s) key of None \<Rightarrow> False | Some expiresAt \<Rightarrow> now < expiresAt)"

text \<open>
  \<open>append(chunk[:0], payload...)\<close>: appending nothing to a nil chunk leaves it nil.
\<close>

definition appendChunk :: "bytes option \<Rightarrow> bytes \<Rightarrow> bytes option" where
  "appendChunk chunk payload = (if chunk = None \<and> payload = [] then None else Some payload)"

definition storeChunk :: "u8 \<Rightarrow> bytes \<Rightarrow> fragEntry \<Rightarrow> fragEntry" where
  "storeChunk fragmentID payload current =
     (let i = unat fragmentID; chunk = chunks current ! i
      in current\<lparr>fcount := (if chunk = None then fcount current + 1 else fcount current),
                chunks := (chunks current)[i := appendChunk chunk payload]\<rparr>)"

definition currentEntry :: "'k \<Rightarrow> u8 \<Rightarrow> instant \<Rightarrow> 'k fragStore \<Rightarrow> fragEntry" where
  "currentEntry key totalFragments now s =
     (let fresh = \<lparr>createdAt = now, entryTotal = totalFragments, chunks = replicate 256 None, fcount = 0\<rparr>
      in case mget (items s) key of
           None \<Rightarrow> fresh
         | Some current \<Rightarrow> if entryTotal current \<noteq> totalFragments then fresh else current)"

text \<open>The result: the payload, whether it is complete, and whether the key was completed before.\<close>

definition fragCollect ::
  "'k \<Rightarrow> bytes \<Rightarrow> u8 \<Rightarrow> u8 \<Rightarrow> instant \<Rightarrow> duration \<Rightarrow> 'k fragStore \<Rightarrow> (bytes \<times> bool \<times> bool) \<times> 'k fragStore" where
  "fragCollect key payload fragmentID totalFragments now retention s =
     (if totalFragments \<le> 1 then
        (if retention \<le> 0 then ((payload, True, False), s)
         else
           let s = fragMaybePurge now retention s in
           if isCompleted key now s then (([], False, True), s)
           else ((payload, True, False),
                 s\<lparr>items := mdel (items s) key, completed := mput (completed s) key (now + retention)\<rparr>))
      else if totalFragments \<le> fragmentID then (([], False, False), s)
      else
        let s = fragMaybePurge now retention s in
        if isCompleted key now s then (([], False, True), s)
        else
          let current = currentEntry key totalFragments now s;
              current = storeChunk fragmentID payload current;
              s = s\<lparr>items := mput (items s) key current\<rparr>;
              parts = map (\<lambda>i. chunks current ! i) [0..<unat totalFragments]
          in
          if fcount current < totalFragments then (([], False, False), s)
          else if None \<in> set parts then (([], False, False), s)
          else ((concat (map the parts), True, False),
                s\<lparr>items := mdel (items s) key,
                  completed := (if 0 < retention then mput (completed s) key (now + retention)
                                else mdel (completed s) key)\<rparr>))"

definition fragPurge :: "instant \<Rightarrow> duration \<Rightarrow> 'k fragStore \<Rightarrow> 'k fragStore" where
  "fragPurge now retention s = fragPurgeLocked now retention s"

definition fragRemove :: "'k \<Rightarrow> 'k fragStore \<Rightarrow> 'k fragStore" where
  "fragRemove key s = s\<lparr>items := mdel (items s) key, completed := mdel (completed s) key\<rparr>"

definition fragRemoveIf :: "('k \<Rightarrow> bool) \<Rightarrow> 'k fragStore \<Rightarrow> 'k fragStore" where
  "fragRemoveIf match s =
     s\<lparr>items := filter (\<lambda>(k, _). \<not> match k) (items s), completed := filter (\<lambda>(k, _). \<not> match k) (completed s)\<rparr>"

section \<open>Invariant\<close>

text \<open>
  The maps are well formed; an entry has 256 slots, and when no fragment is empty its counter is the
  number of filled slots.
\<close>

definition entry_ok :: "fragEntry \<Rightarrow> bool" where
  "entry_ok e \<longleftrightarrow> length (chunks e) = 256"

definition store_ok :: "'k fragStore \<Rightarrow> bool" where
  "store_ok s \<longleftrightarrow> gomap_wf (items s) \<and> gomap_wf (completed s) \<and> (\<forall>(k, e) \<in> set (items s). entry_ok e)"

lemma gomap_wf_in_set: "gomap_wf m \<Longrightarrow> (k, v) \<in> set m \<longleftrightarrow> mget m k = Some v"
  by (simp add: gomap_wf_def)

lemma store_ok_entry: "store_ok s \<Longrightarrow> mget (items s) k = Some e \<Longrightarrow> entry_ok e"
  by (auto simp: store_ok_def dest: map_of_SomeD)

lemma entry_ok_storeChunk [simp]: "entry_ok e \<Longrightarrow> entry_ok (storeChunk i p e)"
  by (simp add: entry_ok_def storeChunk_def Let_def)

lemma store_ok_new [simp]: "store_ok fragNew"
  by (simp add: store_ok_def fragNew_def)

lemma store_ok_purge [simp]: "store_ok s \<Longrightarrow> store_ok (fragPurgeLocked now r s)"
  by (auto simp: store_ok_def fragPurgeLocked_def Let_def)

lemma store_ok_maybePurge [simp]: "store_ok s \<Longrightarrow> store_ok (fragMaybePurge now r s)"
  using store_ok_purge [of s now r] by (auto simp: fragMaybePurge_def store_ok_def)

lemma set_mdel_subset: "set (mdel m k) \<subseteq> set m"
  by (simp add: AList.delete_eq)

lemma store_ok_put:
  assumes "store_ok s" and "entry_ok e"
  shows "store_ok (s\<lparr>items := mput (items s) k e\<rparr>)"
proof -
  have wf: "gomap_wf (mput (items s) k e)"
    using assms by (simp add: store_ok_def)
  have "entry_ok e'" if "(k', e') \<in> set (mput (items s) k e)" for k' e'
  proof -
    from that wf have "mget (mput (items s) k e) k' = Some e'"
      by (simp only: gomap_wf_in_set)
    then show ?thesis
      using assms store_ok_entry [of s k' e'] by (auto split: if_splits)
  qed
  with assms wf show ?thesis
    by (auto simp: store_ok_def)
qed

lemma store_ok_complete:
  "store_ok s \<Longrightarrow> gomap_wf c \<Longrightarrow> store_ok (s\<lparr>items := mdel (items s) k, completed := c\<rparr>)"
  using set_mdel_subset [of k "items s"] by (auto simp: store_ok_def)

lemma store_ok_remove [simp]: "store_ok s \<Longrightarrow> store_ok (fragRemove k s)"
  unfolding fragRemove_def by (rule store_ok_complete) (simp_all add: store_ok_def)

lemma store_ok_removeIf [simp]: "store_ok s \<Longrightarrow> store_ok (fragRemoveIf f s)"
  by (auto simp: store_ok_def fragRemoveIf_def)

lemma entry_ok_current [simp]: "store_ok s \<Longrightarrow> entry_ok (currentEntry k n now s)"
  using store_ok_entry [of s k] by (auto simp: currentEntry_def entry_ok_def Let_def split: option.split)

lemma fragCollect_single:
  assumes "n \<le> 1"
  shows "fragCollect k p i n now r s =
    (if r \<le> 0 then ((p, True, False), s)
     else
       let s = fragMaybePurge now r s in
       if isCompleted k now s then (([], False, True), s)
       else ((p, True, False),
             s\<lparr>items := mdel (items s) k, completed := mput (completed s) k (now + r)\<rparr>))"
  using assms unfolding fragCollect_def by (simp only: if_True)

lemma fragCollect_several:
  assumes "\<not> n \<le> 1" and "\<not> n \<le> i"
  shows "fragCollect k p i n now r s =
    (let s = fragMaybePurge now r s; e = storeChunk i p (currentEntry k n now s);
         s' = s\<lparr>items := mput (items s) k e\<rparr>; parts = map (\<lambda>i. chunks e ! i) [0..<unat n] in
     if isCompleted k now s then (([], False, True), s)
     else if fcount e < n \<or> None \<in> set parts then (([], False, False), s')
     else ((concat (map the parts), True, False),
           s'\<lparr>items := mdel (items s') k,
             completed := (if 0 < r then mput (completed s') k (now + r) else mdel (completed s') k)\<rparr>))"
  using assms unfolding fragCollect_def currentEntry_def Let_def by (simp only: if_False if_cancel split: if_split) simp

lemma store_ok_collect: "store_ok s \<Longrightarrow> store_ok (snd (fragCollect k p i n now r s))"
proof -
  assume ok: "store_ok s"
  let ?s = "fragMaybePurge now r s"
  have ok': "store_ok ?s"
    using ok by simp
  note put = store_ok_put [OF ok' entry_ok_storeChunk [OF entry_ok_current [OF ok', of k n now]], of k i p]
  have wf: "gomap_wf (completed ?s)"
    using ok' by (simp add: store_ok_def)
  show ?thesis
  proof (cases "n \<le> 1")
    case True
    then show ?thesis
      using ok ok' store_ok_complete [OF ok', of "mput (completed ?s) k (now + r)" k] wf
      by (simp add: fragCollect_single Let_def)
  next
    case several: False
    show ?thesis
    proof (cases "n \<le> i")
      case True
      with several ok show ?thesis
        by (simp add: fragCollect_def)
    next
      case False
      show ?thesis
        unfolding fragCollect_several [OF several False] Let_def
        using ok' put store_ok_complete [OF put, of "mput (completed ?s) k (now + r)" k]
          store_ok_complete [OF put, of "mdel (completed ?s) k" k] wf
        by (auto split: if_splits)
    qed
  qed
qed

section \<open>Frame\<close>

text \<open>What one key sees of the store; a call for another key changes it at most by a purge.\<close>

definition keyView :: "'k \<Rightarrow> 'k fragStore \<Rightarrow> fragEntry option \<times> instant option" where
  "keyView k s = (mget (items s) k, mget (completed s) k)"

lemma keyView_maybePurge:
  assumes "store_ok s" and "0 < r"
  shows "keyView k (fragMaybePurge now r s) =
    (if second \<le> timeSub now (lastPurge s)
     then (case mget (items s) k of None \<Rightarrow> None | Some e \<Rightarrow> if now - r < createdAt e then Some e else None,
           case mget (completed s) k of None \<Rightarrow> None | Some x \<Rightarrow> if now < x then Some x else None)
     else keyView k s)"
  using assms
  by (simp add: keyView_def fragMaybePurge_def fragPurgeLocked_def Let_def mget_filter_key store_ok_def
      split: option.split)

lemma keyView_other:
  assumes "k' \<noteq> k"
  shows "keyView k (snd (fragCollect k' p i n now r s)) \<in> {keyView k s, keyView k (fragMaybePurge now r s)}"
  using assms by (auto simp: fragCollect_def keyView_def Let_def)

section \<open>Reassembly\<close>

text \<open>
  The specification: a set of received fragment numbers. A call reports the payload when the set
  becomes complete, nothing before, and a duplicate afterwards.
\<close>

definition expectedResult :: "bytes list \<Rightarrow> nat set \<Rightarrow> nat \<Rightarrow> bytes \<times> bool \<times> bool" where
  "expectedResult ds seen i =
     (if {..<length ds} \<subseteq> seen then ([], False, True)
      else if {..<length ds} \<subseteq> insert i seen then (concat ds, True, False)
      else ([], False, False))"

fun expectedResults :: "bytes list \<Rightarrow> nat set \<Rightarrow> nat list \<Rightarrow> (bytes \<times> bool \<times> bool) list" where
  "expectedResults ds seen [] = []"
| "expectedResults ds seen (i # is) = expectedResult ds seen i # expectedResults ds (insert i seen) is"

text \<open>A call: the key, the payload, the fragment number, the number of fragments and the time.\<close>

type_synonym 'k fragCall = "'k \<times> bytes \<times> u8 \<times> u8 \<times> instant"

fun collectAll :: "duration \<Rightarrow> 'k fragCall list \<Rightarrow> 'k fragStore \<Rightarrow> ('k \<times> bytes \<times> bool \<times> bool) list" where
  "collectAll r [] s = []"
| "collectAll r ((k, p, i, n, now) # calls) s =
     (let (res, s') = fragCollect k p i n now r s in (k, res) # collectAll r calls s')"

text \<open>The simulation relation: the store tracks a set of received fragments of a key.\<close>

definition entryTracks :: "bytes list \<Rightarrow> instant \<Rightarrow> nat set \<Rightarrow> fragEntry \<Rightarrow> bool" where
  "entryTracks ds t0 seen e \<longleftrightarrow>
     t0 \<le> createdAt e \<and> entryTotal e = of_nat (length ds) \<and> length (chunks e) = 256 \<and>
     fcount e = of_nat (card seen) \<and>
     (\<forall>i < length ds. chunks e ! i = (if i \<in> seen then Some (ds ! i) else None))"

definition viewTracks :: "bytes list \<Rightarrow> instant \<Rightarrow> duration \<Rightarrow> nat set \<Rightarrow> fragEntry option \<times> instant option \<Rightarrow> bool" where
  "viewTracks ds t0 r seen v \<longleftrightarrow>
     seen \<subseteq> {..<length ds} \<and>
     (if seen = {..<length ds} then (\<exists>x. snd v = Some x \<and> t0 + r \<le> x)
      else (\<forall>x. snd v = Some x \<longrightarrow> x \<le> t0) \<and>
           (if seen = {} then fst v = None else (\<exists>e. fst v = Some e \<and> entryTracks ds t0 seen e)))"

lemma viewTracks_purge:
  assumes "viewTracks ds t0 r seen (keyView k s)" and "store_ok s" and "0 < r" and "t0 \<le> now" and "now < t0 + r"
  shows "viewTracks ds t0 r seen (keyView k (fragMaybePurge now r s))"
  using assms(1,4,5) unfolding keyView_maybePurge [OF assms(2,3)]
  by (auto simp: keyView_def viewTracks_def entryTracks_def split: option.splits if_splits)

definition fragments_ok :: "bytes list \<Rightarrow> bool" where
  "fragments_ok ds \<longleftrightarrow> length ds = 1 \<or> 1 < length ds \<and> length ds < 256 \<and> [] \<notin> set ds"

lemma viewTracks_completed:
  assumes "viewTracks ds t0 r seen (keyView k s)" and "t0 \<le> now" and "now < t0 + r"
  shows "isCompleted k now s \<longleftrightarrow> seen = {..<length ds}"
  using assms by (auto simp: viewTracks_def isCompleted_def keyView_def split: option.splits if_splits)

lemma entryTracks_step:
  assumes v: "viewTracks ds t0 r seen (keyView k s)" and ok: "fragments_ok ds" and "1 < length ds"
    and i: "i < length ds" and "t0 \<le> now" and ne: "seen \<noteq> {..<length ds}"
  shows "entryTracks ds t0 (insert i seen)
           (storeChunk (of_nat i) (ds ! i) (currentEntry k (of_nat (length ds)) now s))"
proof -
  let ?e = "currentEntry k (of_nat (length ds)) now s"
  have n: "length ds < 256" and ne_i: "ds ! i \<noteq> []"
    using ok assms(3) nth_mem [OF i] by (auto simp: fragments_ok_def)
  have sub: "seen \<subseteq> {..<length ds}" and fin: "finite seen"
    using v finite_subset [of seen "{..<length ds}"] by (auto simp: viewTracks_def)
  have e: "entryTracks ds t0 seen ?e"
    using v ne n assms(5) by (auto simp: viewTracks_def keyView_def currentEntry_def entryTracks_def Let_def split: if_splits)
  have ui: "unat (of_nat i :: u8) = i"
    using i n by (simp add: unat_of_nat_u8)
  show ?thesis
    using e i n ne_i fin
    by (auto simp: entryTracks_def storeChunk_def Let_def ui appendChunk_def nth_list_update insert_absorb)
qed

lemma entryTracks_missing:
  assumes "entryTracks ds t0 seen e" and "seen \<subseteq> {..<length ds}" and "length ds < 256"
  shows "fcount e < of_nat (length ds) \<longleftrightarrow> seen \<noteq> {..<length ds}"
    and "map (\<lambda>i. chunks e ! i) [0..<length ds] = map (\<lambda>i. if i \<in> seen then Some (ds ! i) else None) [0..<length ds]"
proof -
  have fin: "finite seen"
    using assms(2) by (rule finite_subset) simp
  have c: "card seen \<le> length ds"
    using card_mono [OF _ assms(2)] by simp
  have "fcount e < of_nat (length ds) \<longleftrightarrow> card seen < length ds"
    using assms(1,3) c by (simp add: entryTracks_def word_less_nat_alt unat_of_nat_u8)
  also have "\<dots> \<longleftrightarrow> seen \<noteq> {..<length ds}"
    using psubset_card_mono [of "{..<length ds}" seen] assms(2) by auto
  finally show "fcount e < of_nat (length ds) \<longleftrightarrow> seen \<noteq> {..<length ds}" .
  show "map (\<lambda>i. chunks e ! i) [0..<length ds] = map (\<lambda>i. if i \<in> seen then Some (ds ! i) else None) [0..<length ds]"
    using assms(1) by (auto simp: entryTracks_def)
qed

lemma collect_tracks:
  assumes v: "viewTracks ds t0 r seen (keyView k s)" and s: "store_ok s" and r: "0 < r"
    and ok: "fragments_ok ds" and i: "i < length ds" and t: "t0 \<le> now" "now < t0 + r"
  shows "fst (fragCollect k (ds ! i) (of_nat i) (of_nat (length ds)) now r s) = expectedResult ds seen i \<and>
         viewTracks ds t0 r (insert i seen)
           (keyView k (snd (fragCollect k (ds ! i) (of_nat i) (of_nat (length ds)) now r s)))"
proof -
  let ?s = "fragMaybePurge now r s" and ?n = "length ds"
  have v': "viewTracks ds t0 r seen (keyView k ?s)"
    using v s r t by (rule viewTracks_purge)
  have sub: "seen \<subseteq> {..<?n}" and sub': "insert i seen \<subseteq> {..<?n}"
    using v i by (auto simp: viewTracks_def)
  have done_iff: "isCompleted k now ?s \<longleftrightarrow> seen = {..<?n}"
    using v' t by (rule viewTracks_completed)
  have full: "{..<?n} \<subseteq> x \<longleftrightarrow> x = {..<?n}" if "x \<subseteq> {..<?n}" for x
    using that by auto
  show ?thesis
  proof (cases "?n = 1")
    case True
    then have "ds = [ds ! 0]" and "i = 0" and "{..<?n} = {0}"
      using i by (cases ds; auto)+
    then have "concat ds = ds ! i"
      by (metis concat.simps append_Nil2)
    then show ?thesis
      using v' t sub done_iff True \<open>i = 0\<close> \<open>{..<?n} = {0}\<close> r
      by (auto simp: fragCollect_single Let_def expectedResult_def full viewTracks_def keyView_def insert_absorb)
  next
    case False
    then have n: "1 < ?n" "?n < 256"
      using ok by (auto simp: fragments_ok_def)
    have un: "unat (of_nat ?n :: u8) = ?n"
      using n by (simp add: unat_of_nat_u8)
    have g: "\<not> (of_nat ?n :: u8) \<le> 1" "\<not> (of_nat ?n :: u8) \<le> of_nat i"
      using n i by (simp_all add: word_le_nat_alt unat_of_nat_u8)
    show ?thesis
    proof (cases "seen = {..<?n}")
      case True
      then show ?thesis
        using v' done_iff i by (simp add: fragCollect_several [OF g] Let_def expectedResult_def insert_absorb)
    next
      case ne: False
      let ?e = "storeChunk (of_nat i) (ds ! i) (currentEntry k (of_nat ?n) now ?s)"
      have e: "entryTracks ds t0 (insert i seen) ?e"
        using v' ok n(1) i t(1) ne by (rule entryTracks_step)
      note m = entryTracks_missing [OF e sub' n(2)]
      have x: "\<forall>x. snd (keyView k ?s) = Some x \<longrightarrow> x \<le> t0"
        using v' ne by (auto simp: viewTracks_def)
      show ?thesis
      proof (cases "insert i seen = {..<?n}")
        case True
        have p: "map (\<lambda>i. chunks ?e ! i) [0..<?n] = map Some ds"
          unfolding m(2) True by (rule nth_equalityI) simp_all
        show ?thesis
          using done_iff ne True r t m(1) full [OF sub] full [OF sub']
          by (auto simp: fragCollect_several [OF g] Let_def un p expectedResult_def viewTracks_def keyView_def)
      next
        case False
        show ?thesis
          using done_iff ne False x e m(1) sub' full [OF sub] full [OF sub']
          by (auto simp: fragCollect_several [OF g] Let_def expectedResult_def viewTracks_def keyView_def)
      qed
    qed
  qed
qed

lemma collectAll_tracks:
  assumes "fragments_ok ds" and "0 < r" and "store_ok s" and "viewTracks ds t0 r seen (keyView k s)"
    and "\<forall>(k', p, i, n, now) \<in> set calls. t0 \<le> now \<and> now < t0 + r \<and>
           (k' = k \<longrightarrow> n = of_nat (length ds) \<and> unat i < length ds \<and> p = ds ! unat i)"
  shows "map snd (filter (\<lambda>(k', _). k' = k) (collectAll r calls s)) =
         expectedResults ds seen (map (\<lambda>(_, _, i, _). unat i) (filter (\<lambda>(k', _). k' = k) calls))"
  using assms(3-)
proof (induction calls arbitrary: s seen)
  case Nil
  then show ?case
    by simp
next
  case (Cons call calls)
  obtain k' p i n now where call: "call = (k', p, i, n, now)"
    by (cases call)
  let ?s = "snd (fragCollect k' p i n now r s)"
  have t: "t0 \<le> now" "now < t0 + r"
    using Cons.prems(3) by (auto simp: call)
  have s: "store_ok ?s"
    using Cons.prems(1) by (rule store_ok_collect)
  show ?case
  proof (cases "k' = k")
    case True
    then have eqs: "n = of_nat (length ds)" "unat i < length ds" "p = ds ! unat i" "i = of_nat (unat i)"
      using Cons.prems(3) by (simp_all add: call)
    have "fst (fragCollect k' p i n now r s) = expectedResult ds seen (unat i)"
      and "viewTracks ds t0 r (insert (unat i) seen) (keyView k ?s)"
      using collect_tracks [OF Cons.prems(2,1) assms(2,1) eqs(2) t] True eqs by simp_all
    with Cons.IH [OF s, of "insert (unat i) seen"] Cons.prems(3) True show ?thesis
      by (simp add: call split_beta)
  next
    case False
    have "viewTracks ds t0 r seen (keyView k ?s)"
      using keyView_other [OF False, of p i n now r s] Cons.prems(2)
        viewTracks_purge [OF Cons.prems(2,1) assms(2) t] by auto
    with Cons.IH [OF s, of seen] Cons.prems(3) False show ?thesis
      by (simp add: call split_beta)
  qed
qed

text \<open>
  C13. Reassembly. Let the calls for a key, within one retention time, carry the fragments of one
  payload in any order and with repetitions, mixed with any calls for other keys. Then their results
  are those of the specification: nothing while a fragment is missing, the concatenated payload on
  the call that completes the set, and a duplicate report on every later call. Fragments of a
  payload in several parts are non-empty, as the senders produce them.
\<close>

theorem fragments_reassembled:
  assumes "fragments_ok ds" and "0 < r" and "store_ok s" and "mget (items s) k = None"
    and "\<forall>x. mget (completed s) k = Some x \<longrightarrow> x \<le> t0"
    and "\<forall>(k', p, i, n, now) \<in> set calls. t0 \<le> now \<and> now < t0 + r \<and>
           (k' = k \<longrightarrow> n = of_nat (length ds) \<and> unat i < length ds \<and> p = ds ! unat i)"
  shows "map snd (filter (\<lambda>(k', _). k' = k) (collectAll r calls s)) =
         expectedResults ds {} (map (\<lambda>(_, _, i, _). unat i) (filter (\<lambda>(k', _). k' = k) calls))"
proof (rule collectAll_tracks [OF assms(1,2,3) _ assms(6)])
  have "{} \<noteq> {..<length ds}"
    using assms(1) by (auto simp: fragments_ok_def lessThan_empty_iff)
  then show "viewTracks ds t0 r {} (keyView k s)"
    using assms(4,5) by (simp add: viewTracks_def keyView_def)
qed

theorem fragments_reassembled_witness:
  "map snd (filter (\<lambda>(k', _). k' = 1) (collectAll second
      [(1 :: nat, [3, 4], 1, 2, 10), (2, [9], 0, 1, 11), (1, [3, 4], 1, 2, 12), (1, [1, 2], 0, 2, 12), (1, [1, 2], 0, 2, 13)] fragNew)) =
   [([], False, False), ([], False, False), ([1, 2, 3, 4], True, False), ([], False, True)]"
proof -
  have c: "{..<Suc (Suc 0)} = {0, Suc 0}"
    by auto
  show ?thesis
    using fragments_reassembled [of "[[1, 2], [3, 4]]" second fragNew 1 10
      "[(1 :: nat, [3, 4], 1, 2, 10), (2, [9], 0, 1, 11), (1, [3, 4], 1, 2, 12), (1, [1, 2], 0, 2, 12), (1, [1, 2], 0, 2, 13)]"]
    by (simp add: fragments_ok_def expectedResult_def fragNew_def c store_ok_new [unfolded fragNew_def])
qed

lemma fragCollect_ready:
  assumes "fst (fragCollect k p i n now r s) = (x, True, d)" and "0 < r"
  shows "mget (completed (snd (fragCollect k p i n now r s))) k = Some (now + r)"
  using assms by (auto simp: fragCollect_def Let_def split: if_splits)

lemma fragCollect_after_completion:
  assumes "store_ok s" and "0 < r" and "now < e" and "mget (completed s) k = Some e"
  shows "mget (completed (snd (fragCollect k' p i n now r s))) k = Some e"
    and "\<not> fst (snd (fst (fragCollect k p i n now r s)))"
proof -
  have k: "mget (completed (fragMaybePurge now r s)) k = Some e"
    using keyView_maybePurge [OF assms(1,2), of k now] assms(3,4) by (auto simp: keyView_def split: if_splits)
  then have c: "isCompleted k now (fragMaybePurge now r s)"
    using assms(3) by (simp add: isCompleted_def)
  show "\<not> fst (snd (fst (fragCollect k p i n now r s)))"
    using c assms(2) by (simp add: fragCollect_def Let_def)
  show "mget (completed (snd (fragCollect k' p i n now r s))) k = Some e"
    using k c assms(2,4) keyView_other [of k' k p i n now r s]
    by (cases "k' = k") (auto simp: fragCollect_def Let_def keyView_def)
qed

lemma no_delivery_after_completion:
  assumes "0 < r" and "store_ok s" and "mget (completed s) k = Some e" and "t0 + r \<le> e"
    and "\<forall>(k', p, i, n, now) \<in> set calls. t0 \<le> now \<and> now < t0 + r"
  shows "filter (\<lambda>(k', _, ready, _). k' = k \<and> ready) (collectAll r calls s) = []"
  using assms(2,3,5)
proof (induction calls arbitrary: s)
  case (Cons call calls)
  obtain k' p i n now where call: "call = (k', p, i, n, now)"
    by (cases call)
  have t: "now < e"
    using Cons.prems(3) assms(4) by (simp add: call)
  note step = fragCollect_after_completion [OF Cons.prems(1) assms(1) t Cons.prems(2)]
  show ?case
    using Cons.IH [OF store_ok_collect [OF Cons.prems(1)] step(1)] step(2) Cons.prems(3)
    by (auto simp: call split_beta)
qed simp

text \<open>
  C5. At most one delivery. Whatever fragments arrive, with any numbers, totals and payloads and for
  any keys, within one retention time a key is reported complete at most once.
\<close>

theorem delivered_at_most_once:
  assumes "0 < r" and "store_ok s"
    and "\<forall>(k', p, i, n, now) \<in> set calls. t0 \<le> now \<and> now < t0 + r"
  shows "length (filter (\<lambda>(k', _, ready, _). k' = k \<and> ready) (collectAll r calls s)) \<le> 1"
  using assms(2,3)
proof (induction calls arbitrary: s)
  case (Cons call calls)
  obtain k' p i n now where call: "call = (k', p, i, n, now)"
    by (cases call)
  obtain x ready d where res: "fst (fragCollect k' p i n now r s) = (x, ready, d)"
    by (cases "fst (fragCollect k' p i n now r s)")
  have ok: "store_ok (snd (fragCollect k' p i n now r s))"
    using Cons.prems(1) by (rule store_ok_collect)
  show ?case
  proof (cases "k' = k \<and> ready")
    case True
    have "filter (\<lambda>(k', _, ready, _). k' = k \<and> ready) (collectAll r calls (snd (fragCollect k' p i n now r s))) = []"
    proof (rule no_delivery_after_completion [OF assms(1) ok])
      show "mget (completed (snd (fragCollect k' p i n now r s))) k = Some (now + r)"
        using True res fragCollect_ready [of k' p i n now r s x d] assms(1) by simp
      show "t0 + r \<le> now + r" and "\<forall>(k', p, i, n, now) \<in> set calls. t0 \<le> now \<and> now < t0 + r"
        using Cons.prems(2) by (auto simp: call)
    qed
    with True res show ?thesis
      by (simp add: call case_prod_unfold)
  next
    case False
    with Cons.IH [OF ok] Cons.prems(2) res show ?thesis
      by (auto simp: call split_beta)
  qed
qed simp

theorem delivered_at_most_once_witness:
  "length (filter (\<lambda>(k', _, ready, _). k' = 1 \<and> ready)
     (collectAll second [(1 :: nat, [3], 0, 1, 10), (1, [4], 0, 2, 11), (1, [5], 0, 1, 12)] fragNew)) \<le> 1"
  by (rule delivered_at_most_once [of second fragNew _ 10]) simp_all

end
