(* ===== verification/Inflight.thy ===== *)
theory Inflight
  imports Prelude
begin

text \<open>
  Coalescing of identical requests (\<open>internal/inflight/manager.go\<close>): the first caller for a key
  becomes the leader and resolves the entry, later callers wait for its value. Entries are shared
  through pointers that outlive their map slot, so the model keeps them in a store \<open>flEntries\<close>
  addressed by allocation order. Closing a closed channel panics, which is \<open>None\<close> here.
\<close>

record 't inflightEntry =
  flCreatedAt :: instant
  readyClosed :: bool
  entryValue :: 't
  hasValue :: bool

type_synonym entryRef = nat

record 't inflightManager =
  flTimeout :: duration
  cleanupWindow :: duration
  nextCleanupAt :: instant
  cloneValue :: "('t \<Rightarrow> 't) option"
  flItems :: "(gostring, entryRef) gomap"
  flEntries :: "'t inflightEntry list"

definition inflightNew :: "duration \<Rightarrow> duration \<Rightarrow> ('t \<Rightarrow> 't) option \<Rightarrow> 't inflightManager" where
  "inflightNew tmo fallback cl =
     (let tmo = (if tmo \<le> 0 then fallback else tmo);
          window = sgn tmo * (\<bar>tmo\<bar> div 4);
          window = (if window < second then second else window)
      in \<lparr>flTimeout = tmo, cleanupWindow = window, nextCleanupAt = 0, cloneValue = cl, flItems = [], flEntries = []\<rparr>)"

definition inflightClone :: "'t inflightManager \<Rightarrow> 't \<Rightarrow> 't" where
  "inflightClone m v = (case cloneValue m of None \<Rightarrow> v | Some f \<Rightarrow> f v)"

definition expiredEntry :: "instant \<Rightarrow> 't inflightManager \<Rightarrow> entryRef \<Rightarrow> bool" where
  "expiredEntry now m p \<longleftrightarrow> flTimeout m \<le> timeSub now (flCreatedAt (flEntries m ! p))"

definition inflightCleanup :: "instant \<Rightarrow> 't inflightManager \<Rightarrow> 't inflightManager" where
  "inflightCleanup now m =
     (if nextCleanupAt m = 0 \<or> nextCleanupAt m \<le> now
      then m\<lparr>flItems := filter (\<lambda>(k, p). \<not> expiredEntry now m p) (flItems m), nextCleanupAt := now + cleanupWindow m\<rparr>
      else m)"

definition Acquire :: "'t \<Rightarrow> gostring \<Rightarrow> instant \<Rightarrow> 't inflightManager \<Rightarrow> (entryRef option \<times> bool) \<times> 't inflightManager" where
  "Acquire zero key now m =
     (if key = [] then ((None, False), m)
      else
        let m = inflightCleanup now m;
            p = length (flEntries m);
            fresh = ((Some p, True),
              m\<lparr>flItems := mput (flItems m) key p,
                flEntries := flEntries m @ [\<lparr>flCreatedAt = now, readyClosed = False, entryValue = zero, hasValue = False\<rparr>]\<rparr>)
        in case mget (flItems m) key of
             None \<Rightarrow> fresh
           | Some q \<Rightarrow> if \<not> expiredEntry now m q then ((Some q, False), m) else fresh)"

definition Begin :: "'t \<Rightarrow> gostring \<Rightarrow> instant \<Rightarrow> 't inflightManager \<Rightarrow> bool \<times> 't inflightManager" where
  "Begin zero key now m = (let ((_, leader), m) = Acquire zero key now m in (leader, m))"

definition closeReady :: "entryRef \<Rightarrow> 't inflightManager \<Rightarrow> 't inflightManager option" where
  "closeReady p m =
     (if readyClosed (flEntries m ! p) then None
      else Some (m\<lparr>flEntries := (flEntries m)[p := (flEntries m ! p)\<lparr>readyClosed := True\<rparr>]\<rparr>))"

definition Resolve :: "gostring \<Rightarrow> 't \<Rightarrow> bool \<Rightarrow> 't inflightManager \<Rightarrow> 't inflightManager option" where
  "Resolve key v has m =
     (if key = [] then Some m
      else
        let e = mget (flItems m) key;
            m = m\<lparr>flItems := mdel (flItems m) key\<rparr>
        in case e of
             None \<Rightarrow> Some m
           | Some p \<Rightarrow>
               closeReady p
                 (if has then m\<lparr>flEntries := (flEntries m)[p := (flEntries m ! p)\<lparr>entryValue := inflightClone m v, hasValue := True\<rparr>]\<rparr>
                  else m))"

text \<open>
  The results a wait can return with at a moment: when the channel is closed and the timer has
  fired too, either case of the \<open>select\<close> may be taken; when neither holds, the call blocks.
\<close>

definition Wait :: "'t \<Rightarrow> entryRef option \<Rightarrow> duration \<Rightarrow> bool \<Rightarrow> 't inflightManager \<Rightarrow> ('t \<times> bool) list" where
  "Wait zero e tmo fired m =
     (case e of
        None \<Rightarrow> [(zero, False)]
      | Some p \<Rightarrow>
          let tmo = (if tmo \<le> 0 then flTimeout m else tmo) in
          if tmo \<le> 0 then [(zero, False)]
          else
            (if readyClosed (flEntries m ! p)
             then [(if hasValue (flEntries m ! p) then inflightClone m (entryValue (flEntries m ! p)) else zero, True)]
             else []) @
            (if fired then [(zero, False)] else []))"

section \<open>Invariant\<close>

text \<open>The map holds distinct live pointers to open flEntries.\<close>

definition inflight_ok :: "'t inflightManager \<Rightarrow> bool" where
  "inflight_ok m \<longleftrightarrow>
     gomap_wf (flItems m) \<and>
     (\<forall>k p. mget (flItems m) k = Some p \<longrightarrow> p < length (flEntries m) \<and> \<not> readyClosed (flEntries m ! p)) \<and>
     (\<forall>k k' p. mget (flItems m) k = Some p \<longrightarrow> mget (flItems m) k' = Some p \<longrightarrow> k = k')"

lemma inflightCleanup_get:
  assumes "inflight_ok m"
  shows "mget (flItems (inflightCleanup now m)) k =
    (if nextCleanupAt m = 0 \<or> nextCleanupAt m \<le> now
     then (case mget (flItems m) k of None \<Rightarrow> None | Some p \<Rightarrow> if expiredEntry now m p then None else Some p)
     else mget (flItems m) k)"
  using assms by (simp add: inflightCleanup_def inflight_ok_def mget_filter_key split: option.split)

lemma inflightCleanup_entries [simp]:
  "flEntries (inflightCleanup now m) = flEntries m" "flTimeout (inflightCleanup now m) = flTimeout m"
  "cloneValue (inflightCleanup now m) = cloneValue m"
  "expiredEntry t (inflightCleanup now m) = expiredEntry t m"
  by (auto simp: inflightCleanup_def expiredEntry_def fun_eq_iff)

lemma inflightCleanup_subset:
  "inflight_ok m \<Longrightarrow> mget (flItems (inflightCleanup now m)) k = Some p \<Longrightarrow> mget (flItems m) k = Some p"
  by (auto simp: inflightCleanup_get split: if_splits option.splits)

lemma inflight_ok_new [simp]: "inflight_ok (inflightNew tmo fb cl)"
  by (simp add: inflight_ok_def inflightNew_def Let_def)

lemma inflight_ok_cleanup [simp]:
  assumes "inflight_ok m"
  shows "inflight_ok (inflightCleanup now m)"
proof -
  have "gomap_wf (flItems (inflightCleanup now m))"
    using assms by (simp add: inflight_ok_def inflightCleanup_def)
  moreover have "p < length (flEntries m) \<and> \<not> readyClosed (flEntries m ! p)"
    and "mget (flItems (inflightCleanup now m)) k' = Some p \<Longrightarrow> k = k'"
    if "mget (flItems (inflightCleanup now m)) k = Some p" for k k' p
    using assms inflightCleanup_subset [OF assms, of now] that unfolding inflight_ok_def by blast+
  ultimately show ?thesis
    by (simp add: inflight_ok_def)
qed

lemma inflight_ok_acquire:
  assumes "inflight_ok m"
  shows "inflight_ok (snd (Acquire zero k now m))"
proof -
  have "inflight_ok (inflightCleanup now m)"
    using assms by simp
  then show ?thesis
    using assms unfolding inflight_ok_def Acquire_def Let_def
    by (auto simp: nth_append intro: less_SucI split: option.split if_splits)
qed

text \<open>Resolving an invariant manager never closes a channel twice, and keeps the invariant.\<close>

lemma inflight_ok_resolve:
  assumes "inflight_ok m"
  shows "\<exists>m'. Resolve k v h m = Some m' \<and> inflight_ok m'"
  using assms unfolding inflight_ok_def Resolve_def Let_def closeReady_def
  by (auto simp: nth_list_update split: option.split)

section \<open>Sequences of calls\<close>

datatype 't inflightOp = OpAcquire gostring instant | OpResolve gostring 't bool

text \<open>The managers a program can reach by calling the operations in any order.\<close>

inductive inflightReach :: "'t inflightManager \<Rightarrow> bool" where
  new: "inflightReach (inflightNew tmo fb cl)"
| acquire: "inflightReach m \<Longrightarrow> inflightReach (snd (Acquire zero k now m))"
| resolve: "inflightReach m \<Longrightarrow> Resolve k v h m = Some m' \<Longrightarrow> inflightReach m'"

lemma inflightReach_ok: "inflightReach m \<Longrightarrow> inflight_ok m"
proof (induction rule: inflightReach.induct)
  case (resolve m k v h m')
  then show ?case
    using inflight_ok_resolve [of m k v h] by simp
qed (simp_all add: inflight_ok_acquire)

text \<open>Runs a sequence of calls; \<open>None\<close> when one panics. The results are those of the acquisitions.\<close>

fun inflightRun ::
  "'t \<Rightarrow> 't inflightOp list \<Rightarrow> 't inflightManager \<Rightarrow> ((gostring \<times> entryRef option \<times> bool) list \<times> 't inflightManager) option" where
  "inflightRun zero [] m = Some ([], m)"
| "inflightRun zero (OpAcquire k now # ops) m =
     (let (res, m) = Acquire zero k now m
      in map_option (\<lambda>(rs, m). ((k, res) # rs, m)) (inflightRun zero ops m))"
| "inflightRun zero (OpResolve k v h # ops) m =
     (case Resolve k v h m of None \<Rightarrow> None | Some m \<Rightarrow> inflightRun zero ops m)"

text \<open>An entry that is current for its key stays so while it is neither expired nor resolved.\<close>

definition leads :: "gostring \<Rightarrow> entryRef \<Rightarrow> instant \<Rightarrow> 't inflightManager \<Rightarrow> bool" where
  "leads k p t m \<longleftrightarrow> inflight_ok m \<and> mget (flItems m) k = Some p \<and> flCreatedAt (flEntries m ! p) = t"

lemma acquire_leader:
  assumes "inflight_ok m" and "Acquire zero k t m = ((Some p, True), m')"
  shows "leads k p t m'" and "flTimeout m' = flTimeout m" and "cloneValue m' = cloneValue m"
  using inflight_ok_acquire [OF assms(1), of zero k t] assms(2)
  by (auto simp: leads_def Acquire_def Let_def split: if_splits option.splits)

lemma leads_acquire:
  assumes "leads k p t m" and "timeSub now t < flTimeout m"
  shows "leads k p t (snd (Acquire zero k' now m))"
    and "flTimeout (snd (Acquire zero k' now m)) = flTimeout m"
    and "k \<noteq> [] \<Longrightarrow> fst (Acquire zero k now m) = (Some p, False)"
proof -
  have ok: "inflight_ok m" and p: "p < length (flEntries m)"
    using assms(1) by (auto simp: leads_def inflight_ok_def)
  have live: "\<not> expiredEntry now m p"
    using assms by (simp add: expiredEntry_def leads_def)
  have get: "mget (flItems (inflightCleanup now m)) k = Some p"
    using assms(1) live by (simp add: inflightCleanup_get [OF ok] leads_def)
  show "leads k p t (snd (Acquire zero k' now m))"
    using inflight_ok_acquire [OF ok, of zero k' now] assms(1) get live p
    by (auto simp: leads_def Acquire_def Let_def nth_append split: option.splits if_splits)
  show "flTimeout (snd (Acquire zero k' now m)) = flTimeout m"
    by (auto simp: Acquire_def Let_def split: option.split)
  show "fst (Acquire zero k now m) = (Some p, False)" if "k \<noteq> []"
    using that get live by (simp add: Acquire_def Let_def)
qed

lemma leads_resolve_other:
  assumes "leads k p t m" and "k' \<noteq> k" and "Resolve k' v h m = Some m'"
  shows "leads k p t m'" and "flTimeout m' = flTimeout m"
proof -
  have ok: "inflight_ok m'"
    using inflight_ok_resolve [of m k' v h] assms by (auto simp: leads_def)
  have "q \<noteq> p" if "mget (flItems m) k' = Some q" for q
    using assms(1,2) that by (auto simp: leads_def inflight_ok_def)
  then show "leads k p t m'" and "flTimeout m' = flTimeout m"
    using ok assms by (auto simp: leads_def Resolve_def Let_def closeReady_def split: if_splits option.splits)
qed

lemma leads_resolve_value:
  assumes "leads k p t m" and "k \<noteq> []"
  shows "\<exists>m'. Resolve k v True m = Some m' \<and> inflight_ok m' \<and> flTimeout m' = flTimeout m \<and> cloneValue m' = cloneValue m \<and>
              readyClosed (flEntries m' ! p) \<and> hasValue (flEntries m' ! p) \<and>
              entryValue (flEntries m' ! p) = inflightClone m v"
proof -
  have p: "p < length (flEntries m)" "mget (flItems m) k = Some p" "\<not> readyClosed (flEntries m ! p)" "inflight_ok m"
    using assms(1) by (auto simp: leads_def inflight_ok_def)
  obtain m' where m': "Resolve k v True m = Some m'" "inflight_ok m'"
    using inflight_ok_resolve [OF p(4)] by blast
  show ?thesis
    using m' p assms(2) by (auto simp: Resolve_def Let_def closeReady_def inflightClone_def)
qed

lemma acquire_config:
  "flTimeout (snd (Acquire zero k now m)) = flTimeout m" "cloneValue (snd (Acquire zero k now m)) = cloneValue m"
  by (auto simp: Acquire_def Let_def split: option.split)

lemma resolve_config:
  "Resolve k v h m = Some m' \<Longrightarrow> flTimeout m' = flTimeout m \<and> cloneValue m' = cloneValue m"
  by (auto simp: Resolve_def Let_def closeReady_def split: if_splits option.splits)

lemma leads_run:
  assumes "leads k p t m" and "k \<noteq> []"
    and "\<forall>k' now. OpAcquire k' now \<in> set ops \<longrightarrow> timeSub now t < flTimeout m"
    and "\<forall>v h. OpResolve k v h \<notin> set ops"
  shows "\<exists>rs m'. inflightRun zero ops m = Some (rs, m') \<and> leads k p t m' \<and>
           flTimeout m' = flTimeout m \<and> cloneValue m' = cloneValue m \<and>
           (\<forall>(k', res) \<in> set rs. k' = k \<longrightarrow> res = (Some p, False))"
  using assms
proof (induction ops arbitrary: m)
  case (Cons op ops)
  show ?case
  proof (cases op)
    case (OpAcquire k' now)
    let ?m = "snd (Acquire zero k' now m)"
    have t: "timeSub now t < flTimeout m"
      using Cons.prems(3) by (simp add: OpAcquire)
    have "\<exists>rs m'. inflightRun zero ops ?m = Some (rs, m') \<and> leads k p t m' \<and>
           flTimeout m' = flTimeout ?m \<and> cloneValue m' = cloneValue ?m \<and>
           (\<forall>(k', res) \<in> set rs. k' = k \<longrightarrow> res = (Some p, False))"
      using Cons.prems by (intro Cons.IH leads_acquire(1) [OF Cons.prems(1) t]) (simp_all add: acquire_config)
    then show ?thesis
      using leads_acquire(3) [OF Cons.prems(1) t Cons.prems(2), of zero]
      by (auto simp: OpAcquire acquire_config split_beta)
  next
    case (OpResolve k' v h)
    have ne: "k' \<noteq> k"
      using Cons.prems(4) by (auto simp: OpResolve)
    obtain m1 where m1: "Resolve k' v h m = Some m1"
      using inflight_ok_resolve [of m k' v h] Cons.prems(1) by (auto simp: leads_def)
    have "\<exists>rs m'. inflightRun zero ops m1 = Some (rs, m') \<and> leads k p t m' \<and>
           flTimeout m' = flTimeout m1 \<and> cloneValue m' = cloneValue m1 \<and>
           (\<forall>(k', res) \<in> set rs. k' = k \<longrightarrow> res = (Some p, False))"
      using Cons.prems resolve_config [OF m1]
      by (intro Cons.IH leads_resolve_other(1) [OF Cons.prems(1) ne m1]) simp_all
    then show ?thesis
      using resolve_config [OF m1] by (simp add: OpResolve m1)
  qed
qed simp

text \<open>
  C18. One leader, one value. Suppose a caller becomes the leader of a key in a manager reached by any
  calls. As long as the key is not resolved and the timeout has not passed, no call panics and every
  other caller for the key gets the leader's entry and not the leadership. When the leader then
  resolves the key, no channel is closed twice, and every waiter on the entry returns with the
  leader's value, cloned once when stored and once when handed out.
\<close>

theorem single_leader_shared_value:
  assumes "inflightReach m" and "Acquire zero k t m = ((Some p, True), m0)" and "0 < flTimeout m"
    and "\<forall>k' now. OpAcquire k' now \<in> set ops \<longrightarrow> timeSub now t < flTimeout m"
    and "\<forall>w h. OpResolve k w h \<notin> set ops"
  shows "\<exists>rs m1 m2. inflightRun zero ops m0 = Some (rs, m1) \<and>
           (\<forall>(k', res) \<in> set rs. k' = k \<longrightarrow> res = (Some p, False)) \<and>
           Resolve k v True m1 = Some m2 \<and>
           Wait zero (Some p) tmo False m2 = [(inflightClone m (inflightClone m v), True)]"
proof -
  note lead = acquire_leader [OF inflightReach_ok [OF assms(1)] assms(2)]
  have k: "k \<noteq> []"
    using assms(2) by (auto simp: Acquire_def)
  obtain rs m1 where run: "inflightRun zero ops m0 = Some (rs, m1)" "leads k p t m1"
      "flTimeout m1 = flTimeout m" "cloneValue m1 = cloneValue m" "\<forall>(k', res) \<in> set rs. k' = k \<longrightarrow> res = (Some p, False)"
    using leads_run [OF lead(1) k, of ops zero] assms(4,5) lead(2,3) by metis
  obtain m2 where m2: "Resolve k v True m1 = Some m2" "flTimeout m2 = flTimeout m1" "cloneValue m2 = cloneValue m1"
      "readyClosed (flEntries m2 ! p)" "hasValue (flEntries m2 ! p)" "entryValue (flEntries m2 ! p) = inflightClone m1 v"
    using leads_resolve_value [OF run(2) k, of v] by blast
  have "Wait zero (Some p) tmo False m2 = [(inflightClone m (inflightClone m v), True)]"
    using m2 run(3,4) assms(3) by (simp add: Wait_def Let_def inflightClone_def)
  with run m2 show ?thesis
    by blast
qed

theorem single_leader_shared_value_witness:
  "\<exists>rs m1 m2.
     inflightRun [] [OpAcquire [104] 9, OpResolve [105] [1] True, OpAcquire [104] 12]
       (snd (Acquire [] [104] 5 (inflightNew second second None))) = Some (rs, m1) \<and>
     (\<forall>(k', res) \<in> set rs. k' = [104] \<longrightarrow> res = (Some 0, False)) \<and>
     Resolve [104] [7 :: u8] True m1 = Some m2 \<and>
     Wait [] (Some 0) 3 False m2 = [(inflightClone (inflightNew second second None) (inflightClone (inflightNew second second None) [7]), True)]"
proof (rule single_leader_shared_value [where t = 5])
  show "inflightReach (inflightNew second second None)"
    by (rule inflightReach.new)
qed (auto simp: Acquire_def inflightNew_def inflightCleanup_def timeSub_def minDuration_def maxDuration_def)

end
