(* ===== verification/Net_Ip.thy ===== *)
theory Net_Ip
  imports Prelude
begin

text \<open>
  The textual IP addresses of Go's standard library, as far as the program uses them:
  \<open>net.ParseIP\<close> with the IPv4 and IPv6 grammars of \<open>net/netip\<close>, and \<open>net.IP.String\<close> with
  the shortest IPv6 form. The main lemma is that parsing inverts printing.
\<close>

definition isDecDigit :: "u8 \<Rightarrow> bool" where
  "isDecDigit c \<longleftrightarrow> 48 \<le> c \<and> c \<le> 57"

section \<open>IPv4\<close>

text \<open>
  The dotted decimal scanner: the finished fields, the value and the number of digits of the
  current one.
\<close>

fun parseIPv4Loop :: "bytes \<Rightarrow> nat \<Rightarrow> nat \<Rightarrow> gostring \<Rightarrow> bytes option" where
  "parseIPv4Loop fields v digLen [] =
     (if length fields < 3 then None else Some (fields @ [of_nat v]))"
| "parseIPv4Loop fields v digLen (c # s) =
     (if isDecDigit c then
        (if digLen = 1 \<and> v = 0 then None
         else
           let v = v * 10 + unat c - 48 in
           if 255 < v then None else parseIPv4Loop fields v (Suc digLen) s)
      else if c = 46 then
        (if digLen = 0 \<or> s = [] then None
         else if length fields = 3 then None
         else parseIPv4Loop (fields @ [of_nat v]) 0 0 s)
      else None)"

definition parseIPv4Fields :: "gostring \<Rightarrow> bytes option" where
  "parseIPv4Fields s = parseIPv4Loop [] 0 0 s"

definition decDigit :: "nat \<Rightarrow> u8" where
  "decDigit n = of_nat (48 + n)"

definition appendDecimal :: "u8 \<Rightarrow> gostring" where
  "appendDecimal x =
     (let n = unat x in
      (if 100 \<le> n then [decDigit (n div 100)] else []) @
      (if 10 \<le> n then [decDigit (n div 10 mod 10)] else []) @ [decDigit (n mod 10)])"

definition string4 :: "bytes \<Rightarrow> gostring" where
  "string4 ip = appendDecimal (ip ! 0) @ 46 # appendDecimal (ip ! 1) @ 46 # appendDecimal (ip ! 2) @ 46 # appendDecimal (ip ! 3)"

section \<open>IPv6\<close>

definition hexValue :: "u8 \<Rightarrow> nat option" where
  "hexValue c =
     (if isDecDigit c then Some (unat c - 48)
      else if 97 \<le> c \<and> c \<le> 102 then Some (unat c - 87)
      else if 65 \<le> c \<and> c \<le> 70 then Some (unat c - 55)
      else None)"

text \<open>The digits of one group: at most four. The result is the value, the digit count and the rest.\<close>

fun hexGroup :: "nat \<Rightarrow> nat \<Rightarrow> gostring \<Rightarrow> (nat \<times> nat \<times> gostring) option" where
  "hexGroup acc off [] = Some (acc, off, [])"
| "hexGroup acc off (c # s) =
     (case hexValue c of
        None \<Rightarrow> Some (acc, off, c # s)
      | Some d \<Rightarrow>
          let acc = acc * 16 + d in
          if 3 < off then None else if 65535 < acc then None else hexGroup acc (Suc off) s)"

lemma hexGroup_length: "hexGroup acc off s = Some (v, n, s') \<Longrightarrow> length s' + n = length s + off"
  by (induction acc off s rule: hexGroup.induct) (auto simp: Let_def split: option.splits if_splits)

text \<open>The end of the loop: the whole string is used and the ellipsis is expanded.\<close>

definition finishIPv6 :: "bytes \<Rightarrow> nat option \<Rightarrow> gostring \<Rightarrow> bytes option" where
  "finishIPv6 ip ellipsis s =
     (if s \<noteq> [] then None
      else if length ip < 16 then
        (case ellipsis of
           None \<Rightarrow> None
         | Some e \<Rightarrow> Some (take e ip @ replicate (16 - length ip) 0 @ drop e ip))
      else if ellipsis \<noteq> None then None
      else Some ip)"

function parseIPv6Loop :: "bytes \<Rightarrow> nat option \<Rightarrow> gostring \<Rightarrow> bytes option" where
  "parseIPv6Loop ip ellipsis s =
     (if 16 \<le> length ip then finishIPv6 ip ellipsis s
      else
        case hexGroup 0 0 s of
          None \<Rightarrow> None
        | Some (acc, off, rest) \<Rightarrow>
            if off = 0 then None
            else if rest \<noteq> [] \<and> hd rest = 46 then
              (if ellipsis = None \<and> length ip \<noteq> 12 then None
               else if 16 < length ip + 4 then None
               else
                 case parseIPv4Fields s of
                   None \<Rightarrow> None
                 | Some v4 \<Rightarrow> finishIPv6 (ip @ v4) ellipsis [])
            else
              let ip = ip @ [of_nat (acc div 256), of_nat acc] in
              if rest = [] then finishIPv6 ip ellipsis []
              else if hd rest \<noteq> 58 then None
              else if length rest = 1 then None
              else if rest ! 1 = 58 then
                (if ellipsis \<noteq> None then None
                 else if drop 2 rest = [] then finishIPv6 ip (Some (length ip)) []
                 else parseIPv6Loop ip (Some (length ip)) (drop 2 rest))
              else parseIPv6Loop ip ellipsis (drop 1 rest))"
  by pat_completeness auto
termination
  by (relation "measure (\<lambda>(ip, _, s). length s)") (auto dest!: hexGroup_length)

declare parseIPv6Loop.simps [simp del]

definition parseIPv6 :: "gostring \<Rightarrow> bytes option" where
  "parseIPv6 s =
     (if take 2 s = [58, 58] then
        (if drop 2 s = [] then Some (replicate 16 0) else parseIPv6Loop [] (Some 0) (drop 2 s))
      else parseIPv6Loop [] None s)"

text \<open>
  \<open>net.ParseIP\<close>: the first of \<open>.\<close>, \<open>:\<close> and \<open>%\<close> selects the grammar; an address with a zone is
  refused; an IPv4 address comes back in its 16 byte form.
\<close>

definition v4InV6Prefix :: bytes where
  "v4InV6Prefix = replicate 10 0 @ [255, 255]"

fun addrKind :: "gostring \<Rightarrow> u8 option" where
  "addrKind [] = None"
| "addrKind (c # s) = (if c \<in> {46, 58, 37} then Some c else addrKind s)"

definition ParseIP :: "gostring \<Rightarrow> bytes option" where
  "ParseIP s =
     (if addrKind s = Some 46 then map_option (\<lambda>v4. v4InV6Prefix @ v4) (parseIPv4Fields s)
      else if addrKind s = Some 58 \<and> 37 \<notin> set s then parseIPv6 s
      else None)"

definition To4 :: "bytes \<Rightarrow> bytes option" where
  "To4 ip =
     (if length ip = 4 then Some ip
      else if length ip = 16 \<and> take 12 ip = v4InV6Prefix then Some (drop 12 ip)
      else None)"

definition To16 :: "bytes \<Rightarrow> bytes option" where
  "To16 ip = (if length ip = 4 then Some (v4InV6Prefix @ ip) else if length ip = 16 then Some ip else None)"

definition IsLoopback :: "bytes \<Rightarrow> bool" where
  "IsLoopback ip =
     (case To4 ip of Some v4 \<Rightarrow> v4 ! 0 = 127 | None \<Rightarrow> ip = replicate 15 0 @ [1])"

definition hexDigit :: "nat \<Rightarrow> u8" where
  "hexDigit n = (if n < 10 then of_nat (48 + n) else of_nat (87 + n))"

definition appendHex :: "nat \<Rightarrow> gostring" where
  "appendHex x =
     (if 4096 \<le> x then [hexDigit (x div 4096)] else []) @
     (if 256 \<le> x then [hexDigit (x div 256 mod 16)] else []) @
     (if 16 \<le> x then [hexDigit (x div 16 mod 16)] else []) @ [hexDigit (x mod 16)]"

text \<open>The 16-bit groups, and the run of zero groups that starts at a position.\<close>

definition v6Group :: "bytes \<Rightarrow> nat \<Rightarrow> nat" where
  "v6Group ip i = unat (ip ! (2 * i)) * 256 + unat (ip ! (2 * i + 1))"

definition zeroRunEnd :: "nat list \<Rightarrow> nat \<Rightarrow> nat" where
  "zeroRunEnd gs i = i + length (takeWhile (\<lambda>g. g = 0) (drop i gs))"

text \<open>The first longest run of at least two zero groups; \<open>(255, 255)\<close> when there is none.\<close>

definition zeroRunStep :: "nat list \<Rightarrow> nat \<Rightarrow> nat \<times> nat \<Rightarrow> nat \<times> nat" where
  "zeroRunStep gs i z =
     (let j = zeroRunEnd gs i; l = j - i in if 2 \<le> l \<and> snd z - fst z < l then (i, j) else z)"

definition longestZeroRun :: "nat list \<Rightarrow> nat \<times> nat" where
  "longestZeroRun gs = fold (zeroRunStep gs) [0..<8] (255, 255)"

fun joinColon :: "nat list \<Rightarrow> gostring" where
  "joinColon [] = []"
| "joinColon [g] = appendHex g"
| "joinColon (g # gs) = appendHex g @ 58 # joinColon gs"

definition string6 :: "bytes \<Rightarrow> gostring" where
  "string6 ip =
     (let gs = map (v6Group ip) [0..<8]; (zeroStart, zeroEnd) = longestZeroRun gs in
      if zeroStart < 8 then joinColon (take zeroStart gs) @ [58, 58] @ joinColon (drop zeroEnd gs)
      else joinColon gs)"

text \<open>\<open>net.IP.String\<close> on an address of 4 or 16 bytes, the lengths the program builds.\<close>

definition IPString :: "bytes \<Rightarrow> gostring" where
  "IPString ip = (case To4 ip of Some v4 \<Rightarrow> string4 v4 | None \<Rightarrow> string6 ip)"

section \<open>Parsing inverts printing\<close>

lemma unat_decDigit: "d < 10 \<Longrightarrow> unat (decDigit d) = 48 + d"
  by (simp add: decDigit_def unat_of_nat_u8 del: of_nat_add)

lemma isDecDigit_decDigit: "d < 10 \<Longrightarrow> isDecDigit (decDigit d)"
  using unat_decDigit [of d] by (simp add: isDecDigit_def word_le_nat_alt)

lemmas decDigit_simps = unat_decDigit isDecDigit_decDigit

lemma div_digits:
  "(n :: nat) div 100 * 10 + n div 10 mod 10 = n div 10"
  "n div 4096 * 16 + n div 256 mod 16 = n div 256"
  "n div 256 * 16 + n div 16 mod 16 = n div 16"
proof -
  have "n div 100 = n div 10 div 10" "n div 4096 = n div 256 div 16" "n div 256 = n div 16 div 16"
    by (simp_all flip: div_mult2_eq)
  then show "n div 100 * 10 + n div 10 mod 10 = n div 10" "n div 4096 * 16 + n div 256 mod 16 = n div 256"
    "n div 256 * 16 + n div 16 mod 16 = n div 16"
    by (simp_all only: div_mult_mod_eq)
qed

lemma parseIPv4Loop_decimal:
  "\<exists>k. parseIPv4Loop fields 0 0 (appendDecimal x @ rest) = parseIPv4Loop fields (unat x) (Suc k) rest"
proof -
  let ?n = "unat x"
  have n: "?n < 256"
    by simp
  consider "?n < 10" | "10 \<le> ?n" "?n < 100" | "100 \<le> ?n"
    by linarith
  then show ?thesis
  proof cases
    case 1
    then show ?thesis
      by (auto simp: appendDecimal_def Let_def decDigit_simps)
  next
    case 2
    have d: "?n div 10 mod 10 = ?n div 10" "0 < ?n div 10" "?n div 10 < 10" "?n div 10 * 10 + ?n mod 10 = ?n"
      using 2 by auto
    then show ?thesis
      using 2 by (auto simp: appendDecimal_def Let_def decDigit_simps)
  next
    case 3
    have d: "0 < ?n div 100" "?n div 100 < 10" "?n div 10 mod 10 < 10" "?n mod 10 < 10"
      using 3 less_mult_imp_div_less [of ?n 10 100] order_less_trans [OF n, of 1000] by (simp_all add: div_greater_zero_iff)
    have m: "?n div 100 * 10 + ?n div 10 mod 10 = ?n div 10" "?n div 10 * 10 + ?n mod 10 = ?n"
      using div_digits(1) div_mult_mod_eq by metis+
    have e: "?n div 100 * 10 + (48 + ?n div 10 mod 10) - 48 = ?n div 10"
      "?n div 10 * 10 + (48 + ?n mod 10) - 48 = ?n" "\<not> 255 < ?n div 100" "\<not> 255 < ?n div 10" "\<not> 255 < ?n"
      using m n d by linarith+
    have a: "appendDecimal x @ rest = decDigit (?n div 100) # decDigit (?n div 10 mod 10) # decDigit (?n mod 10) # rest"
      using 3 by (simp add: appendDecimal_def Let_def)
    have "parseIPv4Loop fields 0 0 (appendDecimal x @ rest) = parseIPv4Loop fields ?n 3 rest"
      unfolding a using d e by (simp add: decDigit_simps numeral_3_eq_3)
    then show ?thesis
      by (metis numeral_3_eq_3)
  qed
qed

lemma parseIPv4Loop_dot:
  assumes "s \<noteq> []" and "length fields < 3"
  shows "parseIPv4Loop fields 0 0 (appendDecimal x @ 46 # s) = parseIPv4Loop (fields @ [x]) 0 0 s"
proof -
  obtain k where "parseIPv4Loop fields 0 0 (appendDecimal x @ 46 # s) = parseIPv4Loop fields (unat x) (Suc k) (46 # s)"
    using parseIPv4Loop_decimal by blast
  also have "\<dots> = parseIPv4Loop (fields @ [x]) 0 0 s"
    using assms by (simp add: isDecDigit_def)
  finally show ?thesis .
qed

lemma appendDecimal_not_Nil [simp]: "appendDecimal x \<noteq> []"
  by (simp add: appendDecimal_def Let_def)

lemma parse_string4: "length v4 = 4 \<Longrightarrow> parseIPv4Fields (string4 v4) = Some v4"
proof -
  assume "length v4 = 4"
  then obtain a b c d where v4: "v4 = [a, b, c, d]"
    by (auto simp: numeral_eq_Suc length_Suc_conv)
  have e: "\<exists>k. parseIPv4Loop [a, b, c] 0 0 (appendDecimal d) = parseIPv4Loop [a, b, c] (unat d) (Suc k) []"
    using parseIPv4Loop_decimal [of "[a, b, c]" d "[]"] by simp
  show ?thesis
    using e by (auto simp: parseIPv4Fields_def string4_def v4 parseIPv4Loop_dot)
qed

lemma hexValue_hexDigit: "d < 16 \<Longrightarrow> hexValue (hexDigit d) = Some d"
proof -
  assume "d < 16"
  then have u: "unat (hexDigit d) = (if d < 10 then 48 + d else 87 + d)"
    by (simp add: hexDigit_def unat_of_nat_u8 del: of_nat_add)
  then show ?thesis
    using \<open>d < 16\<close> by (auto simp: hexValue_def isDecDigit_def word_le_nat_alt)
qed

lemma hexGroup_appendHex:
  assumes "g < 65536" and "rest = [] \<or> hexValue (hd rest) = None"
  shows "\<exists>k. hexGroup 0 0 (appendHex g @ rest) = Some (g, Suc k, rest)"
proof -
  have stop: "hexGroup a n rest = Some (a, n, rest)" for a n
    using assms(2) by (cases rest) auto
  have step: "hexGroup a n (hexDigit d # s) = hexGroup (a * 16 + d) (Suc n) s"
    if "d < 16" "n \<le> 3" "a * 16 + d \<le> 65535" for a n d s
    using that by (simp add: hexValue_hexDigit)
  consider "g < 16" | "16 \<le> g" "g < 256" | "256 \<le> g" "g < 4096" | "4096 \<le> g"
    by linarith
  then show ?thesis
  proof cases
    case 1
    then show ?thesis
      by (simp add: appendHex_def step stop del: hexGroup.simps)
  next
    case 2
    then have "g div 16 < 16"
      by (simp add: less_mult_imp_div_less)
    with 2 show ?thesis
      by (simp add: appendHex_def step stop del: hexGroup.simps)
  next
    case 3
    then have "g div 256 < 16" "g div 16 \<le> 65535"
      by (simp_all add: less_mult_imp_div_less)
    with 3 show ?thesis
      by (simp add: appendHex_def step stop div_digits del: hexGroup.simps)
  next
    case 4
    have "g div 4096 < 16" "g div 16 \<le> 65535" "g div 256 \<le> 65535"
      using assms(1) by (auto simp: less_mult_imp_div_less div_le_dividend intro: order_trans [OF div_le_dividend])
    with 4 assms(1) show ?thesis
      by (simp add: appendHex_def step stop div_digits del: hexGroup.simps)
  qed
qed

definition v6Bytes :: "nat list \<Rightarrow> bytes" where
  "v6Bytes gs = concat (map (\<lambda>g. [of_nat (g div 256), of_nat g]) gs)"

lemma v6Bytes_simps [simp]:
  "v6Bytes [] = []" "v6Bytes (g # gs) = of_nat (g div 256) # of_nat g # v6Bytes gs"
  "v6Bytes (gs @ hs) = v6Bytes gs @ v6Bytes hs"
  by (simp_all add: v6Bytes_def)

lemma length_v6Bytes [simp]: "length (v6Bytes gs) = 2 * length gs"
  by (induction gs) simp_all

lemma v6Bytes_zeros [simp]: "v6Bytes (replicate n 0) = replicate (2 * n) 0"
  by (induction n) simp_all

lemma appendHex_not_Nil [simp]: "appendHex g \<noteq> []"
  by (simp add: appendHex_def)

lemma appendHex_digits:
  assumes "g < 65536" and "c \<in> set (appendHex g)"
  shows "\<exists>d < 16. c = hexDigit d"
proof -
  have "g div 4096 < 16"
    using assms(1) by (simp add: less_mult_imp_div_less)
  with assms(2) show ?thesis
    by (auto simp: appendHex_def split: if_splits intro: exI [of _ "g mod 16"] exI [of _ "g div 16 mod 16"] exI [of _ "g div 256 mod 16"])
qed

lemma hexValue_delimiter: "c \<in> {37, 46, 58} \<Longrightarrow> hexValue c = None"
  by (elim insertE) (simp_all add: hexValue_def isDecDigit_def)

lemma hexDigit_not_delimiter: "d < 16 \<Longrightarrow> hexDigit d \<notin> {37, 46, 58}"
proof
  assume d: "d < 16" and c: "hexDigit d \<in> {37, 46, 58}"
  from hexValue_hexDigit [OF d] have "None = Some d"
    unfolding hexValue_delimiter [OF c] .
  then show False
    by simp
qed

lemma appendHex_no_delimiter: "g < 65536 \<Longrightarrow> c \<in> {37, 46, 58} \<Longrightarrow> c \<notin> set (appendHex g)"
proof
  assume g: "g < 65536" and c: "c \<in> {37, 46, 58}" and "c \<in> set (appendHex g)"
  then obtain d where d: "d < 16" "c = hexDigit d"
    using appendHex_digits by blast
  show False
    using hexDigit_not_delimiter [OF d(1)] c unfolding d(2) by (rule notE)
qed

lemma joinColon_chars:
  "\<forall>g \<in> set gs. g < 65536 \<Longrightarrow> c \<in> {37, 46} \<Longrightarrow> c \<notin> set (joinColon gs)"
  by (induction gs rule: joinColon.induct) (auto simp: appendHex_no_delimiter)

lemma joinColon_hd:
  assumes "gs \<noteq> []" and "\<forall>g \<in> set gs. g < 65536"
  shows "joinColon gs \<noteq> []" and "hd (joinColon gs @ s) \<noteq> 58"
proof -
  obtain g hs where gs: "gs = g # hs"
    using assms(1) by (cases gs) auto
  obtain t where t: "joinColon gs = appendHex g @ t"
    by (cases hs) (auto simp: gs)
  have "58 \<notin> set (appendHex g)"
    using appendHex_no_delimiter [of g 58] assms(2) gs by simp
  then have "hd (appendHex g) \<noteq> 58"
    using hd_in_set [OF appendHex_not_Nil, of g] by metis
  then show "joinColon gs \<noteq> []" and "hd (joinColon gs @ s) \<noteq> 58"
    by (simp_all add: t)
qed

text \<open>One group followed by a colon, and the last group.\<close>

lemma parseIPv6Loop_group:
  assumes "g < 65536" and "length ip < 16" and "s \<noteq> []"
  shows "parseIPv6Loop ip e (appendHex g @ 58 # s) =
    (let ip = ip @ [of_nat (g div 256), of_nat g] in
     if hd s = 58 then
       (if e \<noteq> None then None
        else if tl s = [] then finishIPv6 ip (Some (length ip)) []
        else parseIPv6Loop ip (Some (length ip)) (tl s))
     else parseIPv6Loop ip e s)"
proof -
  have "hexValue 58 = None"
    by (simp add: hexValue_delimiter)
  then obtain k where "hexGroup 0 0 (appendHex g @ 58 # s) = Some (g, Suc k, 58 # s)"
    using hexGroup_appendHex [OF assms(1), of "58 # s"] by auto
  then show ?thesis
    using assms(2,3) by (subst parseIPv6Loop.simps) (cases s; simp add: Let_def)
qed

lemma parseIPv6Loop_last:
  assumes "g < 65536" and "length ip < 16"
  shows "parseIPv6Loop ip e (appendHex g) = finishIPv6 (ip @ [of_nat (g div 256), of_nat g]) e []"
proof -
  obtain k where "hexGroup 0 0 (appendHex g) = Some (g, Suc k, [])"
    using hexGroup_appendHex [OF assms(1), of "[]"] by auto
  then show ?thesis
    using assms(2) by (subst parseIPv6Loop.simps) (simp add: Let_def)
qed

lemma parseIPv6Loop_join:
  assumes "gs \<noteq> []" and "\<forall>g \<in> set gs. g < 65536" and "length ip + 2 * length gs \<le> 16"
  shows "parseIPv6Loop ip e (joinColon gs) = finishIPv6 (ip @ v6Bytes gs) e []"
  using assms
proof (induction gs arbitrary: ip rule: joinColon.induct)
  case (3 g h hs)
  have j: "joinColon (h # hs) \<noteq> []" "hd (joinColon (h # hs)) \<noteq> 58"
    using joinColon_hd(1) [of "h # hs"] joinColon_hd(2) [of "h # hs" "[]"] 3 by auto
  show ?case
    using 3 j by (simp add: parseIPv6Loop_group Let_def)
qed (simp_all add: parseIPv6Loop_last)

lemma parseIPv6Loop_ellipsis:
  assumes "gs \<noteq> []" and "\<forall>g \<in> set gs. g < 65536" and "length ip + 2 * length gs \<le> 16"
  shows "parseIPv6Loop ip None (joinColon gs @ 58 # 58 # s) =
    (let ip = ip @ v6Bytes gs in
     if s = [] then finishIPv6 ip (Some (length ip)) [] else parseIPv6Loop ip (Some (length ip)) s)"
  using assms
proof (induction gs arbitrary: ip rule: joinColon.induct)
  case (3 g h hs)
  let ?s = "joinColon (h # hs) @ 58 # 58 # s"
  have j: "?s \<noteq> []" "hd ?s \<noteq> 58"
    using joinColon_hd(2) [of "h # hs" "58 # 58 # s"] 3 by auto
  have "parseIPv6Loop ip None (joinColon (g # h # hs) @ 58 # 58 # s) =
      parseIPv6Loop (ip @ [of_nat (g div 256), of_nat g]) None ?s"
    using 3 j by (simp add: parseIPv6Loop_group)
  also have "\<dots> = (let ip = ip @ v6Bytes (g # h # hs) in
     if s = [] then finishIPv6 ip (Some (length ip)) [] else parseIPv6Loop ip (Some (length ip)) s)"
    using 3 by simp
  finally show ?case .
qed (simp_all add: parseIPv6Loop_group Let_def)

lemma longestZeroRun_spec:
  assumes "length gs = 8" and "longestZeroRun gs = (zs, ze)" and "zs < 8"
  shows "zs + 2 \<le> ze" and "ze \<le> 8" and "gs = take zs gs @ replicate (ze - zs) 0 @ drop ze gs"
proof -
  let ?inv = "\<lambda>p. p = (255, 255) \<or> fst p < 8 \<and> snd p = zeroRunEnd gs (fst p) \<and> fst p + 2 \<le> snd p"
  have step: "?inv p \<Longrightarrow> i < 8 \<Longrightarrow> ?inv (zeroRunStep gs i p)" for i p
    by (auto simp: zeroRunStep_def Let_def)
  have "?inv (fold (zeroRunStep gs) [0..<8] (255, 255))"
    by (rule fold_invariant [where Q = "\<lambda>i. i < 8" and P = ?inv]) (simp, simp, rule step)
  then have "?inv (zs, ze)"
    using assms(2) by (simp add: longestZeroRun_def)
  then have inv: "ze = zeroRunEnd gs zs" "zs + 2 \<le> ze"
    using assms(3) by simp_all
  show "zs + 2 \<le> ze"
    by (rule inv(2))
  let ?r = "takeWhile (\<lambda>g. g = 0) (drop zs gs)"
  have len: "length ?r = ze - zs"
    using inv by (simp add: zeroRunEnd_def)
  show le: "ze \<le> 8"
    using inv(1) length_takeWhile_le [of "\<lambda>g. g = 0" "drop zs gs"] assms(1,3) by (simp add: zeroRunEnd_def)
  have zero: "?r = replicate (ze - zs) 0"
    using len by (intro replicate_eqI) (auto dest: set_takeWhileD)
  have "drop zs gs = ?r @ drop (ze - zs) (drop zs gs)"
    unfolding len [symmetric] dropWhile_eq_drop [symmetric] by simp
  then have "drop zs gs = replicate (ze - zs) 0 @ drop ze gs"
    using inv(2) by (simp add: zero)
  then show "gs = take zs gs @ replicate (ze - zs) 0 @ drop ze gs"
    by (metis append_take_drop_id)
qed

lemma v6Group_lt: "v6Group ip i < 65536"
proof -
  have "unat (ip ! (2 * i)) \<le> 255" "unat (ip ! (2 * i + 1)) \<le> 255"
    by simp_all
  then show ?thesis
    unfolding v6Group_def by linarith
qed

lemma v6Bytes_groups:
  assumes "length ip = 16"
  shows "v6Bytes (map (v6Group ip) [0..<8]) = ip"
proof -
  have g: "of_nat (v6Group ip i div 256) = ip ! (2 * i)" "of_nat (v6Group ip i) = ip ! (2 * i + 1)" for i
  proof -
    have "v6Group ip i div 256 = unat (ip ! (2 * i))"
      by (simp add: v6Group_def)
    then show "of_nat (v6Group ip i div 256) = ip ! (2 * i)"
      by simp
    have "of_nat (v6Group ip i) = (of_nat (unat (ip ! (2 * i))) * 256 + of_nat (unat (ip ! (2 * i + 1))) :: u8)"
      unfolding v6Group_def by (simp only: of_nat_add of_nat_mult of_nat_numeral)
    moreover have "(256 :: u8) = 0"
      by simp
    ultimately show "of_nat (v6Group ip i) = ip ! (2 * i + 1)"
      by (simp only: mult_zero_right add_0_left of_nat_unat_u8)
  qed
  have "[0..<8] = [0, 1, 2, 3, 4, 5, 6, 7 :: nat]"
    by (simp add: upt_rec)
  moreover have "ip = map (\<lambda>i. ip ! i) [0..<16]"
    using assms by (metis map_nth)
  moreover have "[0..<16] = [0, 1, 2, 3, 4, 5, 6, 7, 8, 9, 10, 11, 12, 13, 14, 15]"
    by (simp add: upt_rec)
  ultimately show ?thesis
    by (simp add: g)
qed

lemma finishIPv6_expand:
  assumes "length (v6Bytes pre) + length (v6Bytes post) + 2 * n = 16" and "0 < n"
  shows "finishIPv6 (v6Bytes pre @ v6Bytes post) (Some (length (v6Bytes pre))) [] = Some (v6Bytes (pre @ replicate n 0 @ post))"
proof -
  have "16 - (2 * length pre + 2 * length post) = 2 * n"
    using assms(1) by simp
  then show ?thesis
    using assms by (simp add: finishIPv6_def)
qed

lemma parse_string6:
  assumes len: "length ip = 16"
  shows "parseIPv6 (string6 ip) = Some ip"
proof -
  let ?gs = "map (v6Group ip) [0..<8]"
  obtain zs ze where z: "longestZeroRun ?gs = (zs, ze)"
    by fastforce
  have lt: "\<forall>g \<in> set ?gs. g < 65536"
    by (auto simp: v6Group_lt)
  have ip: "v6Bytes ?gs = ip"
    using len by (rule v6Bytes_groups)
  show ?thesis
  proof (cases "zs < 8")
    case False
    have j: "joinColon ?gs \<noteq> []" "hd (joinColon ?gs) \<noteq> 58"
      using joinColon_hd [OF _ lt] joinColon_hd(2) [OF _ lt, of "[]"] by simp_all
    then have "parseIPv6 (joinColon ?gs) = parseIPv6Loop [] None (joinColon ?gs)"
      by (cases "joinColon ?gs") (auto simp: parseIPv6_def)
    also have "\<dots> = finishIPv6 (v6Bytes ?gs) None []"
      using parseIPv6Loop_join [of ?gs "[]" None] lt by simp
    finally show ?thesis
      using False z len by (simp add: string6_def Let_def ip finishIPv6_def)
  next
    case True
    let ?pre = "take zs ?gs" and ?post = "drop ze ?gs"
    note r = longestZeroRun_spec [OF _ z True]
    have s: "string6 ip = joinColon ?pre @ [58, 58] @ joinColon ?post"
      using True z by (simp add: string6_def Let_def)
    have lts: "\<forall>g \<in> set ?pre. g < 65536" "\<forall>g \<in> set ?post. g < 65536"
      using lt by (meson in_set_takeD in_set_dropD)+
    have lens: "length ?pre = zs" "length ?post = 8 - ze"
      using True by simp_all
    have fin: "finishIPv6 (v6Bytes ?pre @ v6Bytes ?post) (Some (length (v6Bytes ?pre))) [] = Some ip"
      using finishIPv6_expand [of ?pre ?post "ze - zs"] r lens True ip by simp
    have tail: "(if joinColon ?post = [] then finishIPv6 (v6Bytes ?pre) (Some (length (v6Bytes ?pre))) []
                 else parseIPv6Loop (v6Bytes ?pre) (Some (length (v6Bytes ?pre))) (joinColon ?post)) = Some ip"
    proof (cases "?post = []")
      case True
      then show ?thesis
        using fin by simp
    next
      case False
      then show ?thesis
        using joinColon_hd(1) [OF False lts(2)] parseIPv6Loop_join [OF False lts(2), of "v6Bytes ?pre"] fin lens r(1,2) \<open>zs < 8\<close>
        by simp
    qed
    show ?thesis
    proof (cases "?pre = []")
      case True
      then show ?thesis
        using tail by (auto simp: s parseIPv6_def finishIPv6_def split: if_splits)
    next
      case False
      have "take 2 (string6 ip) \<noteq> [58, 58]"
        using joinColon_hd [OF False lts(1)] by (cases "joinColon ?pre") (auto simp: s)
      then have "parseIPv6 (string6 ip) = parseIPv6Loop [] None (joinColon ?pre @ 58 # 58 # joinColon ?post)"
        by (simp add: parseIPv6_def s)
      also have "\<dots> = Some ip"
        using parseIPv6Loop_ellipsis [OF False lts(1), of "[]"] tail lens r True by simp
      finally show ?thesis .
    qed
  qed
qed

lemma addrKind_append: "set s \<inter> {46, 58, 37} = {} \<Longrightarrow> addrKind (s @ t) = addrKind t"
  by (induction s) auto

lemma appendDecimal_no_delimiter: "set (appendDecimal x) \<inter> {46, 58, 37} = {}"
proof -
  have n: "unat x div 100 < 10" "unat x div 10 mod 10 < 10" "unat x mod 10 < 10"
    using less_mult_imp_div_less [of "unat x" 10 100] order_less_trans [OF unat_u8_lt [of x], of 1000] by simp_all
  have "\<not> isDecDigit c" if "c \<in> {46, 58, 37}" for c
    using that by (elim insertE) (simp_all add: isDecDigit_def)
  moreover have "isDecDigit c" if "c \<in> set (appendDecimal x)" for c
    using that isDecDigit_decDigit [OF n(1)] isDecDigit_decDigit [OF n(2)] isDecDigit_decDigit [OF n(3)]
    unfolding appendDecimal_def Let_def by (cases "100 \<le> unat x"; cases "10 \<le> unat x") auto
  ultimately show ?thesis
    by blast
qed

lemma addrKind_string4: "addrKind (string4 v4) = Some 46"
  by (simp add: string4_def addrKind_append [OF appendDecimal_no_delimiter])

lemma appendHex_disjoint: "g < 65536 \<Longrightarrow> set (appendHex g) \<inter> {46, 58, 37} = {}"
  using appendHex_no_delimiter [of g] by auto

lemma addrKind_joinColon:
  assumes "\<forall>g \<in> set gs. g < 65536" and "2 \<le> length gs \<or> addrKind t = Some 58"
  shows "addrKind (joinColon gs @ t) = Some 58"
  using assms
proof (induction gs rule: joinColon.induct)
  case (3 g h hs)
  then show ?case
    by (simp add: addrKind_append appendHex_disjoint)
qed (simp_all add: addrKind_append appendHex_disjoint)

lemma string6_shape:
  shows "addrKind (string6 ip) = Some 58" and "37 \<notin> set (string6 ip)"
proof -
  let ?gs = "map (v6Group ip) [0..<8]"
  obtain zs ze where z: "longestZeroRun ?gs = (zs, ze)"
    by fastforce
  have lt: "\<forall>g \<in> set ?gs. g < 65536"
    by (auto simp: v6Group_lt)
  have lts: "\<forall>g \<in> set (take zs ?gs). g < 65536" "\<forall>g \<in> set (drop ze ?gs). g < 65536"
    using lt by (meson in_set_takeD in_set_dropD)+
  show "addrKind (string6 ip) = Some 58"
    using addrKind_joinColon [OF lts(1), of "58 # 58 # joinColon (drop ze ?gs)"] addrKind_joinColon [OF lt, of "[]"] z
    by (simp add: string6_def Let_def)
  show "37 \<notin> set (string6 ip)"
    using joinColon_chars [OF lts(1), of 37] joinColon_chars [OF lts(2), of 37] joinColon_chars [OF lt, of 37] z
    by (simp add: string6_def Let_def)
qed

lemma ParseIP_IPString:
  assumes "length ip = 4 \<or> length ip = 16"
  shows "ParseIP (IPString ip) = To16 ip"
proof (cases "To4 ip")
  case None
  then have "length ip = 16"
    using assms by (auto simp: To4_def)
  then show ?thesis
    using None by (simp add: IPString_def ParseIP_def string6_shape parse_string6 To16_def)
next
  case (Some v4)
  then have v4: "length v4 = 4"
    by (auto simp: To4_def split: if_splits)
  have "To16 ip = Some (v4InV6Prefix @ v4)"
    using Some append_take_drop_id [of 12 ip] by (auto simp: To4_def To16_def split: if_splits simp del: append_take_drop_id)
  note v4 = v4 this
  then show ?thesis
    using Some by (simp add: IPString_def ParseIP_def addrKind_string4 parse_string4)
qed

section \<open>Sizes\<close>

lemma parseIPv4Loop_length: "parseIPv4Loop fields v d s = Some r \<Longrightarrow> length fields \<le> 3 \<Longrightarrow> length r = 4"
  by (induction fields v d s rule: parseIPv4Loop.induct) (auto simp: Let_def split: if_splits)

lemma finishIPv6_length:
  "finishIPv6 ip e s = Some r \<Longrightarrow> length ip \<le> 16 \<Longrightarrow> length r = 16"
  by (auto simp: finishIPv6_def split: if_splits option.splits)

lemma parseIPv6Loop_length:
  "parseIPv6Loop ip e s = Some r \<Longrightarrow> length ip \<le> 16 \<Longrightarrow> even (length ip) \<Longrightarrow> length r = 16"
proof (induction ip e s rule: parseIPv6Loop.induct)
  case (1 ip e s)
  show ?case
  proof (cases "16 \<le> length ip")
    case True
    then show ?thesis
      using 1(3,4) by (subst (asm) parseIPv6Loop.simps) (simp add: finishIPv6_length)
  next
    case False
    then have le: "length ip + 2 \<le> 16"
      using 1(5) by presburger
    have f: "finishIPv6 (ip @ [a, b]) e' [] = Some r \<Longrightarrow> length r = 16" for a b e'
      using le by (rule_tac finishIPv6_length) auto
    have f4: "finishIPv6 (ip @ v4) e' [] = Some r \<Longrightarrow> parseIPv4Fields s = Some v4 \<Longrightarrow> \<not> 16 < length ip + 4 \<Longrightarrow> length r = 16" for v4 e'
      unfolding parseIPv4Fields_def by (rule finishIPv6_length) (auto dest: parseIPv4Loop_length)
    obtain acc off rest where h: "hexGroup 0 0 s = Some (acc, off, rest)"
      using 1(3) False by (subst (asm) parseIPv6Loop.simps) (auto split: option.splits)
    note IH = 1(1,2) [OF False h refl refl]
    note u = 1(3) [unfolded parseIPv6Loop.simps [of ip e s]]
    show ?thesis
      using u 1(5) False le h f f4 IH by (auto simp: Let_def split: if_splits option.splits)
  qed
qed

lemma length_ParseIP: "ParseIP s = Some ip \<Longrightarrow> length ip = 16"
proof -
  assume "ParseIP s = Some ip"
  then show ?thesis
    using parseIPv4Loop_length [of "[]" 0 0 s] parseIPv6Loop_length [of "[]" _ _ ip]
    by (auto simp: ParseIP_def parseIPv4Fields_def parseIPv6_def v4InV6Prefix_def split: if_splits)
qed

end
