(* ===== verification/Socks_Proto.thy ===== *)
theory Socks_Proto
  imports Net_Ip
begin

text \<open>
  SOCKS targets and UDP datagrams (\<open>internal/socksproto\<close>): the address block of a CONNECT request
  as it crosses the tunnel, and the SOCKS5 UDP header. The properties: parsing a target and building
  it again gives the same bytes, and a datagram built for a parsed target parses back; the exception,
  an IPv4-mapped IPv6 address, is proved to be replaced by the unspecified address.
\<close>

abbreviation (input) AddressTypeIPv4 :: u8 where "AddressTypeIPv4 \<equiv> 1"
abbreviation (input) AddressTypeDomain :: u8 where "AddressTypeDomain \<equiv> 3"
abbreviation (input) AddressTypeIPv6 :: u8 where "AddressTypeIPv6 \<equiv> 4"

datatype socksError =
    ErrTargetTooShort
  | ErrUnsupportedAddressType
  | ErrInvalidDomainLength
  | ErrUDPDatagramTooShort
  | ErrUDPFragmented

record target =
  AddressType :: u8
  Host :: gostring
  Port :: u16

record udpDatagram =
  udpTarget :: target
  udpPayload :: bytes

definition ParseTargetPayload :: "bytes \<Rightarrow> socksError + target" where
  "ParseTargetPayload payload =
     (if length payload < 3 then Inl ErrTargetTooShort
      else
        let finish = (\<lambda>host offset. Inr \<lparr>AddressType = payload ! 0, Host = host, Port = rd16 payload offset\<rparr>) in
        if payload ! 0 = AddressTypeIPv4 then
          (if length payload < 7 then Inl ErrTargetTooShort else finish (IPString (slice payload 1 5)) 5)
        else if payload ! 0 = AddressTypeDomain then
          (let domainLength = unat (payload ! 1) in
           if domainLength < 1 \<or> length payload < 2 + domainLength + 2 then Inl ErrInvalidDomainLength
           else finish (slice payload 2 (2 + domainLength)) (2 + domainLength))
        else if payload ! 0 = AddressTypeIPv6 then
          (if length payload < 19 then Inl ErrTargetTooShort else finish (IPString (slice payload 1 17)) 17)
        else Inl ErrUnsupportedAddressType)"

definition ParseIPv4 :: "gostring \<Rightarrow> bytes" where
  "ParseIPv4 host =
     (case ParseIP host of
        None \<Rightarrow> replicate 4 0
      | Some ip \<Rightarrow> (case To4 ip of Some ipv4 \<Rightarrow> ipv4 | None \<Rightarrow> replicate 4 0))"

text \<open>\<open>net.IPv6zero\<close> is 16 zero bytes.\<close>

definition ParseIPv6 :: "gostring \<Rightarrow> bytes" where
  "ParseIPv6 host =
     (case ParseIP host of
        None \<Rightarrow> replicate 16 0
      | Some ip \<Rightarrow>
          (case To4 ip of
             Some ipv4 \<Rightarrow> replicate 16 0
           | None \<Rightarrow> (case To16 ip of None \<Rightarrow> replicate 16 0 | Some ip \<Rightarrow> ip)))"

definition parseTargetWithOffset :: "bytes \<Rightarrow> socksError + target \<times> nat" where
  "parseTargetWithOffset payload =
     (case ParseTargetPayload payload of
        Inl e \<Rightarrow> Inl e
      | Inr t \<Rightarrow>
          if AddressType t = AddressTypeIPv4 then Inr (t, 1 + 4 + 2)
          else if AddressType t = AddressTypeIPv6 then Inr (t, 1 + 16 + 2)
          else if AddressType t = AddressTypeDomain then
            (if length payload < 2 then Inl ErrTargetTooShort else Inr (t, 1 + (1 + unat (payload ! 1) + 2)))
          else Inl ErrUnsupportedAddressType)"

definition ParseUDPDatagram :: "bytes \<Rightarrow> socksError + udpDatagram" where
  "ParseUDPDatagram packet =
     (if length packet < 4 then Inl ErrUDPDatagramTooShort
      else if packet ! 2 \<noteq> 0 then Inl ErrUDPFragmented
      else
        case parseTargetWithOffset (drop 3 packet) of
          Inl e \<Rightarrow> Inl e
        | Inr (t, offset) \<Rightarrow>
            let offset = offset + 3 in
            if length packet < offset then Inl ErrUDPDatagramTooShort
            else Inr \<lparr>udpTarget = t, udpPayload = drop offset packet\<rparr>)"

definition hostBlock :: "target \<Rightarrow> bytes" where
  "hostBlock t =
     (if AddressType t = AddressTypeIPv4 then ParseIPv4 (Host t)
      else if AddressType t = AddressTypeIPv6 then ParseIPv6 (Host t)
      else if AddressType t = AddressTypeDomain then of_nat (length (Host t)) # Host t
      else [])"

definition BuildUDPDatagram :: "target \<Rightarrow> bytes \<Rightarrow> bytes" where
  "BuildUDPDatagram t payload = [0, 0, 0, AddressType t] @ hostBlock t @ be16 (Port t) @ payload"

definition BuildTargetPayload :: "target \<Rightarrow> bytes" where
  "BuildTargetPayload t =
     (if AddressType t = AddressTypeIPv4 then AddressTypeIPv4 # ParseIPv4 (Host t) @ be16 (Port t)
      else if AddressType t = AddressTypeIPv6 then AddressTypeIPv6 # ParseIPv6 (Host t) @ be16 (Port t)
      else AddressTypeDomain # of_nat (length (Host t)) # Host t @ be16 (Port t))"

section \<open>Round trips\<close>

text \<open>The host block has the size that the code reserves for it.\<close>

lemma length_ParseIPv4: "length (ParseIPv4 host) = 4"
  by (auto simp: ParseIPv4_def To4_def length_ParseIP split: option.split)

lemma length_ParseIPv6: "length (ParseIPv6 host) = 16"
  by (auto simp: ParseIPv6_def To16_def dest: length_ParseIP split: option.split)

lemma ParseIPv4_IPString: "length a = 4 \<Longrightarrow> ParseIPv4 (IPString a) = a"
  using ParseIP_IPString [of a] by (simp add: ParseIPv4_def To16_def To4_def v4InV6Prefix_def)

lemma ParseIPv6_IPString:
  "length a = 16 \<Longrightarrow> take 12 a \<noteq> v4InV6Prefix \<Longrightarrow> ParseIPv6 (IPString a) = a"
  using ParseIP_IPString [of a] by (simp add: ParseIPv6_def To16_def To4_def)

lemma ParseIPv6_mapped:
  "length a = 4 \<Longrightarrow> ParseIPv6 (IPString (v4InV6Prefix @ a)) = replicate 16 0"
  using ParseIP_IPString [of "v4InV6Prefix @ a"] by (simp add: ParseIPv6_def To16_def To4_def v4InV6Prefix_def)

text \<open>The host block of a target on the wire, and the host it stands for.\<close>

definition hostForm :: "u8 \<Rightarrow> bytes \<Rightarrow> gostring \<Rightarrow> bool" where
  "hostForm t blk host \<longleftrightarrow>
     t = AddressTypeIPv4 \<and> length blk = 4 \<and> host = IPString blk \<or>
     t = AddressTypeIPv6 \<and> length blk = 16 \<and> host = IPString blk \<or>
     t = AddressTypeDomain \<and> 1 \<le> length host \<and> length host \<le> 255 \<and> blk = of_nat (length host) # host"

lemma be16_rd16: "i + 2 \<le> length xs \<Longrightarrow> be16 (rd16 xs i) = slice xs i (i + 2)"
  by (simp add: be16_def rd16_def slice_def drop_eq_Cons take_Suc_conv_app_nth numeral_2_eq_2 Suc_le_eq)

lemma split_at:
  assumes "i + j \<le> length xs" and "0 < i"
  shows "xs = hd xs # slice xs 1 i @ slice xs i (i + j) @ drop (i + j) xs"
proof -
  have "slice xs i (i + j) @ drop (i + j) xs = drop i xs"
    by (metis add.commute add_diff_cancel_right' append_take_drop_id drop_drop slice_def)
  moreover have "slice xs 1 i @ drop i xs = drop 1 xs"
    using assms(2) by (metis One_nat_def Suc_leI append_take_drop_id drop_drop le_add_diff_inverse2 slice_def)
  ultimately show ?thesis
    using assms by (cases xs) auto
qed

lemma ParseTargetPayload_bytes:
  assumes "ParseTargetPayload p = Inr t"
  shows "\<exists>blk rest. p = AddressType t # blk @ be16 (Port t) @ rest \<and> hostForm (AddressType t) blk (Host t)"
proof -
  have split: "\<exists>rest. p = p ! 0 # slice p 1 i @ be16 (rd16 p i) @ rest" if "i + 2 \<le> length p" "0 < i" for i
    using split_at [OF that] that by (metis be16_rd16 hd_conv_nth length_greater_0_conv add_gr_0 order_less_le_trans)
  consider "p ! 0 = 1" "7 \<le> length p" "t = \<lparr>AddressType = 1, Host = IPString (slice p 1 5), Port = rd16 p 5\<rparr>"
    | n where "p ! 0 = 3" "n = unat (p ! 1)" "1 \<le> n" "2 + n + 2 \<le> length p"
        "t = \<lparr>AddressType = 3, Host = slice p 2 (2 + n), Port = rd16 p (2 + n)\<rparr>"
    | "p ! 0 = 4" "19 \<le> length p" "t = \<lparr>AddressType = 4, Host = IPString (slice p 1 17), Port = rd16 p 17\<rparr>"
    using assms by (auto simp: ParseTargetPayload_def Let_def split: if_splits)
  then show ?thesis
  proof cases
    case 1
    obtain rest where "p = p ! 0 # slice p 1 5 @ be16 (rd16 p 5) @ rest"
      using split [of 5] 1 by auto
    then have "p = AddressType t # slice p 1 5 @ be16 (Port t) @ rest"
      unfolding 1(1,3) target.select_convs .
    moreover have "hostForm (AddressType t) (slice p 1 5) (Host t)"
      using 1 by (simp add: hostForm_def)
    ultimately show ?thesis
      by blast
  next
    case 2
    have n: "n \<le> 255"
      using 2(2) by simp
    have blk: "slice p 1 (2 + n) = p ! 1 # slice p 2 (2 + n)"
      using 2 by (simp add: slice_def drop_eq_Cons numeral_2_eq_2)
    have "p ! 1 = of_nat n"
      using 2(2) by simp
    note * = this
    obtain rest where "p = p ! 0 # slice p 1 (2 + n) @ be16 (rd16 p (2 + n)) @ rest"
      using split [of "2 + n"] 2 by auto
    then have "p = AddressType t # slice p 1 (2 + n) @ be16 (Port t) @ rest"
      unfolding 2(1,5) target.select_convs .
    moreover have "hostForm (AddressType t) (slice p 1 (2 + n)) (Host t)"
      using 2 * blk n by (simp add: hostForm_def)
    ultimately show ?thesis
      by blast
  next
    case 3
    obtain rest where "p = p ! 0 # slice p 1 17 @ be16 (rd16 p 17) @ rest"
      using split [of 17] 3 by auto
    then have "p = AddressType t # slice p 1 17 @ be16 (Port t) @ rest"
      unfolding 3(1,3) target.select_convs .
    moreover have "hostForm (AddressType t) (slice p 1 17) (Host t)"
      using 3 by (simp add: hostForm_def)
    ultimately show ?thesis
      by blast
  qed
qed

lemma ParseTargetPayload_block:
  assumes "hostForm ty blk host"
  shows "ParseTargetPayload (ty # blk @ be16 port @ rest) = Inr \<lparr>AddressType = ty, Host = host, Port = port\<rparr>"
    and "parseTargetWithOffset (ty # blk @ be16 port @ rest) = Inr (\<lparr>AddressType = ty, Host = host, Port = port\<rparr>, 3 + length blk)"
proof -
  have port: "rd16 (ty # blk @ be16 port @ rest) (Suc (length blk)) = port"
    by (simp add: wire_simps)
  have blk: "slice (ty # blk @ be16 port @ rest) 1 (Suc (length blk)) = blk"
    by (simp add: slice_def)
  show P: "ParseTargetPayload (ty # blk @ be16 port @ rest) = Inr \<lparr>AddressType = ty, Host = host, Port = port\<rparr>"
    using assms port blk by (auto simp: hostForm_def ParseTargetPayload_def Let_def unat_of_nat_u8 slice_def)
  show "parseTargetWithOffset (ty # blk @ be16 port @ rest) = Inr (\<lparr>AddressType = ty, Host = host, Port = port\<rparr>, 3 + length blk)"
    using assms by (auto simp: parseTargetWithOffset_def P hostForm_def unat_of_nat_u8)
qed

definition mappedBlock :: "u8 \<Rightarrow> bytes \<Rightarrow> bool" where
  "mappedBlock ty blk \<longleftrightarrow> ty = AddressTypeIPv6 \<and> take 12 blk = v4InV6Prefix"

lemma hostBlock_form:
  assumes "hostForm (AddressType t) blk (Host t)" and "\<not> mappedBlock (AddressType t) blk"
  shows "hostBlock t = blk" and "BuildTargetPayload t = AddressType t # blk @ be16 (Port t)"
  using assms
  by (auto simp: hostForm_def mappedBlock_def hostBlock_def BuildTargetPayload_def ParseIPv4_IPString ParseIPv6_IPString)

lemma ParseUDPDatagram_built:
  assumes "hostForm (AddressType t) (hostBlock t) (Host t)"
  shows "ParseUDPDatagram (BuildUDPDatagram t d) = Inr \<lparr>udpTarget = t, udpPayload = d\<rparr>"
proof -
  have "drop (6 + length (hostBlock t)) (0 # 0 # 0 # AddressType t # hostBlock t @ be16 (Port t) @ d) = d"
    by (simp add: eval_nat_numeral)
  then show ?thesis
    using ParseTargetPayload_block(2) [OF assms, of "Port t" d]
    by (simp add: ParseUDPDatagram_def BuildUDPDatagram_def Let_def)
qed

text \<open>
  C29. Targets keep their bytes. If a payload parses as a target, and it is not an IPv4-mapped IPv6
  address, then building the target again gives exactly the bytes that were read, and a UDP datagram
  built for the target parses back to the target and the data.
\<close>

theorem target_round_trip:
  assumes "ParseTargetPayload p = Inr t"
    and "\<not> (AddressType t = AddressTypeIPv6 \<and> take 12 (drop 1 p) = v4InV6Prefix)"
  shows "\<exists>n. parseTargetWithOffset p = Inr (t, n) \<and> n \<le> length p \<and> BuildTargetPayload t = take n p \<and>
           ParseUDPDatagram (BuildUDPDatagram t d) = Inr \<lparr>udpTarget = t, udpPayload = d\<rparr>"
proof -
  obtain blk rest where p: "p = AddressType t # blk @ be16 (Port t) @ rest" and h: "hostForm (AddressType t) blk (Host t)"
    using ParseTargetPayload_bytes [OF assms(1)] by blast
  have m: "\<not> mappedBlock (AddressType t) blk"
    using assms(2) h by (auto simp: p mappedBlock_def hostForm_def)
  note b = hostBlock_form [OF h m]
  have "parseTargetWithOffset p = Inr (t, 3 + length blk)"
    using ParseTargetPayload_block(2) [OF h, of "Port t" rest] by (simp add: p)
  moreover have "BuildTargetPayload t = take (3 + length blk) p"
    by (simp add: p b(2) take_Cons' be16_def)
  moreover have "ParseUDPDatagram (BuildUDPDatagram t d) = Inr \<lparr>udpTarget = t, udpPayload = d\<rparr>"
    using h by (intro ParseUDPDatagram_built) (simp add: b(1))
  ultimately show ?thesis
    by (intro exI [of _ "3 + length blk"]) (simp add: p)
qed

theorem target_round_trip_witness:
  "\<exists>n. parseTargetWithOffset [3, 2, 97, 98, 0, 80] = Inr (\<lparr>AddressType = 3, Host = [97, 98], Port = 80\<rparr>, n) \<and>
     n \<le> length [3, 2, 97, 98, 0, 80 :: u8] \<and>
     BuildTargetPayload \<lparr>AddressType = 3, Host = [97, 98], Port = 80\<rparr> = take n [3, 2, 97, 98, 0, 80] \<and>
     ParseUDPDatagram (BuildUDPDatagram \<lparr>AddressType = 3, Host = [97, 98], Port = 80\<rparr> [1, 2]) =
       Inr \<lparr>udpTarget = \<lparr>AddressType = 3, Host = [97, 98], Port = 80\<rparr>, udpPayload = [1, 2]\<rparr>"
proof (rule target_round_trip)
  show "ParseTargetPayload [3, 2, 97, 98, 0, 80] = Inr \<lparr>AddressType = 3, Host = [97, 98], Port = 80\<rparr>"
    using ParseTargetPayload_block(1) [of 3 "[2, 97, 98]" "[97, 98]" 80 "[]"]
    by (simp add: hostForm_def be16_def hi8_def lo8_def)
qed simp

text \<open>
  C35. A mapped address is lost. An IPv4-mapped IPv6 target parses to the dotted IPv4 text with the
  IPv6 address type; building it again writes the unspecified address \<open>::\<close> instead.
\<close>

theorem mapped_target_lost:
  assumes "length a = 4"
  shows "\<exists>t. ParseTargetPayload (AddressTypeIPv6 # v4InV6Prefix @ a @ be16 port) = Inr t \<and>
           Host t = string4 a \<and> BuildTargetPayload t = AddressTypeIPv6 # replicate 16 0 @ be16 port"
proof -
  have "hostForm AddressTypeIPv6 (v4InV6Prefix @ a) (IPString (v4InV6Prefix @ a))"
    using assms by (simp add: hostForm_def v4InV6Prefix_def)
  from ParseTargetPayload_block(1) [OF this, of port "[]"]
  have "ParseTargetPayload (AddressTypeIPv6 # v4InV6Prefix @ a @ be16 port) =
      Inr \<lparr>AddressType = AddressTypeIPv6, Host = IPString (v4InV6Prefix @ a), Port = port\<rparr>"
    by simp
  moreover have "IPString (v4InV6Prefix @ a) = string4 a"
    using assms by (simp add: IPString_def To4_def v4InV6Prefix_def)
  ultimately show ?thesis
    using ParseIPv6_mapped [OF assms] by (simp add: BuildTargetPayload_def)
qed

theorem mapped_target_lost_witness:
  "\<exists>t. ParseTargetPayload (AddressTypeIPv6 # v4InV6Prefix @ [1, 2, 3, 4] @ be16 53) = Inr t \<and>
     Host t = string4 [1, 2, 3, 4] \<and> BuildTargetPayload t = AddressTypeIPv6 # replicate 16 0 @ be16 53"
  by (rule mapped_target_lost) simp

end
