(* ===== verification/Socks_Rate_Limit.thy ===== *)
theory Socks_Rate_Limit
  imports Net_Ip
begin

text \<open>
  The limiter of failed SOCKS logins (\<open>internal/client/socks_ratelimit.go\<close>): per address the times
  of recent failures, the end of the current ban and the number of bans. Every operation takes the
  time it reads from the clock. The properties: ten failures within the window always lead to a ban of
  at least a minute, fewer never do, and for an address that fails alone the doubling of bans that the
  comments describe is undone by the purge, which forgets an address as soon as its ban is over.
\<close>

abbreviation (input) minute :: duration where "minute \<equiv> 60000000000"
abbreviation (input) socksRateLimitWindow :: duration where "socksRateLimitWindow \<equiv> 120000000000"
abbreviation (input) socksRateLimitMaxFailures :: nat where "socksRateLimitMaxFailures \<equiv> 10"
abbreviation (input) socksRateLimitBaseBan :: duration where "socksRateLimitBaseBan \<equiv> 60000000000"
abbreviation (input) socksRateLimitMaxBanDuration :: duration where "socksRateLimitMaxBanDuration \<equiv> 900000000000"
abbreviation (input) socksRateLimitBanDecayAfter :: duration where "socksRateLimitBanDecayAfter \<equiv> 600000000000"
abbreviation (input) socksRateLimitPurgeInterval :: duration where "socksRateLimitPurgeInterval \<equiv> 60000000000"

record socksAuthFailureRecord =
  timestamps :: "instant list"
  banUntil :: instant
  banCount :: nat

record socksRateLimiter =
  limiterRecords :: "(gostring, socksAuthFailureRecord) gomap"
  limiterLastPurge :: instant

definition newSocksRateLimiter :: "instant \<Rightarrow> socksRateLimiter" where
  "newSocksRateLimiter now = \<lparr>limiterRecords = [], limiterLastPurge = now\<rparr>"

definition isLoopbackIP :: "gostring \<Rightarrow> bool" where
  "isLoopbackIP ip = (case ParseIP ip of None \<Rightarrow> False | Some parsed \<Rightarrow> IsLoopback parsed)"

definition exemptIP :: "gostring \<Rightarrow> bool" where
  "exemptIP ip \<longleftrightarrow> ip = [] \<or> isLoopbackIP ip"

definition IsBlocked :: "gostring \<Rightarrow> instant \<Rightarrow> socksRateLimiter \<Rightarrow> bool" where
  "IsBlocked ip now r =
     (if exemptIP ip then False
      else
        case mget (limiterRecords r) ip of
          None \<Rightarrow> False
        | Some rec \<Rightarrow> if banUntil rec = 0 then False else now < banUntil rec)"

definition staleRecord :: "instant \<Rightarrow> socksAuthFailureRecord \<Rightarrow> bool" where
  "staleRecord now rec =
     (if banUntil rec \<noteq> 0 \<and> now < banUntil rec then False
      else
        let cutoff = now - socksRateLimitWindow;
            hasRecent = list_ex (\<lambda>ts. cutoff < ts) (timestamps rec)
        in \<not> hasRecent \<and> (banUntil rec = 0 \<or> banUntil rec < now))"

definition limiterPurgeLocked :: "instant \<Rightarrow> socksRateLimiter \<Rightarrow> socksRateLimiter" where
  "limiterPurgeLocked now r =
     r\<lparr>limiterRecords := filter (\<lambda>(ip, rec). \<not> staleRecord now rec) (limiterRecords r)\<rparr>"

text \<open>The doubling loop, by the number of rounds that remain.\<close>

fun banDurationLoop :: "nat \<Rightarrow> duration \<Rightarrow> duration" where
  "banDurationLoop 0 d = d"
| "banDurationLoop (Suc n) d =
     (let d = d * 2 in
      if socksRateLimitMaxBanDuration \<le> d then socksRateLimitMaxBanDuration else banDurationLoop n d)"

definition banDuration :: "nat \<Rightarrow> duration" where
  "banDuration count = banDurationLoop (count - 1) socksRateLimitBaseBan"

text \<open>What a failure does to the record of its address; the result tells whether it is banned.\<close>

definition noteFailure :: "instant \<Rightarrow> socksAuthFailureRecord \<Rightarrow> bool \<times> socksAuthFailureRecord" where
  "noteFailure now rec =
     (if banUntil rec \<noteq> 0 \<and> now < banUntil rec then (True, rec)
      else
        let rec = (if 0 < banCount rec \<and> banUntil rec \<noteq> 0 \<and> banUntil rec < now \<and>
                      socksRateLimitBanDecayAfter \<le> timeSub now (banUntil rec)
                   then rec\<lparr>banCount := 0\<rparr> else rec);
            cutoff = now - socksRateLimitWindow;
            rec = rec\<lparr>timestamps := filter (\<lambda>ts. cutoff < ts) (timestamps rec) @ [now]\<rparr>
        in
        if socksRateLimitMaxFailures \<le> length (timestamps rec) then
          (let rec = rec\<lparr>banCount := banCount rec + 1\<rparr>
           in (True, rec\<lparr>banUntil := now + banDuration (banCount rec), timestamps := []\<rparr>))
        else (False, rec))"

definition RecordFailure :: "gostring \<Rightarrow> instant \<Rightarrow> socksRateLimiter \<Rightarrow> bool \<times> socksRateLimiter" where
  "RecordFailure ip now r =
     (if exemptIP ip then (False, r)
      else
        let r = (if socksRateLimitPurgeInterval \<le> timeSub now (limiterLastPurge r)
                 then (limiterPurgeLocked now r)\<lparr>limiterLastPurge := now\<rparr> else r);
            rec = (case mget (limiterRecords r) ip of
                     None \<Rightarrow> \<lparr>timestamps = [], banUntil = 0, banCount = 0\<rparr>
                   | Some rec \<Rightarrow> rec);
            (banned, rec) = noteFailure now rec
        in (banned, r\<lparr>limiterRecords := mput (limiterRecords r) ip rec\<rparr>))"

definition RecordSuccess :: "gostring \<Rightarrow> socksRateLimiter \<Rightarrow> socksRateLimiter" where
  "RecordSuccess ip r =
     (if exemptIP ip then r else r\<lparr>limiterRecords := mdel (limiterRecords r) ip\<rparr>)"

definition limiterReset :: "instant \<Rightarrow> socksRateLimiter \<Rightarrow> socksRateLimiter" where
  "limiterReset now r = r\<lparr>limiterRecords := [], limiterLastPurge := now\<rparr>"

section \<open>Ban durations\<close>

text \<open>The documented series: 1, 2, 4 and 8 minutes, then 15.\<close>

lemma banDurationLoop_closed:
  "0 < d \<Longrightarrow> d \<le> socksRateLimitMaxBanDuration \<Longrightarrow> banDurationLoop n d = min socksRateLimitMaxBanDuration (2 ^ n * d)"
proof (induction n arbitrary: d)
  case (Suc n)
  have pow: "2 ^ Suc n * d = 2 ^ n * (d * 2)"
    by simp
  show ?case
  proof (cases "socksRateLimitMaxBanDuration \<le> d * 2")
    case True
    have "1 * (d * 2) \<le> 2 ^ n * (d * 2)"
      using Suc.prems by (intro mult_right_mono) simp_all
    with True have "socksRateLimitMaxBanDuration \<le> 2 ^ n * (d * 2)"
      by linarith
    with True show ?thesis
      unfolding pow banDurationLoop.simps Let_def by (simp only: if_True min_absorb1)
  next
    case False
    then have "banDurationLoop n (d * 2) = min socksRateLimitMaxBanDuration (2 ^ n * (d * 2))"
      using Suc by (intro Suc.IH) linarith+
    with False show ?thesis
      unfolding pow banDurationLoop.simps Let_def by (simp only: if_False)
  qed
qed simp

lemma banDuration_closed: "banDuration (Suc c) = min (15 * minute) (2 ^ c * minute)"
  using banDurationLoop_closed [of socksRateLimitBaseBan c] by (simp add: banDuration_def)

lemma banDuration_bounds: "minute \<le> banDuration (Suc c)" "banDuration (Suc c) \<le> 15 * minute"
proof -
  have "1 * minute \<le> 2 ^ c * minute"
    by (intro mult_right_mono) simp_all
  then show "minute \<le> banDuration (Suc c)" "banDuration (Suc c) \<le> 15 * minute"
    unfolding banDuration_closed by simp_all
qed

lemma banDuration_first: "banDuration (Suc 0) = minute"
  by (simp add: banDuration_def)

section \<open>One address\<close>

lemma limiterPurge_get:
  "gomap_wf (limiterRecords r) \<Longrightarrow>
   mget (limiterRecords (limiterPurgeLocked now r)) ip =
     (case mget (limiterRecords r) ip of None \<Rightarrow> None | Some rec \<Rightarrow> if staleRecord now rec then None else Some rec)"
  by (simp add: limiterPurgeLocked_def mget_filter_key split: option.split)

lemma limiterPurge_wf: "gomap_wf (limiterRecords r) \<Longrightarrow> gomap_wf (limiterRecords (limiterPurgeLocked now r))"
  by (simp add: limiterPurgeLocked_def)

definition purgeDue :: "instant \<Rightarrow> socksRateLimiter \<Rightarrow> bool" where
  "purgeDue now r \<longleftrightarrow> socksRateLimitPurgeInterval \<le> timeSub now (limiterLastPurge r)"

lemma purgeDue_iff: "purgeDue now r \<longleftrightarrow> limiterLastPurge r + minute \<le> now"
  unfolding purgeDue_def by (rule timeSub_ge_iff) (simp_all add: minDuration_def maxDuration_def)

text \<open>The record a failure finds after the purge, and what it leaves.\<close>

definition foundRecord :: "gostring \<Rightarrow> instant \<Rightarrow> socksRateLimiter \<Rightarrow> socksAuthFailureRecord" where
  "foundRecord ip now r =
     (case mget (limiterRecords r) ip of
        Some rec \<Rightarrow> if purgeDue now r \<and> staleRecord now rec then \<lparr>timestamps = [], banUntil = 0, banCount = 0\<rparr> else rec
      | None \<Rightarrow> \<lparr>timestamps = [], banUntil = 0, banCount = 0\<rparr>)"

lemma RecordFailure_found:
  assumes "\<not> exemptIP ip" and "gomap_wf (limiterRecords r)"
  shows "fst (RecordFailure ip now r) = fst (noteFailure now (foundRecord ip now r))"
    and "mget (limiterRecords (snd (RecordFailure ip now r))) ip = Some (snd (noteFailure now (foundRecord ip now r)))"
    and "limiterLastPurge (snd (RecordFailure ip now r)) = (if purgeDue now r then now else limiterLastPurge r)"
    and "gomap_wf (limiterRecords (snd (RecordFailure ip now r)))"
proof -
  define r1 where "r1 = (if purgeDue now r then (limiterPurgeLocked now r)\<lparr>limiterLastPurge := now\<rparr> else r)"
  have rec: "(case mget (limiterRecords r1) ip of
      None \<Rightarrow> \<lparr>timestamps = [], banUntil = 0, banCount = 0\<rparr> | Some rec \<Rightarrow> rec) = foundRecord ip now r"
    using limiterPurge_get [OF assms(2), of now ip] by (auto simp: r1_def foundRecord_def split: option.split)
  have wf: "gomap_wf (limiterRecords r1)"
    using assms(2) limiterPurge_wf by (simp add: r1_def)
  have R: "RecordFailure ip now r =
      (fst (noteFailure now (foundRecord ip now r)),
       r1\<lparr>limiterRecords := mput (limiterRecords r1) ip (snd (noteFailure now (foundRecord ip now r)))\<rparr>)"
    using assms(1) unfolding RecordFailure_def purgeDue_def [symmetric] r1_def [symmetric] Let_def rec
    by (simp add: split_beta)
  show "fst (RecordFailure ip now r) = fst (noteFailure now (foundRecord ip now r))"
    and "mget (limiterRecords (snd (RecordFailure ip now r))) ip = Some (snd (noteFailure now (foundRecord ip now r)))"
    and "gomap_wf (limiterRecords (snd (RecordFailure ip now r)))"
    using wf by (simp_all add: R)
  show "limiterLastPurge (snd (RecordFailure ip now r)) = (if purgeDue now r then now else limiterLastPurge r)"
    by (simp add: R r1_def)
qed

text \<open>A sequence of failures of one address.\<close>

fun recordFailures :: "gostring \<Rightarrow> instant list \<Rightarrow> socksRateLimiter \<Rightarrow> bool list \<times> socksRateLimiter" where
  "recordFailures ip [] r = ([], r)"
| "recordFailures ip (now # ts) r =
     (let (banned, r) = RecordFailure ip now r; (rest, r) = recordFailures ip ts r in (banned # rest, r))"

definition counting :: "gostring \<Rightarrow> instant list \<Rightarrow> socksRateLimiter \<Rightarrow> bool" where
  "counting ip acc r \<longleftrightarrow>
     gomap_wf (limiterRecords r) \<and>
     mget (limiterRecords r) ip = (if acc = [] then None else Some \<lparr>timestamps = acc, banUntil = 0, banCount = 0\<rparr>)"

lemma foundRecord_counting:
  assumes "counting ip acc r" and "\<forall>a \<in> set acc. now - socksRateLimitWindow < a"
  shows "foundRecord ip now r = \<lparr>timestamps = acc, banUntil = 0, banCount = 0\<rparr>"
  using assms by (cases acc) (auto simp: counting_def foundRecord_def staleRecord_def)

lemma counting_step:
  assumes "\<not> exemptIP ip" and "counting ip acc r" and "\<forall>a \<in> set acc. now - socksRateLimitWindow < a"
  shows "length acc < 9 \<Longrightarrow> \<not> fst (RecordFailure ip now r) \<and> counting ip (acc @ [now]) (snd (RecordFailure ip now r))"
    and "length acc = 9 \<Longrightarrow> fst (RecordFailure ip now r) \<and>
           mget (limiterRecords (snd (RecordFailure ip now r))) ip = Some \<lparr>timestamps = [], banUntil = now + minute, banCount = 1\<rparr>"
proof -
  have wf: "gomap_wf (limiterRecords r)"
    using assms(2) by (simp add: counting_def)
  have keep: "filter (\<lambda>ts. now - socksRateLimitWindow < ts) acc = acc"
    using assms(3) by simp
  note R = RecordFailure_found [OF assms(1) wf, of now] foundRecord_counting [OF assms(2,3)]
  show "length acc < 9 \<Longrightarrow> \<not> fst (RecordFailure ip now r) \<and> counting ip (acc @ [now]) (snd (RecordFailure ip now r))"
    using keep by (simp add: R counting_def noteFailure_def Let_def)
  show "length acc = 9 \<Longrightarrow> fst (RecordFailure ip now r) \<and>
           mget (limiterRecords (snd (RecordFailure ip now r))) ip = Some \<lparr>timestamps = [], banUntil = now + minute, banCount = 1\<rparr>"
    using keep by (simp add: R noteFailure_def Let_def banDuration_def)
qed

lemma recordFailures_counting:
  assumes "\<not> exemptIP ip" and "counting ip acc r" and "\<forall>a \<in> set acc \<union> set ts. \<forall>t \<in> set ts. t - socksRateLimitWindow < a"
    and "length acc + length ts \<le> 9"
  shows "fst (recordFailures ip ts r) = replicate (length ts) False \<and> counting ip (acc @ ts) (snd (recordFailures ip ts r))"
  using assms(2-)
proof (induction ts arbitrary: acc r)
  case (Cons t ts)
  have "\<forall>a \<in> set acc. t - socksRateLimitWindow < a"
    using Cons.prems(2) by simp
  note step = counting_step(1) [OF assms(1) Cons.prems(1) this]
  show ?case
    using Cons.IH [of "acc @ [t]" "snd (RecordFailure ip t r)"] step Cons.prems
    by (simp add: split_beta)
qed simp

lemma recordFailures_snoc:
  "recordFailures ip (ts @ [t]) r =
     (let (bs, r) = recordFailures ip ts r; (b, r) = RecordFailure ip t r in (bs @ [b], r))"
  by (induction ts arbitrary: r) (auto simp: split_beta Let_def)

text \<open>
  C30. Ten failures lead to a ban. For an address that is not exempt and has no record, ten failed
  logins within the two minute window, in any clock order and with any other addresses on record, are
  counted without a ban up to the ninth; the tenth is reported as a ban and the address is blocked
  for the whole minute that follows.
\<close>

theorem ten_failures_ban:
  assumes "\<not> exemptIP ip" and "gomap_wf (limiterRecords r)" and "mget (limiterRecords r) ip = None"
    and "length ts = 9" and "0 < t"
    and "\<forall>a \<in> set (ts @ [t]). \<forall>b \<in> set (ts @ [t]). b - socksRateLimitWindow < a"
    and "t \<le> now" and "now < t + minute"
  shows "fst (recordFailures ip (ts @ [t]) r) = replicate 9 False @ [True] \<and>
         IsBlocked ip now (snd (recordFailures ip (ts @ [t]) r))"
proof -
  have "counting ip [] r"
    using assms(2,3) by (simp add: counting_def)
  then have c: "fst (recordFailures ip ts r) = replicate 9 False" "counting ip ts (snd (recordFailures ip ts r))"
    using recordFailures_counting [OF assms(1), of "[]" r ts] assms(4,6) by auto
  have "\<forall>a \<in> set ts. t - socksRateLimitWindow < a"
    using assms(6) by simp
  from counting_step(2) [OF assms(1) c(2) this assms(4)] show ?thesis
    using c(1) assms(1,5,8) by (simp add: recordFailures_snoc split_beta Let_def IsBlocked_def)
qed

theorem ten_failures_ban_witness:
  "fst (recordFailures [49] (replicate 9 5 @ [6]) (newSocksRateLimiter 1)) = replicate 9 False @ [True] \<and>
   IsBlocked [49] 7 (snd (recordFailures [49] (replicate 9 5 @ [6]) (newSocksRateLimiter 1)))"
  by (rule ten_failures_ban)
    (auto simp: exemptIP_def isLoopbackIP_def ParseIP_def newSocksRateLimiter_def)

section \<open>Repeated bans\<close>

text \<open>
  Login attempts of one address with a wrong password: a blocked address is turned away before its
  credentials are looked at, every other attempt is recorded as a failure.
\<close>

fun wrongLogins :: "gostring \<Rightarrow> instant list \<Rightarrow> socksRateLimiter \<Rightarrow> socksRateLimiter" where
  "wrongLogins ip [] r = r"
| "wrongLogins ip (now # ts) r = wrongLogins ip ts (if IsBlocked ip now r then r else snd (RecordFailure ip now r))"

definition neverEscalated :: "gostring \<Rightarrow> instant set \<Rightarrow> socksRateLimiter \<Rightarrow> bool" where
  "neverEscalated ip past r \<longleftrightarrow>
     gomap_wf (limiterRecords r) \<and>
     (\<forall>rec. mget (limiterRecords r) ip = Some rec \<longrightarrow>
        banUntil rec = 0 \<and> banCount rec = 0 \<or>
        banCount rec = 1 \<and> timestamps rec = [] \<and> (\<exists>u \<in> past. banUntil rec = u + minute \<and> limiterLastPurge r \<le> u))"

lemma noteFailure_first:
  assumes "banUntil rec = 0" and "banCount rec = 0" and "noteFailure now rec = (b, rec')"
  shows "banUntil rec' = 0 \<and> banCount rec' = 0 \<or> banCount rec' = 1 \<and> timestamps rec' = [] \<and> banUntil rec' = now + minute"
  using assms by (auto simp: noteFailure_def Let_def banDuration_def split: if_splits)

lemma neverEscalated_found:
  assumes "\<not> exemptIP ip" and "neverEscalated ip past r" and "\<not> IsBlocked ip now r" and "\<forall>u \<in> past. 0 < u \<and> now \<noteq> u + minute"
  shows "banUntil (foundRecord ip now r) = 0 \<and> banCount (foundRecord ip now r) = 0"
proof (cases "mget (limiterRecords r) ip")
  case (Some rec)
  show ?thesis
  proof (cases "banUntil rec = 0 \<and> banCount rec = 0")
    case False
    then obtain u where u: "u \<in> past" "banUntil rec = u + minute" "limiterLastPurge r \<le> u" "timestamps rec = []"
      using assms(2) Some by (auto simp: neverEscalated_def)
    then have "banUntil rec < now"
      using assms(1,3,4) Some by (auto simp: IsBlocked_def)
    then have "purgeDue now r" "staleRecord now rec"
      using u by (auto simp: purgeDue_iff staleRecord_def)
    then show ?thesis
      using Some by (simp add: foundRecord_def)
  qed (simp add: foundRecord_def Some)
qed (simp add: foundRecord_def)

lemma neverEscalated_step:
  assumes "\<not> exemptIP ip" and "neverEscalated ip past r" and "\<not> IsBlocked ip now r"
    and "limiterLastPurge r \<le> now" and "0 < now" and "\<forall>u \<in> past. 0 < u \<and> now \<noteq> u + minute"
  shows "neverEscalated ip (insert now past) (snd (RecordFailure ip now r))"
    and "limiterLastPurge (snd (RecordFailure ip now r)) \<le> now"
proof -
  have wf: "gomap_wf (limiterRecords r)"
    using assms(2) by (simp add: neverEscalated_def)
  note R = RecordFailure_found [OF assms(1) wf, of now]
  show purge: "limiterLastPurge (snd (RecordFailure ip now r)) \<le> now"
    using R(3) assms(4) by simp
  show "neverEscalated ip (insert now past) (snd (RecordFailure ip now r))"
    using noteFailure_first [of "foundRecord ip now r" now] neverEscalated_found [OF assms(1-3,6)] R(2,4) purge
    unfolding neverEscalated_def by (auto simp: prod_eq_iff)
qed

lemma noteFailure_bans:
  assumes "banUntil rec = 0" and "banCount rec = 0" and "noteFailure now rec = (True, rec')"
  shows "banUntil rec' = now + minute"
  using assms by (auto simp: noteFailure_def Let_def banDuration_def split: if_splits)

lemma wrongLogins_neverEscalated:
  assumes "\<not> exemptIP ip" and "neverEscalated ip past r" and "sorted ts" and "\<forall>t \<in> set ts. limiterLastPurge r \<le> t \<and> 0 < t"
    and "\<forall>u \<in> past \<union> set ts. 0 < u \<and> (\<forall>t \<in> set ts. t \<noteq> u + minute)"
  shows "neverEscalated ip (past \<union> set ts) (wrongLogins ip ts r)"
  using assms(2-)
proof (induction ts arbitrary: past r)
  case (Cons t ts)
  let ?r = "if IsBlocked ip t r then r else snd (RecordFailure ip t r)"
  have step: "neverEscalated ip (insert t past) ?r \<and> limiterLastPurge ?r \<le> t"
  proof (cases "IsBlocked ip t r")
    case True
    then show ?thesis
      using Cons.prems unfolding neverEscalated_def by auto
  next
    case False
    then show ?thesis
      using neverEscalated_step [OF assms(1) Cons.prems(1) False] Cons.prems(3,4) by auto
  qed
  have "neverEscalated ip (insert t past \<union> set ts) (wrongLogins ip ts ?r)"
    using step Cons.prems by (intro Cons.IH) auto
  then show ?case
    by simp
qed simp

text \<open>
  C31. Bans of a lone address never escalate. Let one address send wrong logins at any times while no
  other address fails to log in, none of the attempts at the very nanosecond at which a ban could end.
  However often it was banned before, each further ban lasts exactly one minute from the attempt that
  caused it: the purge that runs with the first failure after a ban removes the record and with it the
  escalation counter.
\<close>

theorem bans_never_escalate:
  assumes "\<not> exemptIP ip" and "sorted (ts @ [t])" and "\<forall>u \<in> set (ts @ [t]). start \<le> u \<and> 0 < u"
    and "\<forall>u \<in> set (ts @ [t]). \<forall>v \<in> set (ts @ [t]). v \<noteq> u + minute"
    and "r = wrongLogins ip ts (newSocksRateLimiter start)" and "\<not> IsBlocked ip t r" and "RecordFailure ip t r = (True, r')"
  shows "IsBlocked ip now r' \<longleftrightarrow> now < t + minute"
proof -
  have ne: "neverEscalated ip ({} \<union> set ts) r"
    unfolding assms(5) using assms(1-4)
    by (intro wrongLogins_neverEscalated) (auto simp: neverEscalated_def newSocksRateLimiter_def sorted_append)
  then have wf: "gomap_wf (limiterRecords r)" by (simp add: neverEscalated_def)
  note R = RecordFailure_found [OF assms(1) wf, of t]
  have "banUntil (foundRecord ip t r) = 0 \<and> banCount (foundRecord ip t r) = 0"
    using neverEscalated_found [OF assms(1) ne assms(6)] assms(3,4) by simp
  moreover have "fst (noteFailure t (foundRecord ip t r))" using R(1) assms(7) by simp
  ultimately have "banUntil (snd (noteFailure t (foundRecord ip t r))) = t + minute"
    using noteFailure_bans [of "foundRecord ip t r" t] by (simp add: prod_eq_iff)
  then show ?thesis
    using R(2) assms(1,3,7) by (simp add: IsBlocked_def)
qed

text \<open>Ten failures at 5 ns, and ten more after the ban.\<close>

lemma second_ban:
  "\<not> IsBlocked [49] (7 + 2 * minute) (wrongLogins [49] (replicate 10 5 @ replicate 9 (7 + 2 * minute)) (newSocksRateLimiter 1))"
  "fst (RecordFailure [49] (7 + 2 * minute) (wrongLogins [49] (replicate 10 5 @ replicate 9 (7 + 2 * minute)) (newSocksRateLimiter 1)))"
  by code_simp+

theorem bans_never_escalate_witness:
  "\<exists>r'. RecordFailure [49] (7 + 2 * minute)
      (wrongLogins [49] (replicate 10 5 @ replicate 9 (7 + 2 * minute)) (newSocksRateLimiter 1)) = (True, r') \<and>
    IsBlocked [49] (6 + 3 * minute) r' \<and> \<not> IsBlocked [49] (7 + 3 * minute) r'"
proof -
  let ?ts = "replicate 10 5 @ replicate 9 (7 + 2 * minute)" and ?t = "7 + 2 * minute"
  let ?r = "wrongLogins [49] ?ts (newSocksRateLimiter 1)"
  have ne: "\<not> exemptIP [49]"
    by (simp add: exemptIP_def isLoopbackIP_def ParseIP_def)
  obtain r' where r': "RecordFailure [49] ?t ?r = (True, r')"
    using second_ban(2) by (metis prod.collapse)
  have "IsBlocked [49] now r' \<longleftrightarrow> now < ?t + minute" for now
    by (rule bans_never_escalate [OF ne _ _ _ refl second_ban(1) r']) (auto simp: sorted_append)
  then show ?thesis
    using r' by auto
qed

end
