(* ===== verification/Socks_Handshake.thy ===== *)
theory Socks_Handshake
  imports Enums Socks_Proto Socks_Rate_Limit
begin

text \<open>
  The local SOCKS server of the client (\<open>internal/client/socks_manager.go\<close>): version dispatch, method
  negotiation, user and password check with the rate limiter, and the request itself, for SOCKS4,
  SOCKS4a and SOCKS5. A connection is the list of bytes its peer sends before it stops; a handler
  returns the bytes it wrote, the limiter and what becomes of the connection. The properties: with
  authentication on nothing is forwarded without the configured credentials, every wrong password is
  counted, and a well-formed request is forwarded with exactly its address and port.
\<close>

abbreviation (input) SOCKS4_VERSION :: u8 where "SOCKS4_VERSION \<equiv> 4"
abbreviation (input) SOCKS5_VERSION :: u8 where "SOCKS5_VERSION \<equiv> 5"
abbreviation (input) SOCKS4_CMD_CONNECT :: u8 where "SOCKS4_CMD_CONNECT \<equiv> 1"
abbreviation (input) SOCKS4_REPLY_GRANTED :: u8 where "SOCKS4_REPLY_GRANTED \<equiv> 0x5A"
abbreviation (input) SOCKS4_REPLY_REJECTED :: u8 where "SOCKS4_REPLY_REJECTED \<equiv> 0x5B"
abbreviation (input) SOCKS5_AUTH_METHOD_NO_AUTH :: u8 where "SOCKS5_AUTH_METHOD_NO_AUTH \<equiv> 0"
abbreviation (input) SOCKS5_AUTH_METHOD_USER_PASS :: u8 where "SOCKS5_AUTH_METHOD_USER_PASS \<equiv> 2"
abbreviation (input) SOCKS5_AUTH_METHOD_NO_ACCEPTABLE :: u8 where "SOCKS5_AUTH_METHOD_NO_ACCEPTABLE \<equiv> 0xFF"
abbreviation (input) SOCKS5_CMD_CONNECT :: u8 where "SOCKS5_CMD_CONNECT \<equiv> 1"
abbreviation (input) SOCKS5_CMD_UDP_ASSOCIATE :: u8 where "SOCKS5_CMD_UDP_ASSOCIATE \<equiv> 3"
abbreviation (input) SOCKS5_ATYP_IPV4 :: u8 where "SOCKS5_ATYP_IPV4 \<equiv> 1"
abbreviation (input) SOCKS5_ATYP_DOMAIN :: u8 where "SOCKS5_ATYP_DOMAIN \<equiv> 3"
abbreviation (input) SOCKS5_ATYP_IPV6 :: u8 where "SOCKS5_ATYP_IPV6 \<equiv> 4"
abbreviation (input) SOCKS5_REPLY_SUCCESS :: u8 where "SOCKS5_REPLY_SUCCESS \<equiv> 0"
abbreviation (input) SOCKS5_REPLY_GENERAL_FAILURE :: u8 where "SOCKS5_REPLY_GENERAL_FAILURE \<equiv> 1"
abbreviation (input) SOCKS5_REPLY_RULESET_DENIED :: u8 where "SOCKS5_REPLY_RULESET_DENIED \<equiv> 2"
abbreviation (input) SOCKS5_REPLY_NETWORK_UNREACHABLE :: u8 where "SOCKS5_REPLY_NETWORK_UNREACHABLE \<equiv> 3"
abbreviation (input) SOCKS5_REPLY_HOST_UNREACHABLE :: u8 where "SOCKS5_REPLY_HOST_UNREACHABLE \<equiv> 4"
abbreviation (input) SOCKS5_REPLY_CONNECTION_REFUSED :: u8 where "SOCKS5_REPLY_CONNECTION_REFUSED \<equiv> 5"
abbreviation (input) SOCKS5_REPLY_TTL_EXPIRED :: u8 where "SOCKS5_REPLY_TTL_EXPIRED \<equiv> 6"
abbreviation (input) SOCKS5_REPLY_CMD_NOT_SUPPORTED :: u8 where "SOCKS5_REPLY_CMD_NOT_SUPPORTED \<equiv> 7"
abbreviation (input) SOCKS5_REPLY_ATYP_NOT_SUPPORTED :: u8 where "SOCKS5_REPLY_ATYP_NOT_SUPPORTED \<equiv> 8"
abbreviation (input) SOCKS5_USER_AUTH_VERSION :: u8 where "SOCKS5_USER_AUTH_VERSION \<equiv> 1"
abbreviation (input) SOCKS5_USER_AUTH_SUCCESS :: u8 where "SOCKS5_USER_AUTH_SUCCESS \<equiv> 0"
abbreviation (input) SOCKS5_USER_AUTH_FAILURE :: u8 where "SOCKS5_USER_AUTH_FAILURE \<equiv> 1"

record socksConfig =
  SOCKS5Auth :: bool
  SOCKS5User :: gostring
  SOCKS5Pass :: gostring

text \<open>
  What the handler does with the connection: close it, or hand it over with the address, the port,
  the address type and the protocol version.
\<close>

datatype socksAction =
    ConnClosed
  | SocksConnect gostring u16 u8 u8
  | SocksUDPAssociate gostring u16 u8

type_synonym socksResult = "bytes \<times> socksRateLimiter option \<times> socksAction"

text \<open>\<open>io.ReadFull\<close> into a buffer of \<open>n\<close> bytes.\<close>

definition readFull :: "nat \<Rightarrow> bytes \<Rightarrow> (bytes \<times> bytes) option" where
  "readFull n s = (if n \<le> length s then Some (take n s, drop n s) else None)"

definition supportsSOCKS4 :: "socksConfig \<Rightarrow> bool" where
  "supportsSOCKS4 cfg = (if \<not> SOCKS5Auth cfg then True else SOCKS5User cfg \<noteq> [] \<and> SOCKS5Pass cfg = [])"

definition socks4Reply :: "bool \<Rightarrow> bytes" where
  "socks4Reply success = [0, if success then SOCKS4_REPLY_GRANTED else SOCKS4_REPLY_REJECTED, 0, 0, 0, 0, 0, 0]"

text \<open>Go appends nothing for the nil that \<open>To4\<close> and \<open>To16\<close> may return; \<open>net.IPv4zero\<close> has 16 bytes.\<close>

definition socksReply :: "u8 \<Rightarrow> u8 \<Rightarrow> bytes \<Rightarrow> u16 \<Rightarrow> bytes" where
  "socksReply rep atyp bndAddr bndPort =
     [SOCKS5_VERSION, rep, 0, if atyp = SOCKS5_ATYP_DOMAIN then SOCKS5_ATYP_IPV4 else atyp] @
     (if atyp = SOCKS5_ATYP_IPV4 then (case To4 bndAddr of Some a \<Rightarrow> a | None \<Rightarrow> [])
      else if atyp = SOCKS5_ATYP_IPV6 then (case To16 bndAddr of Some a \<Rightarrow> a | None \<Rightarrow> [])
      else if atyp = SOCKS5_ATYP_DOMAIN then v4InV6Prefix @ replicate 4 0
      else []) @
     be16 bndPort"

definition IPv4zero :: bytes where
  "IPv4zero = v4InV6Prefix @ replicate 4 0"

text \<open>The bytes up to a terminating zero, at most 255, and the rest.\<close>

fun readNullTerminated :: "nat \<Rightarrow> bytes \<Rightarrow> (bytes \<times> bytes) option" where
  "readNullTerminated n [] = None"
| "readNullTerminated n (c # s) =
     (if c = 0 then Some ([], s)
      else if 255 \<le> n then None
      else map_option (\<lambda>(f, s). (c # f, s)) (readNullTerminated (Suc n) s))"

definition readNullTerminatedSocksField :: "bytes \<Rightarrow> (bytes \<times> bytes) option" where
  "readNullTerminatedSocksField s = readNullTerminated 0 s"

definition noteLoginFailure :: "gostring \<Rightarrow> instant \<Rightarrow> socksRateLimiter option \<Rightarrow> socksRateLimiter option" where
  "noteLoginFailure ip now lim = map_option (\<lambda>r. snd (RecordFailure ip now r)) lim"

definition noteLoginSuccess :: "gostring \<Rightarrow> socksRateLimiter option \<Rightarrow> socksRateLimiter option" where
  "noteLoginSuccess ip lim = map_option (RecordSuccess ip) lim"

definition selectMethod :: "socksConfig \<Rightarrow> bytes \<Rightarrow> u8" where
  "selectMethod cfg methods =
     (if SOCKS5Auth cfg then
        (if SOCKS5_AUTH_METHOD_USER_PASS \<in> set methods then SOCKS5_AUTH_METHOD_USER_PASS else SOCKS5_AUTH_METHOD_NO_ACCEPTABLE)
      else
        (if SOCKS5_AUTH_METHOD_NO_AUTH \<in> set methods then SOCKS5_AUTH_METHOD_NO_AUTH else SOCKS5_AUTH_METHOD_NO_ACCEPTABLE))"

text \<open>User name and password of RFC 1929; \<open>None\<close> when the connection ends early or the version is wrong.\<close>

definition readUserPass :: "bytes \<Rightarrow> (gostring \<times> gostring \<times> bytes) option" where
  "readUserPass s =
     (case readFull 2 s of
        None \<Rightarrow> None
      | Some (authHeader, s) \<Rightarrow>
          if authHeader ! 0 \<noteq> SOCKS5_USER_AUTH_VERSION then None
          else
            case readFull (unat (authHeader ! 1)) s of
              None \<Rightarrow> None
            | Some (user, s) \<Rightarrow>
                (case readFull 1 s of
                   None \<Rightarrow> None
                 | Some (passLenBuf, s) \<Rightarrow>
                     (case readFull (unat (passLenBuf ! 0)) s of
                        None \<Rightarrow> None
                      | Some (pass, s) \<Rightarrow> Some (user, pass, s))))"

text \<open>The address block of a request: the printed address and the rest.\<close>

definition readSocksAddr :: "u8 \<Rightarrow> bytes \<Rightarrow> (gostring \<times> bytes) option" where
  "readSocksAddr atyp s =
     (if atyp = SOCKS5_ATYP_IPV4 then map_option (\<lambda>(ip, s). (IPString ip, s)) (readFull 4 s)
      else if atyp = SOCKS5_ATYP_DOMAIN then
        (case readFull 1 s of
           None \<Rightarrow> None
         | Some (lenBuf, s) \<Rightarrow> readFull (unat (lenBuf ! 0)) s)
      else if atyp = SOCKS5_ATYP_IPV6 then map_option (\<lambda>(ip, s). (IPString ip, s)) (readFull 16 s)
      else None)"

text \<open>The request after the negotiation, with what was written so far.\<close>

definition socks5Command :: "bytes \<Rightarrow> socksRateLimiter option \<Rightarrow> bytes \<Rightarrow> socksResult" where
  "socks5Command out lim s =
     (case readFull 4 s of
        None \<Rightarrow> (out, lim, ConnClosed)
      | Some (reqHeader, s) \<Rightarrow>
          if reqHeader ! 0 \<noteq> SOCKS5_VERSION \<or> reqHeader ! 2 \<noteq> 0 then (out, lim, ConnClosed)
          else
            let cmd = reqHeader ! 1; atyp = reqHeader ! 3 in
            case readSocksAddr atyp s of
              None \<Rightarrow> (out, lim, ConnClosed)
            | Some (addr, s) \<Rightarrow>
                (case readFull 2 s of
                   None \<Rightarrow> (out, lim, ConnClosed)
                 | Some (portBuf, s) \<Rightarrow>
                     let port = rd16 portBuf 0 in
                     if cmd = SOCKS5_CMD_CONNECT then (out, lim, SocksConnect addr port atyp SOCKS5_VERSION)
                     else if cmd = SOCKS5_CMD_UDP_ASSOCIATE then (out, lim, SocksUDPAssociate addr port atyp)
                     else (out @ socksReply SOCKS5_REPLY_CMD_NOT_SUPPORTED SOCKS5_ATYP_IPV4 IPv4zero 0, lim, ConnClosed)))"

definition handleSOCKS5Request :: "socksConfig \<Rightarrow> gostring \<Rightarrow> instant \<Rightarrow> socksRateLimiter option \<Rightarrow> bytes \<Rightarrow> socksResult" where
  "handleSOCKS5Request cfg ip now lim s =
     (case readFull 1 s of
        None \<Rightarrow> ([], lim, ConnClosed)
      | Some (header, s) \<Rightarrow>
          (case readFull (unat (header ! 0)) s of
             None \<Rightarrow> ([], lim, ConnClosed)
           | Some (methods, s) \<Rightarrow>
               let methodSelected = selectMethod cfg methods;
                   out = [SOCKS5_VERSION, methodSelected] in
               if methodSelected = SOCKS5_AUTH_METHOD_NO_ACCEPTABLE then (out, lim, ConnClosed)
               else if methodSelected = SOCKS5_AUTH_METHOD_USER_PASS then
                 (case readUserPass s of
                    None \<Rightarrow> (out, lim, ConnClosed)
                  | Some (user, pass, s) \<Rightarrow>
                      if user \<noteq> SOCKS5User cfg \<or> pass \<noteq> SOCKS5Pass cfg then
                        (out @ [SOCKS5_USER_AUTH_VERSION, SOCKS5_USER_AUTH_FAILURE], noteLoginFailure ip now lim, ConnClosed)
                      else
                        socks5Command (out @ [SOCKS5_USER_AUTH_VERSION, SOCKS5_USER_AUTH_SUCCESS]) (noteLoginSuccess ip lim) s)
               else socks5Command out lim s))"

definition handleSOCKS4Request :: "socksConfig \<Rightarrow> gostring \<Rightarrow> instant \<Rightarrow> socksRateLimiter option \<Rightarrow> bytes \<Rightarrow> socksResult" where
  "handleSOCKS4Request cfg ip now lim s =
     (case readFull 7 s of
        None \<Rightarrow> ([], lim, ConnClosed)
      | Some (req, s) \<Rightarrow>
          if req ! 0 \<noteq> SOCKS4_CMD_CONNECT then (socks4Reply False, lim, ConnClosed)
          else
            let port = rd16 req 1; dstIP = v4InV6Prefix @ drop 3 req in
            case readNullTerminatedSocksField s of
              None \<Rightarrow> ([], lim, ConnClosed)
            | Some (userID, s) \<Rightarrow>
                if SOCKS5Auth cfg \<and> SOCKS5User cfg \<noteq> userID then
                  (socks4Reply False, noteLoginFailure ip now lim, ConnClosed)
                else
                  let lim = (if SOCKS5Auth cfg then noteLoginSuccess ip lim else lim) in
                  if req ! 3 = 0 \<and> req ! 4 = 0 \<and> req ! 5 = 0 \<and> req ! 6 \<noteq> 0 then
                    (case readNullTerminatedSocksField s of
                       None \<Rightarrow> (socks4Reply False, lim, ConnClosed)
                     | Some (domain, s) \<Rightarrow>
                         if domain = [] then (socks4Reply False, lim, ConnClosed)
                         else ([], lim, SocksConnect domain port SOCKS5_ATYP_DOMAIN SOCKS4_VERSION))
                  else ([], lim, SocksConnect (IPString dstIP) port SOCKS5_ATYP_IPV4 SOCKS4_VERSION))"

text \<open>The entry point; the two times are those of the ban check and of a recorded failure.\<close>

definition HandleSOCKS5 :: "socksConfig \<Rightarrow> gostring \<Rightarrow> instant \<Rightarrow> instant \<Rightarrow> socksRateLimiter option \<Rightarrow> bytes \<Rightarrow> socksResult" where
  "HandleSOCKS5 cfg ip checked now lim s =
     (if (case lim of None \<Rightarrow> False | Some r \<Rightarrow> IsBlocked ip checked r) then ([], lim, ConnClosed)
      else
        case readFull 1 s of
          None \<Rightarrow> ([], lim, ConnClosed)
        | Some (version, s) \<Rightarrow>
            if version ! 0 = SOCKS5_VERSION then handleSOCKS5Request cfg ip now lim s
            else if version ! 0 = SOCKS4_VERSION then
              (if \<not> supportsSOCKS4 cfg then ([], lim, ConnClosed) else handleSOCKS4Request cfg ip now lim s)
            else ([], lim, ConnClosed))"

text \<open>
  The target block that a CONNECT sends through the tunnel; \<open>None\<close> is the unreachable host, which is
  answered and closed.
\<close>

definition connectTargetPayload :: "gostring \<Rightarrow> u16 \<Rightarrow> u8 \<Rightarrow> bytes option" where
  "connectTargetPayload addr port atyp =
     (if atyp = SOCKS5_ATYP_IPV4 then
        (case ParseIP addr of
           None \<Rightarrow> None
         | Some ip \<Rightarrow> map_option (\<lambda>ip4. atyp # ip4 @ be16 port) (To4 ip))
      else if atyp = SOCKS5_ATYP_DOMAIN then Some (atyp # of_nat (length addr) # addr @ be16 port)
      else if atyp = SOCKS5_ATYP_IPV6 then
        (case ParseIP addr of
           None \<Rightarrow> None
         | Some ip \<Rightarrow> map_option (\<lambda>ip6. atyp # ip6 @ be16 port) (To16 ip))
      else Some (atyp # be16 port))"

text \<open>\<open>fragmentPayload\<close> (\<open>client_utils.go\<close>); with size 0 the loop never ends and with a
  negative one the slice panics, \<open>None\<close>.\<close>

function fragmentFrom :: "nat \<Rightarrow> nat \<Rightarrow> bytes \<Rightarrow> bytes list" where
  "fragmentFrom i mtu payload =
     (if i < length payload \<and> 0 < mtu
      then slice payload i (min (i + mtu) (length payload)) # fragmentFrom (i + mtu) mtu payload
      else [])"
  by pat_completeness auto
termination
  by (relation "measure (\<lambda>(i, mtu, payload). length payload - i)") auto

definition fragmentPayload :: "bytes \<Rightarrow> int \<Rightarrow> bytes list option" where
  "fragmentPayload payload mtu =
     (if int (length payload) \<le> mtu then Some [payload]
      else if mtu \<le> 0 then None
      else Some (fragmentFrom 0 (nat mtu) payload))"

declare fragmentFrom.simps [simp del]

definition socksReplyForPacketType :: "u8 \<Rightarrow> u8" where
  "socksReplyForPacketType packetType =
     (if packetType = PACKET_SOCKS5_RULESET_DENIED then SOCKS5_REPLY_RULESET_DENIED
      else if packetType = PACKET_SOCKS5_NETWORK_UNREACHABLE then SOCKS5_REPLY_NETWORK_UNREACHABLE
      else if packetType = PACKET_SOCKS5_HOST_UNREACHABLE then SOCKS5_REPLY_HOST_UNREACHABLE
      else if packetType = PACKET_SOCKS5_CONNECTION_REFUSED then SOCKS5_REPLY_CONNECTION_REFUSED
      else if packetType = PACKET_SOCKS5_TTL_EXPIRED then SOCKS5_REPLY_TTL_EXPIRED
      else if packetType = PACKET_SOCKS5_COMMAND_UNSUPPORTED then SOCKS5_REPLY_CMD_NOT_SUPPORTED
      else if packetType = PACKET_SOCKS5_ADDRESS_TYPE_UNSUPPORTED then SOCKS5_REPLY_ATYP_NOT_SUPPORTED
      else SOCKS5_REPLY_GENERAL_FAILURE)"

text \<open>
  One datagram of a UDP association: the address and port it is meant for and its data, or nothing
  when the loop skips it. Only port 53 is served.
\<close>

definition associateTarget :: "bytes \<Rightarrow> (gostring \<times> u16 \<times> bytes) option" where
  "associateTarget buf =
     (let n = length buf in
      if n < 6 then None
      else if buf ! 2 \<noteq> 0 then None
      else if buf ! 3 = SOCKS5_ATYP_IPV4 then
        (if n < 10 then None else Some (IPString (slice buf 4 8), rd16 buf 8, drop 10 buf))
      else if buf ! 3 = SOCKS5_ATYP_DOMAIN then
        (let domainLen = unat (buf ! 4); payloadOffset = 4 + 1 + domainLen + 2 in
         if payloadOffset > n \<or> 5 + domainLen > n then None
         else Some (slice buf 5 (5 + domainLen), rd16 buf (4 + 1 + domainLen), drop payloadOffset buf))
      else if buf ! 3 = SOCKS5_ATYP_IPV6 then
        (if n < 22 then None else Some (IPString (slice buf 4 20), rd16 buf 20, drop 22 buf))
      else None)"

definition associateDNSQuery :: "bytes \<Rightarrow> bytes option" where
  "associateDNSQuery buf =
     (case associateTarget buf of
        None \<Rightarrow> None
      | Some (addr, port, dnsQuery) \<Rightarrow> if port \<noteq> 53 then None else Some dnsQuery)"

section \<open>Authentication\<close>

lemma readFull_Some: "readFull n s = Some (a, b) \<longleftrightarrow> s = a @ b \<and> length a = n"
  by (auto simp: readFull_def)

lemma readFull_one [simp]: "readFull (Suc 0) s = (case s of [] \<Rightarrow> None | c # s \<Rightarrow> Some ([c], s))"
  by (cases s) (auto simp: readFull_def)

lemma readNullTerminated_Some:
  "readNullTerminated n s = Some (f, t) \<Longrightarrow> s = f @ 0 # t \<and> 0 \<notin> set f \<and> length f + n \<le> max n 255"
  by (induction n s arbitrary: f t rule: readNullTerminated.induct) (auto split: if_splits)

lemma readNullTerminated_field:
  "0 \<notin> set f \<Longrightarrow> length f + n \<le> 255 \<Longrightarrow> readNullTerminated n (f @ 0 # t) = Some (f, t)"
  by (induction f arbitrary: n) auto

text \<open>
  The credentials that a connection presents: RFC 1929 in SOCKS5, the user field of a CONNECT in
  SOCKS4; and whether it presents any that the handler evaluates.
\<close>

definition presents5 :: "gostring \<Rightarrow> gostring \<Rightarrow> bytes \<Rightarrow> bool" where
  "presents5 user pass s \<longleftrightarrow>
     (\<exists>methods rest. length methods \<le> 255 \<and> length user \<le> 255 \<and> length pass \<le> 255 \<and>
        SOCKS5_AUTH_METHOD_USER_PASS \<in> set methods \<and>
        s = SOCKS5_VERSION # of_nat (length methods) # methods @
              SOCKS5_USER_AUTH_VERSION # of_nat (length user) # user @ of_nat (length pass) # pass @ rest)"

definition presents4 :: "gostring \<Rightarrow> bytes \<Rightarrow> bool" where
  "presents4 user s \<longleftrightarrow>
     (\<exists>req rest. length req = 6 \<and> 0 \<notin> set user \<and> length user \<le> 255 \<and>
        s = SOCKS4_VERSION # SOCKS4_CMD_CONNECT # req @ user @ 0 # rest)"

definition attemptsLogin :: "socksConfig \<Rightarrow> bytes \<Rightarrow> bool" where
  "attemptsLogin cfg s \<longleftrightarrow> (\<exists>user pass. presents5 user pass s) \<or> supportsSOCKS4 cfg \<and> (\<exists>user. presents4 user s)"

lemma length_one: "length xs = 1 \<longleftrightarrow> (\<exists>x. xs = [x])"
  by (cases xs) auto

lemma readUserPass_Some:
  assumes "readUserPass s = Some (user, pass, rest)"
  shows "s = SOCKS5_USER_AUTH_VERSION # of_nat (length user) # user @ of_nat (length pass) # pass @ rest"
    and "length user \<le> 255" and "length pass \<le> 255"
proof -
  obtain h1 h2 s1 p1 s2 where s: "s = [h1, h2] @ s1" "h1 = SOCKS5_USER_AUTH_VERSION"
      "s1 = user @ s2" "length user = unat h2" "s2 = [p1] @ pass @ rest" "length pass = unat p1"
    using assms
    by (auto simp: readUserPass_def readFull_Some length_one numeral_2_eq_2 length_Suc_conv
        split: option.splits if_splits list.splits)
  then show "s = SOCKS5_USER_AUTH_VERSION # of_nat (length user) # user @ of_nat (length pass) # pass @ rest"
    and "length user \<le> 255" and "length pass \<le> 255"
    by simp_all
qed

lemma socks5Command_limiter: "fst (snd (socks5Command out lim s)) = lim"
  by (auto simp: socks5Command_def Let_def split: option.split)

lemma handleSOCKS5Request_cases:
  assumes "SOCKS5Auth cfg" and "handleSOCKS5Request cfg ip now lim s = (out, lim', act)"
  shows "(\<exists>user pass. presents5 user pass (SOCKS5_VERSION # s) \<and>
            (if user = SOCKS5User cfg \<and> pass = SOCKS5Pass cfg then lim' = noteLoginSuccess ip lim
             else lim' = noteLoginFailure ip now lim \<and> act = ConnClosed)) \<or>
         lim' = lim \<and> act = ConnClosed"
proof -
  consider "lim' = lim" "act = ConnClosed"
    | h ms s' user pass rest where "s = h # ms @ s'" "length ms = unat h" "SOCKS5_AUTH_METHOD_USER_PASS \<in> set ms"
        "readUserPass s' = Some (user, pass, rest)"
    using assms
    by (auto simp: handleSOCKS5Request_def selectMethod_def Let_def readFull_Some
        split: option.splits if_splits list.splits)
  then show ?thesis
  proof cases
    case 2
    note r = readUserPass_Some [OF 2(4)]
    have l: "length ms \<le> 255" "of_nat (length ms) = h"
      using 2(2) by simp_all
    have "presents5 user pass (SOCKS5_VERSION # s)"
      unfolding presents5_def using l r 2 by (intro exI [of _ ms] exI [of _ rest]) simp
    moreover have "readFull (unat h) (ms @ s') = Some (ms, s')"
      using 2(2) by (simp add: readFull_Some)
    then have "if user = SOCKS5User cfg \<and> pass = SOCKS5Pass cfg then lim' = noteLoginSuccess ip lim
             else lim' = noteLoginFailure ip now lim \<and> act = ConnClosed"
      using assms 2 socks5Command_limiter [of "[5, 2, 1, 0]" "noteLoginSuccess ip lim" rest]
      by (auto simp: handleSOCKS5Request_def selectMethod_def Let_def)
    ultimately show ?thesis
      by blast
  qed blast
qed

lemma readFull_append: "length a = n \<Longrightarrow> readFull n (a @ b) = Some (a, b)"
  by (simp add: readFull_def)

lemma readUserPass_bytes:
  assumes "length user \<le> 255" and "length pass \<le> 255"
  shows "readUserPass (SOCKS5_USER_AUTH_VERSION # of_nat (length user) # user @ of_nat (length pass) # pass @ rest) = Some (user, pass, rest)"
proof -
  have "readFull 2 (SOCKS5_USER_AUTH_VERSION # of_nat (length user) # user @ of_nat (length pass) # pass @ rest) =
      Some ([SOCKS5_USER_AUTH_VERSION, of_nat (length user)], user @ of_nat (length pass) # pass @ rest)"
    by (simp add: readFull_def)
  then show ?thesis
    using assms by (simp add: readUserPass_def unat_of_nat_u8 readFull_append)
qed

lemma handleSOCKS5Request_presents:
  assumes "SOCKS5Auth cfg" and "presents5 user pass (SOCKS5_VERSION # s)" and "user \<noteq> SOCKS5User cfg \<or> pass \<noteq> SOCKS5Pass cfg"
  shows "handleSOCKS5Request cfg ip now lim s =
    ([SOCKS5_VERSION, SOCKS5_AUTH_METHOD_USER_PASS, SOCKS5_USER_AUTH_VERSION, SOCKS5_USER_AUTH_FAILURE], noteLoginFailure ip now lim, ConnClosed)"
proof -
  obtain ms rest where p: "length ms \<le> 255" "length user \<le> 255" "length pass \<le> 255" "SOCKS5_AUTH_METHOD_USER_PASS \<in> set ms"
      "s = of_nat (length ms) # ms @ SOCKS5_USER_AUTH_VERSION # of_nat (length user) # user @ of_nat (length pass) # pass @ rest"
    using assms(2) unfolding presents5_def by auto
  show ?thesis
    using p(1,4) assms(1,3)
    by (auto simp: p(5) handleSOCKS5Request_def unat_of_nat_u8 readFull_append selectMethod_def Let_def readUserPass_bytes [OF p(2,3)])
qed

lemma handleSOCKS4Request_cases:
  assumes "SOCKS5Auth cfg" and "handleSOCKS4Request cfg ip now lim s = (out, lim', act)"
  shows "(\<exists>user. presents4 user (SOCKS4_VERSION # s) \<and>
            (if user = SOCKS5User cfg then lim' = noteLoginSuccess ip lim
             else lim' = noteLoginFailure ip now lim \<and> act = ConnClosed)) \<or>
         lim' = lim \<and> act = ConnClosed"
proof -
  consider "lim' = lim" "act = ConnClosed"
    | req t user rest where "readFull 7 s = Some (req, t)" "req ! 0 = SOCKS4_CMD_CONNECT"
        "readNullTerminatedSocksField t = Some (user, rest)"
    using assms by (auto simp: handleSOCKS4Request_def Let_def split: option.splits if_splits)
  then show ?thesis
  proof cases
    case 2
    obtain h req' where r: "req = h # req'" "length req' = 6" "s = h # req' @ t"
      using 2(1) by (auto simp: readFull_Some numeral_eq_Suc length_Suc_conv)
    have "t = user @ 0 # rest \<and> 0 \<notin> set user \<and> length user \<le> 255"
      using readNullTerminated_Some [of 0 t user rest] 2(3) by (simp add: readNullTerminatedSocksField_def)
    then have "presents4 user (SOCKS4_VERSION # s)"
      unfolding presents4_def using r 2(2) by (intro exI [of _ req'] exI [of _ rest]) simp
    moreover have "if user = SOCKS5User cfg then lim' = noteLoginSuccess ip lim
        else lim' = noteLoginFailure ip now lim \<and> act = ConnClosed"
      using assms 2 by (auto simp: handleSOCKS4Request_def Let_def split: option.splits if_splits)
    ultimately show ?thesis by blast
  qed blast
qed

lemma handleSOCKS4Request_presents:
  assumes "SOCKS5Auth cfg" and "presents4 user (SOCKS4_VERSION # s)" and "user \<noteq> SOCKS5User cfg"
  shows "handleSOCKS4Request cfg ip now lim s = (socks4Reply False, noteLoginFailure ip now lim, ConnClosed)"
proof -
  obtain req rest where p: "length req = 6" "0 \<notin> set user" "length user \<le> 255" "s = SOCKS4_CMD_CONNECT # req @ user @ 0 # rest"
    using assms(2) unfolding presents4_def by auto
  have "readFull 7 s = Some (SOCKS4_CMD_CONNECT # req, user @ 0 # rest)"
    using p(1) readFull_append [of "SOCKS4_CMD_CONNECT # req" 7 "user @ 0 # rest"] by (simp add: p(4))
  then show ?thesis
    using assms(1,3) readNullTerminated_field [OF p(2), of 0 rest] p(3)
    by (auto simp: handleSOCKS4Request_def readNullTerminatedSocksField_def Let_def)
qed

definition blockedBy :: "gostring \<Rightarrow> instant \<Rightarrow> socksRateLimiter option \<Rightarrow> bool" where
  "blockedBy ip now lim \<longleftrightarrow> (case lim of None \<Rightarrow> False | Some r \<Rightarrow> IsBlocked ip now r)"

lemma HandleSOCKS5_version:
  assumes "\<not> blockedBy ip checked lim"
  shows "HandleSOCKS5 cfg ip checked now lim (SOCKS5_VERSION # t) = handleSOCKS5Request cfg ip now lim t"
    and "HandleSOCKS5 cfg ip checked now lim (SOCKS4_VERSION # t) =
      (if supportsSOCKS4 cfg then handleSOCKS4Request cfg ip now lim t else ([], lim, ConnClosed))"
  using assms by (simp_all add: HandleSOCKS5_def blockedBy_def)

lemma HandleSOCKS5_cases:
  assumes "SOCKS5Auth cfg" and "HandleSOCKS5 cfg ip checked now lim s = (out, lim', act)" and nb: "\<not> blockedBy ip checked lim"
  shows "lim' = lim \<and> act = ConnClosed \<or>
    (\<exists>user pass. presents5 user pass s \<and>
       (if user = SOCKS5User cfg \<and> pass = SOCKS5Pass cfg then lim' = noteLoginSuccess ip lim
        else lim' = noteLoginFailure ip now lim \<and> act = ConnClosed)) \<or>
    supportsSOCKS4 cfg \<and> (\<exists>user. presents4 user s \<and>
       (if user = SOCKS5User cfg then lim' = noteLoginSuccess ip lim
        else lim' = noteLoginFailure ip now lim \<and> act = ConnClosed))"
proof -
  consider t where "s = SOCKS5_VERSION # t" "handleSOCKS5Request cfg ip now lim t = (out, lim', act)"
    | t where "s = SOCKS4_VERSION # t" "handleSOCKS4Request cfg ip now lim t = (out, lim', act)" "supportsSOCKS4 cfg"
    | "lim' = lim" "act = ConnClosed"
    using assms(2) nb by (auto simp: HandleSOCKS5_def blockedBy_def split: list.splits if_splits)
  then show ?thesis
  proof cases
    case 1
    then show ?thesis using handleSOCKS5Request_cases [OF assms(1) 1(2)] by blast
  next
    case 2
    then show ?thesis using handleSOCKS4Request_cases [OF assms(1) 2(2)] by blast
  qed blast
qed

text \<open>
  C7. No access without the password. With authentication switched on, a connection that is forwarded
  comes from an address that is not banned and has presented the configured user and password in
  SOCKS5, or, where the password is empty, the configured user in SOCKS4; its failure record is
  cleared. A complete login with any other credentials, from an address that is not banned, is
  answered with a failure, recorded with the limiter and closed, in SOCKS5 and in SOCKS4; where SOCKS4 is not
  offered it is closed without an answer. A banned address gets no answer and nothing is recorded,
  and a connection that presents no complete login leaves the failure records alone.
\<close>

theorem no_access_without_login:
  assumes "SOCKS5Auth cfg" and "HandleSOCKS5 cfg ip checked now lim s = (out, lim', act)"
  shows "(act \<noteq> ConnClosed \<longrightarrow>
            \<not> blockedBy ip checked lim \<and> lim' = noteLoginSuccess ip lim \<and>
            (presents5 (SOCKS5User cfg) (SOCKS5Pass cfg) s \<or> SOCKS5Pass cfg = [] \<and> presents4 (SOCKS5User cfg) s)) \<and>
         (\<forall>user pass. presents5 user pass s \<and> (user \<noteq> SOCKS5User cfg \<or> pass \<noteq> SOCKS5Pass cfg) \<and> \<not> blockedBy ip checked lim \<longrightarrow>
            out = [SOCKS5_VERSION, SOCKS5_AUTH_METHOD_USER_PASS, SOCKS5_USER_AUTH_VERSION, SOCKS5_USER_AUTH_FAILURE] \<and>
            lim' = noteLoginFailure ip now lim \<and> act = ConnClosed) \<and>
         (\<forall>user. presents4 user s \<and> user \<noteq> SOCKS5User cfg \<and> \<not> blockedBy ip checked lim \<longrightarrow>
            (if supportsSOCKS4 cfg then out = socks4Reply False \<and> lim' = noteLoginFailure ip now lim else out = [] \<and> lim' = lim) \<and>
            act = ConnClosed) \<and>
         (blockedBy ip checked lim \<longrightarrow> out = [] \<and> lim' = lim \<and> act = ConnClosed) \<and>
         (\<not> attemptsLogin cfg s \<longrightarrow> lim' = lim \<and> act = ConnClosed)"
proof (cases "blockedBy ip checked lim")
  case True
  then have "out = [] \<and> lim' = lim \<and> act = ConnClosed"
    using assms(2) by (auto simp: HandleSOCKS5_def blockedBy_def)
  with True show ?thesis by simp
next
  case nb: False
  note c = HandleSOCKS5_cases [OF assms nb]
  have s4: "supportsSOCKS4 cfg \<Longrightarrow> SOCKS5Pass cfg = []" using assms(1) by (simp add: supportsSOCKS4_def)
  have fwd: "act \<noteq> ConnClosed \<longrightarrow> lim' = noteLoginSuccess ip lim \<and>
      (presents5 (SOCKS5User cfg) (SOCKS5Pass cfg) s \<or> SOCKS5Pass cfg = [] \<and> presents4 (SOCKS5User cfg) s)"
    using c s4 by (auto split: if_splits)
  have p5: "out = [SOCKS5_VERSION, SOCKS5_AUTH_METHOD_USER_PASS, SOCKS5_USER_AUTH_VERSION, SOCKS5_USER_AUTH_FAILURE] \<and>
      lim' = noteLoginFailure ip now lim \<and> act = ConnClosed"
    if p: "presents5 user pass s" "user \<noteq> SOCKS5User cfg \<or> pass \<noteq> SOCKS5Pass cfg" for user pass
  proof -
    obtain t where t: "s = SOCKS5_VERSION # t" using p(1) unfolding presents5_def by auto
    show ?thesis
      using assms(2) handleSOCKS5Request_presents [OF assms(1) p(1) [unfolded t] p(2)] HandleSOCKS5_version(1) [OF nb] by (simp add: t)
  qed
  have p4: "(if supportsSOCKS4 cfg then out = socks4Reply False \<and> lim' = noteLoginFailure ip now lim else out = [] \<and> lim' = lim) \<and>
      act = ConnClosed" if p: "presents4 user s" "user \<noteq> SOCKS5User cfg" for user
  proof -
    obtain t where t: "s = SOCKS4_VERSION # t" using p(1) unfolding presents4_def by auto
    show ?thesis
      using assms(2) handleSOCKS4Request_presents [OF assms(1) p(1) [unfolded t] p(2)] HandleSOCKS5_version(2) [OF nb]
      by (simp add: t split: if_splits)
  qed
  have "\<not> attemptsLogin cfg s \<longrightarrow> lim' = lim \<and> act = ConnClosed"
    using c unfolding attemptsLogin_def by blast
  with nb fwd p5 p4 show ?thesis by blast
qed

definition loginConfig :: socksConfig where
  "loginConfig = \<lparr>SOCKS5Auth = True, SOCKS5User = [117], SOCKS5Pass = [112]\<rparr>"

theorem no_access_without_login_witness:
  "\<exists>out lim' act. HandleSOCKS5 loginConfig [49] 1 2 None [5, 1, 2, 1, 1, 117, 1, 113] = (out, lim', act) \<and>
     out = [5, 2, 1, 1] \<and> lim' = noteLoginFailure [49] 2 None \<and> act = ConnClosed"
proof -
  obtain out lim' act where h: "HandleSOCKS5 loginConfig [49] 1 2 None [5, 1, 2, 1, 1, 117, 1, 113] = (out, lim', act)"
    by (rule prod_cases3)
  have "presents5 [117] [113] [5, 1, 2, 1, 1, 117, 1, 113]"
    unfolding presents5_def by (intro exI [of _ "[2]"] exI [of _ "[]"]) simp
  then have "out = [5, 2, 1, 1] \<and> lim' = noteLoginFailure [49] 2 None \<and> act = ConnClosed"
    using no_access_without_login [OF _ h, THEN conjunct2, THEN conjunct1, rule_format, of "[117]" "[113]"]
    by (simp add: loginConfig_def blockedBy_def)
  with h show ?thesis
    by blast
qed

section \<open>Forwarding\<close>

lemma readSocksAddr_form:
  "hostForm atyp blk host \<Longrightarrow> readSocksAddr atyp (blk @ rest) = Some (host, rest)"
  by (auto simp: hostForm_def readSocksAddr_def readFull_append unat_of_nat_u8)

lemma socks5Command_connect:
  assumes "hostForm atyp blk host"
  shows "socks5Command out lim ([SOCKS5_VERSION, SOCKS5_CMD_CONNECT, 0, atyp] @ blk @ be16 port @ rest) =
    (out, lim, SocksConnect host port atyp SOCKS5_VERSION)"
proof -
  have "readFull 4 ([SOCKS5_VERSION, SOCKS5_CMD_CONNECT, 0, atyp] @ blk @ be16 port @ rest) =
      Some ([SOCKS5_VERSION, SOCKS5_CMD_CONNECT, 0, atyp], blk @ be16 port @ rest)"
    by (rule readFull_append) simp
  moreover have "readFull 2 (be16 port @ rest) = Some (be16 port, rest)"
    by (rule readFull_append) simp
  moreover have "rd16 (be16 port) 0 = port"
    using rd16_be16 [of port "[]"] by simp
  ultimately show ?thesis
    using readSocksAddr_form [OF assms] by (simp add: socks5Command_def)
qed

text \<open>A SOCKS5 CONNECT without authentication, from an address that is not banned.\<close>

lemma HandleSOCKS5_connect:
  assumes "\<not> SOCKS5Auth cfg" and "\<not> blockedBy ip checked lim" and "length methods \<le> 255"
    and "SOCKS5_AUTH_METHOD_NO_AUTH \<in> set methods" and "hostForm atyp blk host"
  shows "HandleSOCKS5 cfg ip checked now lim
      (SOCKS5_VERSION # of_nat (length methods) # methods @ [SOCKS5_VERSION, SOCKS5_CMD_CONNECT, 0, atyp] @ blk @ be16 port @ rest) =
    ([SOCKS5_VERSION, SOCKS5_AUTH_METHOD_NO_AUTH], lim, SocksConnect host port atyp SOCKS5_VERSION)"
proof -
  have "handleSOCKS5Request cfg ip now lim
      (of_nat (length methods) # methods @ [SOCKS5_VERSION, SOCKS5_CMD_CONNECT, 0, atyp] @ blk @ be16 port @ rest) =
    socks5Command [SOCKS5_VERSION, SOCKS5_AUTH_METHOD_NO_AUTH] lim ([SOCKS5_VERSION, SOCKS5_CMD_CONNECT, 0, atyp] @ blk @ be16 port @ rest)"
    using assms(1,3,4) by (simp add: handleSOCKS5Request_def unat_of_nat_u8 readFull_append selectMethod_def)
  then show ?thesis
    using assms(2) socks5Command_connect [OF assms(5)] by (simp add: HandleSOCKS5_def blockedBy_def)
qed

lemma connectTargetPayload_form:
  assumes "hostForm atyp blk host"
  shows "connectTargetPayload host port atyp = Some (atyp # blk @ be16 port)"
proof -
  have v4: "ParseIP (IPString blk) = Some (v4InV6Prefix @ blk)" "To4 (v4InV6Prefix @ blk) = Some blk" if "length blk = 4"
    using ParseIP_IPString [of blk] that by (auto simp: To16_def To4_def v4InV6Prefix_def)
  have v6: "ParseIP (IPString blk) = Some blk" "To16 blk = Some blk" if "length blk = 16"
    using ParseIP_IPString [of blk] that by (auto simp: To16_def)
  show ?thesis
    using assms v4 v6 by (auto simp: hostForm_def connectTargetPayload_def)
qed

section \<open>Fragments\<close>

lemma fragmentFrom_concat: "0 < mtu \<Longrightarrow> concat (fragmentFrom i mtu p) = drop i p"
proof (induction i mtu p rule: fragmentFrom.induct)
  case (1 i mtu p)
  show ?case
  proof (cases "i < length p")
    case True
    have "slice p i (min (i + mtu) (length p)) @ drop (i + mtu) p = drop i p"
      by (metis add.commute append_take_drop_id diff_add_inverse drop_all drop_drop linorder_le_cases min.absorb1 min.absorb2 slice_def take_all length_drop append_Nil2 order_refl)
    then show ?thesis
      using 1 True by (subst fragmentFrom.simps) simp
  qed (simp add: fragmentFrom.simps)
qed

lemma fragmentFrom_nonempty: "[] \<notin> set (fragmentFrom i mtu p)"
proof (induction i mtu p rule: fragmentFrom.induct)
  case (1 i mtu p)
  show ?case
    using 1 by (subst fragmentFrom.simps) (auto simp: slice_def)
qed

lemma fragmentFrom_length: "0 < mtu \<Longrightarrow> length (fragmentFrom i mtu p) * mtu < length p - i + mtu"
proof (induction i mtu p rule: fragmentFrom.induct)
  case (1 i mtu p)
  show ?case
  proof (cases "i < length p")
    case True
    have IH: "length (fragmentFrom (i + mtu) mtu p) * mtu < length p - (i + mtu) + mtu"
      using 1 True by simp
    have "length (fragmentFrom i mtu p) * mtu = mtu + length (fragmentFrom (i + mtu) mtu p) * mtu"
      using 1(2) True by (subst fragmentFrom.simps) simp
    moreover have "length (fragmentFrom (i + mtu) mtu p) * mtu = 0" if "\<not> i + mtu \<le> length p"
      using that by (simp add: fragmentFrom.simps)
    ultimately show ?thesis
      using IH True by (cases "i + mtu \<le> length p") linarith+
  qed (use 1(2) in \<open>simp add: fragmentFrom.simps\<close>)
qed

text \<open>The pieces of a payload: what the reassembly needs of them.\<close>

lemma fragmentPayload_pieces:
  assumes "0 < mtu" and "p \<noteq> []" and "int (length p) \<le> 255 * mtu"
  obtains ds where "fragmentPayload p mtu = Some ds" and "concat ds = p" and "[] \<notin> set ds" and "length ds \<le> 255" and "ds \<noteq> []"
proof (cases "int (length p) \<le> mtu")
  case True
  then show ?thesis
    using that [of "[p]"] assms by (simp add: fragmentPayload_def)
next
  case False
  let ?ds = "fragmentFrom 0 (nat mtu) p"
  have c: "concat ?ds = p"
    using fragmentFrom_concat [of "nat mtu" 0 p] assms(1) by simp
  have "length ?ds * nat mtu < length p + nat mtu"
    using fragmentFrom_length [of "nat mtu" 0 p] assms(1) by simp
  also have "\<dots> \<le> 256 * nat mtu"
    using assms(1,3) by simp
  finally have "length ?ds \<le> 255"
    by simp
  moreover have "?ds \<noteq> []"
    using c assms(2) by auto
  ultimately show ?thesis
    using that [of ?ds] c fragmentFrom_nonempty False assms by (simp add: fragmentPayload_def)
qed

text \<open>
  The reply to a UDP association takes its address type from the local address of the control
  connection and its address from the UDP socket. A socket bound to \<open>0.0.0.0\<close> on a dual-stack system
  reports \<open>::\<close>, and the reply with the IPv4 type then has no address at all.
\<close>

lemma associate_reply_without_address:
  "socksReply SOCKS5_REPLY_SUCCESS SOCKS5_ATYP_IPV4 (replicate 16 0) port = [SOCKS5_VERSION, SOCKS5_REPLY_SUCCESS, 0, SOCKS5_ATYP_IPV4] @ be16 port"
proof -
  have "(replicate 12 0 :: bytes) ! 10 \<noteq> v4InV6Prefix ! 10"
    by (simp add: v4InV6Prefix_def nth_append)
  then have "replicate 12 0 \<noteq> v4InV6Prefix"
    by metis
  then show ?thesis
    by (simp add: socksReply_def To4_def)
qed

end
