(* ===== verification/Stream_Ids.thy ===== *)
theory Stream_Ids
  imports Prelude
begin

text \<open>
  Allocation of stream IDs on the client (\<open>get_new_stream_id\<close> in \<open>internal/client/stream_client.go\<close>): a
  circular 16-bit counter that skips 0 and the IDs of active streams. The loop has no bound in the code;
  it is shown to end, with the first free ID in cyclic order or with failure when all are in use.
\<close>

lemma unat_add_1_u16: "i + 1 \<noteq> 0 \<Longrightarrow> unat (i + 1 :: u16) = Suc (unat i)"
  by (simp add: unatSuc add.commute)

lemma unat_max_u16: "i + 1 = (0 :: u16) \<Longrightarrow> unat i = 65535"
proof -
  assume "i + 1 = 0"
  then have "i = - 1" by (simp add: add_eq_0_iff2)
  then show ?thesis by (simp add: unsigned_minus_1_eq_mask mask_eq_exp_minus_1)
qed

section \<open>The search\<close>

text \<open>The loop of the search: the ID under test and whether the counter has wrapped around.\<close>

function streamIdLoop :: "(u16, 's) gomap \<Rightarrow> u16 \<Rightarrow> u16 \<Rightarrow> bool \<Rightarrow> u16 option" where
  "streamIdLoop active_streams start i wrapped =
     (if mget active_streams i = None then Some i
      else
        let i = i + 1 in
        if i = 0 \<and> wrapped then None
        else
          let wrapped' = (wrapped \<or> i = 0); i = (if i = 0 then 1 else i)
          in if wrapped' \<and> i = start then None else streamIdLoop active_streams start i wrapped')"
  by pat_completeness auto

termination
proof (relation "measure (\<lambda>(_, _, i, wrapped). (if wrapped then 0 else 65536) + (65536 - unat i))", goal_cases)
  case (2 active start i wrapped x y z)
  have "unat i \<le> 65535" using unat_u16_lt [of i] by linarith
  then show ?case
    using 2 unat_add_1_u16 [of i] unat_max_u16 [of i] by (cases "i + 1 = 0") auto
qed simp

declare streamIdLoop.simps [simp del]

text \<open>The result with the new value of the counter.\<close>

definition get_new_stream_id :: "(u16, 's) gomap \<Rightarrow> u16 \<Rightarrow> (u16 \<times> bool) \<times> u16" where
  "get_new_stream_id active_streams last_stream_id =
     (let start = (if last_stream_id + 1 = 0 then 1 else last_stream_id + 1)
      in case streamIdLoop active_streams start start False of
           Some i \<Rightarrow> ((i, True), i)
         | None \<Rightarrow> ((0, False), last_stream_id))"

section \<open>Cyclic order\<close>

text \<open>The IDs from \<open>start\<close> to the largest, then from 1 up to \<open>start\<close>.\<close>

definition idsFrom :: "u16 \<Rightarrow> u16 list" where
  "idsFrom start = map of_nat ([unat start..<65536] @ [1..<unat start])"

lemma streamIdLoop_wrapped:
  assumes "unat i < unat start"
  shows "streamIdLoop m start i True = find (\<lambda>j. mget m j = None) (map of_nat [unat i..<unat start])"
  using assms
proof (induction "unat start - unat i" arbitrary: i)
  case (Suc n)
  have b: "unat start \<le> 65535" using unat_u16_lt [of start] by linarith
  then have i: "i + 1 \<noteq> 0" using Suc.prems unat_max_u16 [of i] by auto
  note u = unat_add_1_u16 [OF i]
  have l: "[unat i..<unat start] = unat i # [unat (i + 1)..<unat start]"
    using Suc.prems by (simp add: u upt_conv_Cons)
  show ?case
  proof (cases "i + 1 = start")
    case True
    then show ?thesis using i by (subst streamIdLoop.simps) (auto simp: l)
  next
    case False
    then have "unat (i + 1) \<noteq> unat start" using unsigned_word_eqI [of "i + 1" start] by blast
    then have "unat (i + 1) < unat start" using Suc.prems u by simp
    with Suc.hyps(1) [of "i + 1"] Suc.hyps(2) u False i show ?thesis
      by (subst streamIdLoop.simps) (simp add: l)
  qed
qed simp

lemma streamIdLoop_find:
  assumes "start \<noteq> 0" "unat start \<le> unat i"
  shows "streamIdLoop m start i False = find (\<lambda>j. mget m j = None) (map of_nat ([unat i..<65536] @ [1..<unat start]))"
  using assms(2)
proof (induction "65535 - unat i" arbitrary: i)
  case (0 i)
  have "unat i \<le> 65535" using unat_u16_lt [of i] by linarith
  with 0 have e: "unat i = 65535" by simp
  then have i: "i + 1 = 0" using unat_add_1_u16 [of i] unat_u16_lt [of "i + 1"] by fastforce
  have l: "[unat i..<65536] = [unat i]" by (simp add: e)
  show ?case
  proof (cases "start = 1")
    case True
    then show ?thesis using i by (subst streamIdLoop.simps) (auto simp: l)
  next
    case False
    have "unat start \<noteq> unat (0 :: u16)" "unat start \<noteq> unat (1 :: u16)"
      using assms(1) False unsigned_word_eqI [of start] by blast+
    then have "unat (1 :: u16) < unat start" by simp
    from streamIdLoop_wrapped [OF this, of m] i False show ?thesis
      by (subst streamIdLoop.simps) (auto simp: l)
  qed
next
  case (Suc n i)
  then have i: "i + 1 \<noteq> 0" using unat_max_u16 [of i] by auto
  note u = unat_add_1_u16 [OF i]
  have l: "[unat i..<65536] = unat i # [unat (i + 1)..<65536]"
    using Suc.hyps(2) by (simp add: u upt_conv_Cons)
  show ?case
    using Suc.hyps(1) [of "i + 1"] Suc.hyps(2) Suc.prems u i by (subst streamIdLoop.simps) (simp add: l)
qed

lemma set_idsFrom: "start \<noteq> 0 \<Longrightarrow> set (idsFrom start) = UNIV - {0}"
proof -
  assume s: "start \<noteq> 0"
  then have p: "0 < unat start" by (simp add: unat_gt_0)
  have "set ([unat start..<65536] @ [1..<unat start]) = {1..<65536}"
  proof -
    have "unat start \<le> 65536" using unat_u16_lt [of start] by linarith
    then show ?thesis using p by (simp only: set_append set_upt) auto
  qed
  then have "set (idsFrom start) = of_nat ` {1..<65536 :: nat}" by (simp only: idsFrom_def set_map)
  also have "\<dots> = UNIV - {0 :: u16}"
  proof (intro set_eqI iffI)
    fix w :: u16 assume "w \<in> UNIV - {0}"
    then have "unat w \<in> {1..<65536}" using unat_u16_lt [of w] by (simp add: unat_gt_0 Suc_le_eq)
    then show "w \<in> of_nat ` {1..<65536}" by (intro image_eqI [of _ _ "unat w"]) simp_all
  next
    fix w :: u16 assume "w \<in> of_nat ` {1..<65536}"
    then obtain n where n: "w = of_nat n" "1 \<le> n" "n < 65536" by auto
    then have "unat w = n" by (simp add: unat_of_nat_u16)
    then show "w \<in> UNIV - {0}" using n by auto
  qed
  finally show ?thesis .
qed

text \<open>
  C21. The search for a stream ID always ends, and it ends with the first ID in cyclic order after the
  last one given out that no active stream has, which is never 0 and becomes the new counter; it reports
  failure, and leaves the counter, exactly when all 65535 IDs are in use.
\<close>

theorem stream_id_search:
  "case find (\<lambda>j. mget m j = None) (idsFrom (if lastID + 1 = 0 then 1 else lastID + 1)) of
     Some i \<Rightarrow> get_new_stream_id m lastID = ((i, True), i) \<and> i \<noteq> 0 \<and> mget m i = None
   | None \<Rightarrow> get_new_stream_id m lastID = ((0, False), lastID) \<and> (\<forall>i. i \<noteq> 0 \<longrightarrow> mget m i \<noteq> None)"
proof -
  define start where "start = (if lastID + 1 = 0 then 1 else lastID + 1)"
  have s: "start \<noteq> 0" by (simp add: start_def)
  have g: "streamIdLoop m start start False = find (\<lambda>j. mget m j = None) (idsFrom start)"
    unfolding idsFrom_def by (rule streamIdLoop_find [OF s order_refl])
  have r: "get_new_stream_id m lastID = (case find (\<lambda>j. mget m j = None) (idsFrom start) of
      Some i \<Rightarrow> ((i, True), i) | None \<Rightarrow> ((0, False), lastID))"
    unfolding get_new_stream_id_def start_def [symmetric] Let_def g ..
  show ?thesis
  proof (cases "find (\<lambda>j. mget m j = None) (idsFrom start)")
    case None
    have "mget m i \<noteq> None" if "i \<noteq> 0" for i
    proof -
      have "i \<in> set (idsFrom start)" unfolding set_idsFrom [OF s] using that by blast
      moreover have "\<forall>x \<in> set (idsFrom start). mget m x \<noteq> None" using None unfolding find_None_iff by simp
      ultimately show ?thesis by (rule bspec [rotated])
    qed
    then show ?thesis unfolding start_def [symmetric] None r by simp
  next
    case (Some i)
    obtain k where "k < length (idsFrom start)" "mget m (idsFrom start ! k) = None" "i = idsFrom start ! k"
      using Some unfolding find_Some_iff by blast
    then have "i \<in> set (idsFrom start)" "mget m i = None" by (simp_all add: nth_mem)
    then have "i \<noteq> 0" "mget m i = None" unfolding set_idsFrom [OF s] by blast+
    then show ?thesis unfolding start_def [symmetric] Some r by simp
  qed
qed

lemma upt_three: "3 \<le> n \<Longrightarrow> [1..<n] = 1 # 2 # [3..<n]"
  by (simp add: upt_conv_Cons numeral_eq_Suc)

lemma idsFrom_last: "\<exists>rest. idsFrom 65535 = 65535 # 1 # 2 # rest"
proof -
  have u: "unat (65535 :: u16) = 65535" by simp
  have "[65535..<Suc 65535] = [65535]" by (simp only: upt_Suc order_refl if_True upt_conv_Nil append_Nil)
  then have "[65535..<65536 :: nat] = [65535]" by (simp only: Suc_numeral semiring_norm)
  moreover have "[1..<65535 :: nat] = 1 # 2 # [3..<65535]" by (rule upt_three) simp
  ultimately show ?thesis unfolding idsFrom_def u by (simp only: list.map append.simps of_nat_numeral of_nat_1) blast
qed

theorem stream_id_search_witness:
  "get_new_stream_id [(65535, ''a''), (1, ''b'')] 65534 = ((2, True), 2)"
proof -
  obtain rest where "idsFrom 65535 = 65535 # 1 # 2 # rest" using idsFrom_last by blast
  then have "find (\<lambda>j. mget [(65535, ''a''), (1, ''b'')] j = None) (idsFrom 65535) = Some 2" by simp
  with stream_id_search [of "[(65535, ''a''), (1, ''b'')]" 65534] show ?thesis by simp
qed

end
