(* ===== verification/Arq_State.thy ===== *)
theory Arq_State
  imports Enums
begin

text \<open>
  State of the reliable stream transport (\<open>internal/arq/arq.go\<close>): the records of the send and control
  buffers, the configuration, the stream with its flags, and the adaptive retransmission timeout.
  The transmit queue of the stream is a type parameter; its operations, the interfaces
  \<open>PacketEnqueuer\<close>, \<open>queuedDataRemover\<close>, \<open>queuedDataNackRemover\<close> and \<open>terminalOwner\<close>, are a record.
  Every operation takes one clock reading; a lock that is released and taken again within an
  operation is not interleaved with others.
\<close>

section \<open>Types\<close>

datatype StreamState =
    StateOpen | StateHalfClosedLocal | StateHalfClosedRemote | StateClosing | StateReset | StateClosed
  | StateDraining | StateTimeWait

datatype ioErrorClass = ioErrorFatal | ioErrorTimeout | ioErrorEOF | ioErrorClosed | ioErrorTransient

record arqDataItem =
  d_Data :: bytes
  d_CreatedAt :: instant
  d_LastSentAt :: instant
  d_Dispatched :: bool
  d_LastNackSentAt :: instant
  d_Retries :: int
  d_CurrentRTO :: duration
  d_SampleEligible :: bool
  d_CompressionType :: u8
  d_TTL :: duration

record arqControlItem =
  c_PacketType :: u8
  c_SequenceNum :: u16
  c_FragmentID :: u8
  c_TotalFragments :: u8
  c_AckType :: u8
  c_Payload :: bytes
  c_Priority :: int
  c_CreatedAt :: instant
  c_LastSentAt :: instant
  c_Dispatched :: bool
  c_Retries :: int
  c_CurrentRTO :: duration
  c_SampleEligible :: bool
  c_TTL :: duration

record adaptiveRTOState =
  srtt :: duration
  rttvar :: duration
  currentBase :: duration
  initialized :: bool

record rtxJob =
  j_sn :: u16
  j_data :: bytes
  j_compressionType :: u8

type_synonym rxPayload = "u16 \<times> bytes"

text \<open>The local connection: what was written to it, and whether it is closed for writing or at all.\<close>

record localConn =
  connWritten :: bytes
  connWriteClosed :: bool
  connClosed :: bool

text \<open>The operations a transmit queue provides; an interface it does not implement does nothing.\<close>

record 'q enqueuerOps =
  pushTX :: "int \<Rightarrow> u8 \<Rightarrow> u16 \<Rightarrow> u8 \<Rightarrow> u8 \<Rightarrow> u8 \<Rightarrow> duration \<Rightarrow> bytes \<Rightarrow> 'q \<Rightarrow> bool \<times> 'q"
  removeQueuedData :: "u16 \<Rightarrow> 'q \<Rightarrow> 'q"
  removeQueuedDataNack :: "u16 \<Rightarrow> 'q \<Rightarrow> 'q"
  onARQClosed :: "string \<Rightarrow> 'q \<Rightarrow> 'q"

record 'q arq =
  a_streamID :: u16
  a_sessionID :: u8
  a_ioReady :: bool
  a_streamWorkersStarted :: bool
  a_enqueuer :: 'q
  a_localConn :: "localConn option"
  a_mtu :: int
  a_compressionType :: u8
  a_sndNxt :: u16
  a_rcvNxt :: u16
  a_sndBuf :: "(u16, arqDataItem) gomap"
  a_rcvBuf :: "(u16, bytes) gomap"
  a_controlSndBuf :: "(u32, arqControlItem) gomap"
  a_state :: StreamState
  a_closed :: bool
  a_closeReason :: string
  a_lastActivity :: instant
  a_closeReadSent :: bool
  a_closeReadReceived :: bool
  a_closeReadAcked :: bool
  a_closeReadSeqSent :: "u16 option"
  a_closeWriteSent :: bool
  a_closeWriteReceived :: bool
  a_closeWriteAcked :: bool
  a_closeWriteSeqSent :: "u16 option"
  a_rstReceived :: bool
  a_rstSent :: bool
  a_rstAcked :: bool
  a_rstSeqSent :: "u16 option"
  a_localWriteClosed :: bool
  a_localWriterBroken :: bool
  a_localWritePending :: bool
  a_stopLocalRead :: bool
  a_deferredClose :: bool
  a_deferredReason :: string
  a_deferredDeadline :: instant
  a_deferredPacket :: u8
  a_clientEOFAt :: instant
  a_closeReadAckedAt :: instant
  a_lastDuplicateAckAt :: instant
  a_waitingAck :: bool
  a_waitingAckFor :: u8
  a_ackWaitDeadline :: instant
  a_drainProgressAt :: instant
  a_drainQueueFailAt :: instant
  a_drainQueueFails :: int
  a_drainStallLogged :: bool
  a_IsClient :: bool
  a_windowSize :: int
  a_receiveWindowSize :: int
  a_limit :: int
  a_windowNotFull :: bool
  a_rto :: duration
  a_maxRTO :: duration
  a_inactivityTimeout :: duration
  a_dataPacketTTL :: duration
  a_maxDataRetries :: int
  a_terminalDrainTimeout :: duration
  a_terminalAckWait :: duration
  a_enableControlReliability :: bool
  a_controlRto :: duration
  a_controlMaxRto :: duration
  a_controlMaxRetries :: int
  a_controlPacketTTL :: duration
  a_dataAdaptiveRTO :: adaptiveRTOState
  a_controlAdaptiveRTO :: adaptiveRTOState
  a_dataNackMaxGap :: int
  a_dataNackInitialDelay :: duration
  a_dataNackRepeatInterval :: duration
  a_isVirtual :: bool
  a_firstDataNackSeen :: "(u16, instant) gomap"
  a_lastDataNackSent :: "(u16, instant) gomap"
  a_ctxDone :: bool
  a_flushSignal :: bool
  a_rxChan :: "rxPayload list"
  a_rxCap :: int
  a_pendingInbound :: int

text \<open>
  A floating-point field of the configuration stands for the duration that its product with
  \<open>time.Second\<close> converts to; the conversion is monotone, so it commutes with the clamps.
\<close>

record arqConfig =
  cf_WindowSize :: int
  cf_RTO :: duration
  cf_MaxRTO :: duration
  cf_IsVirtual :: bool
  cf_StartPaused :: bool
  cf_EnableControlReliability :: bool
  cf_ControlRTO :: duration
  cf_ControlMaxRTO :: duration
  cf_ControlMaxRetries :: int
  cf_InactivityTimeout :: duration
  cf_DataPacketTTL :: duration
  cf_MaxDataRetries :: int
  cf_ControlPacketTTL :: duration
  cf_DataNackMaxGap :: int
  cf_DataNackInitialDelay :: duration
  cf_DataNackRepeat :: duration
  cf_TerminalDrainTimeout :: duration
  cf_TerminalAckWaitTimeout :: duration
  cf_CompressionType :: u8
  cf_IsClient :: bool
  cf_InboundQueueSize :: int

record CloseOptions =
  Force :: bool
  SendRST :: bool
  SendCloseWrite :: bool
  SendCloseRead :: bool
  AfterDrain :: bool
  closeTTL :: duration

section \<open>Arithmetic\<close>

text \<open>Go's integer division truncates toward zero.\<close>

definition goQuot :: "int \<Rightarrow> int \<Rightarrow> int" where
  "goQuot x y = sgn x * sgn y * (\<bar>x\<bar> div \<bar>y\<bar>)"

fun bitLength :: "nat \<Rightarrow> nat" where
  "bitLength n = (if n = 0 then 0 else Suc (bitLength (n div 2)))"

declare bitLength.simps [simp del]

text \<open>Rounding to the 53 significant bits of a \<open>float64\<close>, to nearest, ties to even.\<close>

definition roundFloat64 :: "nat \<Rightarrow> nat" where
  "roundFloat64 p =
     (if bitLength p \<le> 53 then p
      else
        let s = bitLength p - 53; q = p div 2 ^ s; r = p mod 2 ^ s; half = 2 ^ (s - 1)
        in (if half < r \<or> half = r \<and> odd q then q + 1 else q) * 2 ^ s)"

text \<open>
  \<open>int64(float64(x) * f)\<close> for the constant \<open>f = m / 2 ^ k\<close>: scaling by a power of two does not change
  the rounding.
\<close>

definition scaleFloat64 :: "nat \<Rightarrow> nat \<Rightarrow> int \<Rightarrow> int" where
  "scaleFloat64 m k x = sgn x * int (roundFloat64 (roundFloat64 (nat \<bar>x\<bar>) * m) div 2 ^ k)"

text \<open>The \<open>float64\<close> values nearest to 1.35, 1.25, 1.15 and 0.8.\<close>

definition dataRetransmitRTOGrowth :: "duration \<Rightarrow> duration" where
  "dataRetransmitRTOGrowth d = scaleFloat64 3039929748475085 51 d"

definition controlRetransmitRTOGrowth :: "duration \<Rightarrow> duration" where
  "controlRetransmitRTOGrowth d = scaleFloat64 5 2 d"

definition setupControlRTOGrowth :: "duration \<Rightarrow> duration" where
  "setupControlRTOGrowth d = scaleFloat64 2589569785738035 51 d"

definition eightTenths :: "int \<Rightarrow> int" where
  "eightTenths n = scaleFloat64 3602879701896397 52 n"

definition absDuration :: "duration \<Rightarrow> duration" where
  "absDuration d = (if d < 0 then - d else d)"

definition clampDuration :: "duration \<Rightarrow> duration \<Rightarrow> duration \<Rightarrow> duration" where
  "clampDuration v minV maxV = (if v < minV then minV else if maxV < v then maxV else v)"

text \<open>A \<open>time.Duration\<close> is an \<open>int64\<close>: arithmetic on it wraps around.\<close>

definition wrapInt64 :: "int \<Rightarrow> int" where
  "wrapInt64 x = (x + 2 ^ 63) mod 2 ^ 64 - 2 ^ 63"

definition updateAdaptiveRTO :: "adaptiveRTOState \<Rightarrow> duration \<Rightarrow> duration \<Rightarrow> duration \<Rightarrow> adaptiveRTOState" where
  "updateAdaptiveRTO st sample minRTO maxRTO =
     (let sample = clampDuration sample minRTO maxRTO;
          st = (if \<not> initialized st then st\<lparr>srtt := sample, rttvar := goQuot sample 2, initialized := True\<rparr>
                else
                  let delta = wrapInt64 (absDuration (wrapInt64 (srtt st - sample)))
                  in st\<lparr>rttvar := goQuot (wrapInt64 (3 * rttvar st + delta)) 4, srtt := goQuot (wrapInt64 (7 * srtt st + sample)) 8\<rparr>)
      in st\<lparr>currentBase := clampDuration (wrapInt64 (srtt st + 4 * rttvar st)) minRTO maxRTO\<rparr>)"

definition isSetupControlPacketType :: "u8 \<Rightarrow> bool" where
  "isSetupControlPacketType t \<longleftrightarrow> t = PACKET_STREAM_SYN \<or> t = PACKET_SOCKS5_SYN"

definition controlKey :: "u8 \<Rightarrow> u16 \<Rightarrow> u8 \<Rightarrow> u32" where
  "controlKey packetType sequenceNum fragmentID =
     push_bit 24 (ucast packetType) OR push_bit 8 (ucast sequenceNum) OR ucast fragmentID"

section \<open>Construction\<close>

definition inboundQueueSize :: "arqConfig \<Rightarrow> int \<Rightarrow> int" where
  "inboundQueueSize cfg windowSize =
     (if 0 < cf_InboundQueueSize cfg then cf_InboundQueueSize cfg
      else if windowSize \<le> 512 then windowSize * 4
      else if windowSize \<le> 2048 then windowSize * 2
      else windowSize + goQuot windowSize 2)"

definition NewARQ :: "u16 \<Rightarrow> u8 \<Rightarrow> 'q \<Rightarrow> localConn option \<Rightarrow> int \<Rightarrow> arqConfig \<Rightarrow> instant \<Rightarrow> 'q arq" where
  "NewARQ streamID sessionID enqueuer conn mtu cfg now =
     (let windowSize = max (cf_WindowSize cfg) 300;
          userMaxRto = max (50 * millisecond) (cf_MaxRTO cfg);
          rto = min (max (50 * millisecond) (cf_RTO cfg)) userMaxRto;
          userControlMaxRto = max (50 * millisecond) (cf_ControlMaxRTO cfg);
          controlRto = min (max (50 * millisecond) (cf_ControlRTO cfg)) userControlMaxRto
      in \<lparr>a_streamID = streamID, a_sessionID = sessionID, a_ioReady = \<not> cf_StartPaused cfg, a_streamWorkersStarted = False,
          a_enqueuer = enqueuer, a_localConn = conn, a_mtu = mtu, a_compressionType = cf_CompressionType cfg,
          a_sndNxt = 0, a_rcvNxt = 0, a_sndBuf = [], a_rcvBuf = [], a_controlSndBuf = [],
          a_state = StateOpen, a_closed = False, a_closeReason = '''', a_lastActivity = now,
          a_closeReadSent = False, a_closeReadReceived = False, a_closeReadAcked = False, a_closeReadSeqSent = None,
          a_closeWriteSent = False, a_closeWriteReceived = False, a_closeWriteAcked = False, a_closeWriteSeqSent = None,
          a_rstReceived = False, a_rstSent = False, a_rstAcked = False, a_rstSeqSent = None,
          a_localWriteClosed = False, a_localWriterBroken = False, a_localWritePending = False, a_stopLocalRead = False,
          a_deferredClose = False, a_deferredReason = '''', a_deferredDeadline = 0, a_deferredPacket = 0,
          a_clientEOFAt = 0, a_closeReadAckedAt = 0, a_lastDuplicateAckAt = 0,
          a_waitingAck = False, a_waitingAckFor = 0, a_ackWaitDeadline = 0,
          a_drainProgressAt = 0, a_drainQueueFailAt = 0, a_drainQueueFails = 0, a_drainStallLogged = False,
          a_IsClient = cf_IsClient cfg, a_windowSize = windowSize, a_receiveWindowSize = max windowSize (windowSize * 2),
          a_limit = max (eightTenths windowSize) 50, a_windowNotFull = True, a_rto = rto, a_maxRTO = userMaxRto,
          a_inactivityTimeout = max (120 * second) (cf_InactivityTimeout cfg),
          a_dataPacketTTL = max (120 * second) (cf_DataPacketTTL cfg),
          a_maxDataRetries = max 60 (cf_MaxDataRetries cfg),
          a_terminalDrainTimeout = max (60 * second) (cf_TerminalDrainTimeout cfg),
          a_terminalAckWait = max (30 * second) (cf_TerminalAckWaitTimeout cfg),
          a_enableControlReliability = cf_EnableControlReliability cfg, a_controlRto = controlRto, a_controlMaxRto = userControlMaxRto,
          a_controlMaxRetries = max 5 (cf_ControlMaxRetries cfg),
          a_controlPacketTTL = max (120 * second) (cf_ControlPacketTTL cfg),
          a_dataAdaptiveRTO = \<lparr>srtt = 0, rttvar = 0, currentBase = rto, initialized = False\<rparr>,
          a_controlAdaptiveRTO = \<lparr>srtt = 0, rttvar = 0, currentBase = controlRto, initialized = False\<rparr>,
          a_dataNackMaxGap = max 0 (cf_DataNackMaxGap cfg),
          a_dataNackInitialDelay = max 0 (cf_DataNackInitialDelay cfg),
          a_dataNackRepeatInterval = max (100 * millisecond) (cf_DataNackRepeat cfg),
          a_isVirtual = cf_IsVirtual cfg, a_firstDataNackSeen = [], a_lastDataNackSent = [],
          a_ctxDone = False, a_flushSignal = False, a_rxChan = [], a_rxCap = inboundQueueSize cfg windowSize, a_pendingInbound = 0\<rparr>)"

definition currentDataBaseRTO :: "'q arq \<Rightarrow> duration" where
  "currentDataBaseRTO a =
     (let base = currentBase (a_dataAdaptiveRTO a)
      in if base \<le> 0 then a_rto a else clampDuration base (a_rto a) (a_maxRTO a))"

definition currentControlBaseRTO :: "'q arq \<Rightarrow> duration" where
  "currentControlBaseRTO a =
     (let base = currentBase (a_controlAdaptiveRTO a)
      in if base \<le> 0 then a_controlRto a else clampDuration base (a_controlRto a) (a_controlMaxRto a))"

section \<open>The adaptive timeout\<close>

lemma goQuot_nonneg: "0 \<le> x \<Longrightarrow> 0 < y \<Longrightarrow> goQuot x y = x div y"
  by (cases "x = 0") (simp_all add: goQuot_def)

lemma wrapInt64_id: "- (2 ^ 63) \<le> x \<Longrightarrow> x < 2 ^ 63 \<Longrightarrow> wrapInt64 x = x"
  by (simp add: wrapInt64_def)

lemma clampDuration_bounds: "lo \<le> hi \<Longrightarrow> lo \<le> clampDuration v lo hi \<and> clampDuration v lo hi \<le> hi"
  by (simp add: clampDuration_def)

lemma clampDuration_id: "lo \<le> v \<Longrightarrow> v \<le> hi \<Longrightarrow> clampDuration v lo hi = v"
  by (simp add: clampDuration_def)

text \<open>With limits below \<open>2 ^ 60\<close> nanoseconds, some 36 years, no step of the estimator wraps around.\<close>

definition rto_ok :: "duration \<Rightarrow> duration \<Rightarrow> adaptiveRTOState \<Rightarrow> bool" where
  "rto_ok lo hi st \<longleftrightarrow>
     lo \<le> currentBase st \<and> currentBase st \<le> hi \<and>
     (initialized st \<longrightarrow> lo \<le> srtt st \<and> srtt st \<le> hi \<and> 0 \<le> rttvar st \<and> rttvar st \<le> hi)"

lemma updateAdaptiveRTO_first:
  assumes "\<not> initialized st" and "0 \<le> lo" and "lo \<le> hi" and "hi < 2 ^ 60"
  shows "updateAdaptiveRTO st x lo hi =
    (let y = clampDuration x lo hi
     in st\<lparr>srtt := y, rttvar := y div 2, initialized := True, currentBase := clampDuration (y + 4 * (y div 2)) lo hi\<rparr>)"
proof -
  let ?y = "clampDuration x lo hi"
  have y: "0 \<le> ?y" "?y \<le> hi"
    using clampDuration_bounds [OF assms(3), of x] assms(2) by simp_all
  have "wrapInt64 (?y + 4 * (?y div 2)) = ?y + 4 * (?y div 2)"
    using y assms(4) by (intro wrapInt64_id) simp_all
  then show ?thesis
    using assms(1) y by (simp add: updateAdaptiveRTO_def Let_def goQuot_nonneg)
qed

lemma updateAdaptiveRTO_next:
  assumes "initialized st" and "rto_ok lo hi st" and "0 \<le> lo" and "lo \<le> hi" and "hi < 2 ^ 60"
  shows "updateAdaptiveRTO st x lo hi =
    (let y = clampDuration x lo hi; v = (3 * rttvar st + \<bar>srtt st - y\<bar>) div 4; r = (7 * srtt st + y) div 8
     in st\<lparr>rttvar := v, srtt := r, currentBase := clampDuration (r + 4 * v) lo hi\<rparr>)"
proof -
  let ?y = "clampDuration x lo hi"
  let ?v = "(3 * rttvar st + \<bar>srtt st - ?y\<bar>) div 4" and ?r = "(7 * srtt st + ?y) div 8"
  have y: "0 \<le> ?y" "?y \<le> hi"
    using clampDuration_bounds [OF assms(4), of x] assms(3) by simp_all
  have s: "0 \<le> srtt st" "srtt st \<le> hi" "0 \<le> rttvar st" "rttvar st \<le> hi"
    using assms(1-3) by (simp_all add: rto_ok_def)
  have d: "\<bar>srtt st - ?y\<bar> \<le> hi"
    using y s by linarith
  have "wrapInt64 (srtt st - ?y) = srtt st - ?y"
    using y s assms(5) by (intro wrapInt64_id) simp_all
  moreover have "absDuration (srtt st - ?y) = \<bar>srtt st - ?y\<bar>"
    by (simp add: absDuration_def)
  moreover have "wrapInt64 \<bar>srtt st - ?y\<bar> = \<bar>srtt st - ?y\<bar>"
    using d assms(5) by (intro wrapInt64_id) simp_all
  moreover have "wrapInt64 (3 * rttvar st + \<bar>srtt st - ?y\<bar>) = 3 * rttvar st + \<bar>srtt st - ?y\<bar>"
    using d s assms(5) by (intro wrapInt64_id) simp_all
  moreover have "wrapInt64 (7 * srtt st + ?y) = 7 * srtt st + ?y"
    using y s assms(5) by (intro wrapInt64_id) simp_all
  moreover have "wrapInt64 (?r + 4 * ?v) = ?r + 4 * ?v"
  proof (rule wrapInt64_id)
    have "0 \<le> ?v" "?v \<le> hi" "0 \<le> ?r" "?r \<le> hi" using y s d by linarith+
    then show "- (2 ^ 63) \<le> ?r + 4 * ?v" "?r + 4 * ?v < 2 ^ 63" using assms(5) by simp_all
  qed
  ultimately show ?thesis
    using assms(1) y s by (simp add: updateAdaptiveRTO_def Let_def goQuot_nonneg)
qed

lemma updateAdaptiveRTO_ok:
  assumes "rto_ok lo hi st" and "0 \<le> lo" and "lo \<le> hi" and "hi < 2 ^ 60"
  shows "rto_ok lo hi (updateAdaptiveRTO st x lo hi)"
proof -
  let ?y = "clampDuration x lo hi"
  have y: "lo \<le> ?y" "?y \<le> hi"
    using clampDuration_bounds [OF assms(3), of x] by simp_all
  then have h: "0 \<le> ?y div 2" "?y div 2 \<le> hi"
    using assms(2) by linarith+
  show ?thesis
  proof (cases "initialized st")
    case False
    then show ?thesis
      using y h clampDuration_bounds [OF assms(3)]
      by (simp add: updateAdaptiveRTO_first [OF _ assms(2-4)] rto_ok_def Let_def)
  next
    case True
    then have s: "lo \<le> srtt st" "srtt st \<le> hi" "0 \<le> rttvar st" "rttvar st \<le> hi"
      using assms(1) by (simp_all add: rto_ok_def)
    then have "0 \<le> (3 * rttvar st + \<bar>srtt st - ?y\<bar>) div 4" "(3 * rttvar st + \<bar>srtt st - ?y\<bar>) div 4 \<le> hi"
      "lo \<le> (7 * srtt st + ?y) div 8" "(7 * srtt st + ?y) div 8 \<le> hi"
      using y assms(2) by linarith+
    then show ?thesis
      using True clampDuration_bounds [OF assms(3)]
      by (simp add: updateAdaptiveRTO_next [OF True assms] rto_ok_def Let_def)
  qed
qed

definition sampleRTO :: "duration \<Rightarrow> duration \<Rightarrow> duration list \<Rightarrow> adaptiveRTOState \<Rightarrow> adaptiveRTOState" where
  "sampleRTO lo hi xs st = fold (\<lambda>x st. updateAdaptiveRTO st x lo hi) xs st"

lemma sampleRTO_ok:
  "rto_ok lo hi st \<Longrightarrow> 0 \<le> lo \<Longrightarrow> lo \<le> hi \<Longrightarrow> hi < 2 ^ 60 \<Longrightarrow> rto_ok lo hi (sampleRTO lo hi xs st)"
  by (induction xs arbitrary: st) (simp_all add: sampleRTO_def updateAdaptiveRTO_ok)

text \<open>Under a steady round-trip time the deviation shrinks by a quarter with every sample.\<close>

lemma steady_samples:
  assumes "0 \<le> lo" and "lo \<le> x" and "x \<le> hi" and "hi < 2 ^ 60"
    and "initialized st" and "srtt st = x" and "rto_ok lo hi st" and "currentBase st = clampDuration (x + 4 * rttvar st) lo hi"
  shows "4 ^ n * rttvar (sampleRTO lo hi (replicate n x) st) \<le> 3 ^ n * rttvar st \<and>
         0 \<le> rttvar (sampleRTO lo hi (replicate n x) st) \<and>
         currentBase (sampleRTO lo hi (replicate n x) st) = clampDuration (x + 4 * rttvar (sampleRTO lo hi (replicate n x) st)) lo hi"
  using assms(5-8)
proof (induction n arbitrary: st)
  case 0
  then show ?case by (simp add: sampleRTO_def rto_ok_def)
next
  case (Suc n)
  let ?st = "updateAdaptiveRTO st x lo hi"
  have lh: "lo \<le> hi" using assms(2,3) by linarith
  have st: "?st = st\<lparr>rttvar := 3 * rttvar st div 4, currentBase := clampDuration (x + 4 * (3 * rttvar st div 4)) lo hi\<rparr>"
    using Suc.prems assms(2,3) by (simp add: updateAdaptiveRTO_next [OF _ _ assms(1) lh assms(4)] clampDuration_id Let_def)
  have "rto_ok lo hi ?st"
    using Suc.prems(3) assms(1,4) lh by (intro updateAdaptiveRTO_ok)
  then have ih: "4 ^ n * rttvar (sampleRTO lo hi (replicate n x) ?st) \<le> 3 ^ n * rttvar ?st \<and>
         0 \<le> rttvar (sampleRTO lo hi (replicate n x) ?st) \<and>
         currentBase (sampleRTO lo hi (replicate n x) ?st) = clampDuration (x + 4 * rttvar (sampleRTO lo hi (replicate n x) ?st)) lo hi"
    using Suc.prems st by (intro Suc.IH) simp_all
  have "4 * rttvar ?st \<le> 3 * rttvar st" by (simp add: st)
  then have "4 * (3 ^ n * rttvar ?st) \<le> 3 ^ Suc n * rttvar st"
    using mult_left_mono [of "4 * rttvar ?st" "3 * rttvar st" "3 ^ n"] by (simp add: mult_ac)
  then have "4 * (4 ^ n * rttvar (sampleRTO lo hi (replicate n x) ?st)) \<le> 3 ^ Suc n * rttvar st"
    using ih by linarith
  moreover have "sampleRTO lo hi (replicate (Suc n) x) st = sampleRTO lo hi (replicate n x) ?st"
    by (simp add: sampleRTO_def)
  ultimately show ?case
    using ih by (simp only: power_Suc mult.assoc)
qed

text \<open>
  C32. The adaptive retransmission timeout. Starting from the configured base, after any sequence of
  round-trip samples the base timeout lies between the configured minimum and maximum, limits
  below \<open>2 ^ 60\<close> nanoseconds. When the samples are steady at a value \<open>x\<close> within these limits, the base
  settles exactly at \<open>x\<close>, and quickly: as soon as \<open>3 ^ n * x < 2 * 4 ^ n\<close>, after the first sample and
  \<open>n\<close> more (71 samples for a round trip of one second).
\<close>

theorem adaptive_rto_bounded:
  assumes "0 \<le> lo" and "lo \<le> x" and "x \<le> hi" and "hi < 2 ^ 60" and "3 ^ n * x < 2 * 4 ^ n"
  shows "lo \<le> currentBase (sampleRTO lo hi xs \<lparr>srtt = 0, rttvar = 0, currentBase = lo, initialized = False\<rparr>) \<and>
         currentBase (sampleRTO lo hi xs \<lparr>srtt = 0, rttvar = 0, currentBase = lo, initialized = False\<rparr>) \<le> hi \<and>
         currentBase (sampleRTO lo hi (replicate (Suc n) x) \<lparr>srtt = 0, rttvar = 0, currentBase = lo, initialized = False\<rparr>) = x"
proof -
  let ?st = "\<lparr>srtt = 0, rttvar = 0, currentBase = lo, initialized = False\<rparr>"
  have lh: "lo \<le> hi" using assms(2,3) by linarith
  have start: "rto_ok lo hi ?st"
    using lh by (simp add: rto_ok_def)
  then have ok: "rto_ok lo hi (sampleRTO lo hi xs ?st)"
    using assms lh by (intro sampleRTO_ok)
  let ?first = "updateAdaptiveRTO ?st x lo hi" and ?last = "sampleRTO lo hi (replicate (Suc n) x) ?st"
  have f: "initialized ?first" "srtt ?first = x" "rttvar ?first = x div 2" "currentBase ?first = clampDuration (x + 4 * (x div 2)) lo hi"
    using assms(2,3) by (simp_all add: updateAdaptiveRTO_first [OF _ assms(1) lh assms(4)] clampDuration_id Let_def)
  have l: "?last = sampleRTO lo hi (replicate n x) ?first"
    by (simp add: sampleRTO_def)
  have s: "4 ^ n * rttvar ?last \<le> 3 ^ n * (x div 2) \<and> 0 \<le> rttvar ?last \<and> currentBase ?last = clampDuration (x + 4 * rttvar ?last) lo hi"
    using steady_samples [OF assms(1-4) f(1,2) updateAdaptiveRTO_ok [OF start assms(1) lh assms(4)], of n] f(3,4) unfolding l by simp
  have "3 ^ n * (2 * (x div 2)) \<le> 3 ^ n * x" by (intro mult_left_mono) simp_all
  then have "2 * (3 ^ n * (x div 2)) \<le> 3 ^ n * x" by (simp only: mult.left_commute)
  then have "4 ^ n * rttvar ?last < 4 ^ n * 1" using s assms(5) by linarith
  then have "rttvar ?last = 0" using s by (simp add: mult_less_cancel_left)
  then show ?thesis
    using ok s assms(2,3) by (simp add: rto_ok_def clampDuration_id)
qed

theorem adaptive_rto_bounded_witness:
  "50 * millisecond \<le> currentBase (sampleRTO (50 * millisecond) (5 * second) [100 * second, 1, second]
      \<lparr>srtt = 0, rttvar = 0, currentBase = 50 * millisecond, initialized = False\<rparr>) \<and>
   currentBase (sampleRTO (50 * millisecond) (5 * second) [100 * second, 1, second]
      \<lparr>srtt = 0, rttvar = 0, currentBase = 50 * millisecond, initialized = False\<rparr>) \<le> 5 * second \<and>
   currentBase (sampleRTO (50 * millisecond) (5 * second) (replicate (Suc 70) second)
      \<lparr>srtt = 0, rttvar = 0, currentBase = 50 * millisecond, initialized = False\<rparr>) = second"
  by (rule adaptive_rto_bounded) simp_all

end
