(* ===== verification/Arq_Control.thy ===== *)
theory Arq_Control
  imports Arq_State
begin

text \<open>
  The control plane of a stream (\<open>internal/arq/arq.go\<close>): the close and reset handshakes, deferred
  closing after a drain, tracked control packets with their retransmission, and acknowledgements.
\<close>

section \<open>Helpers\<close>

definition arqPush ::
  "'q enqueuerOps \<Rightarrow> int \<Rightarrow> u8 \<Rightarrow> u16 \<Rightarrow> u8 \<Rightarrow> u8 \<Rightarrow> u8 \<Rightarrow> duration \<Rightarrow> bytes \<Rightarrow> 'q arq \<Rightarrow> bool \<times> 'q arq" where
  "arqPush E priority packetType sn fragmentID totalFragments compression ttl payload a =
     (let (ok, q) = pushTX E priority packetType sn fragmentID totalFragments compression ttl payload (a_enqueuer a)
      in (ok, a\<lparr>a_enqueuer := q\<rparr>))"

definition signalWindowNotFull :: "'q arq \<Rightarrow> 'q arq" where
  "signalWindowNotFull a = a\<lparr>a_windowNotFull := True\<rparr>"

definition signalFlushReady :: "'q arq \<Rightarrow> 'q arq" where
  "signalFlushReady a = a\<lparr>a_flushSignal := True\<rparr>"

definition IsReset :: "'q arq \<Rightarrow> bool" where
  "IsReset a \<longleftrightarrow> a_state a = StateReset \<or> a_rstReceived a \<or> a_rstSent a"

definition setState :: "StreamState \<Rightarrow> 'q arq \<Rightarrow> 'q arq" where
  "setState s a = a\<lparr>a_state := s\<rparr>"

definition clearDataNackState :: "'q arq \<Rightarrow> 'q arq" where
  "clearDataNackState a = a\<lparr>a_firstDataNackSeen := [], a_lastDataNackSent := []\<rparr>"

definition clearAllQueues :: "bool \<Rightarrow> 'q arq \<Rightarrow> 'q arq" where
  "clearAllQueues clearControl a =
     (let a = a\<lparr>a_sndBuf := [], a_rcvBuf := []\<rparr>;
          a = (if clearControl then a\<lparr>a_controlSndBuf := []\<rparr> else a)
      in signalWindowNotFull (clearDataNackState a))"

definition removeAllQueuedData :: "'q enqueuerOps \<Rightarrow> 'q arq \<Rightarrow> 'q arq" where
  "removeAllQueuedData E a = a\<lparr>a_enqueuer := fold (\<lambda>(sn, _). removeQueuedData E sn) (a_sndBuf a) (a_enqueuer a)\<rparr>"

definition clearOutboundState :: "'q enqueuerOps \<Rightarrow> bool \<Rightarrow> 'q arq \<Rightarrow> 'q arq" where
  "clearOutboundState E clearControl a =
     (let a = removeAllQueuedData E a;
          a = a\<lparr>a_enqueuer := fold (\<lambda>(sn, _). removeQueuedDataNack E sn) (a_lastDataNackSent a) (a_enqueuer a)\<rparr>;
          a = a\<lparr>a_sndBuf := []\<rparr>;
          a = (if clearControl then a\<lparr>a_controlSndBuf := []\<rparr> else a)
      in signalWindowNotFull (clearDataNackState a))"

text \<open>
  The number of buffered packets that follow \<open>rcvNxt\<close> without a gap. The loop of the code would not
  end on a buffer with all 65536 numbers; the window keeps the buffer far smaller.
\<close>

definition contiguousReady :: "'q arq \<Rightarrow> nat" where
  "contiguousReady a = length (takeWhile (\<lambda>i. mget (a_rcvBuf a) (a_rcvNxt a + of_nat i) \<noteq> None) [0..<65536])"

text \<open>A local connection is taken to support \<open>CloseWrite\<close>, as a TCP connection does.\<close>

definition closeConn :: "localConn option \<Rightarrow> localConn option" where
  "closeConn c = map_option (\<lambda>c. c\<lparr>connClosed := True\<rparr>) c"

section \<open>Final close\<close>

definition finalizeClose :: "'q enqueuerOps \<Rightarrow> string \<Rightarrow> 'q arq \<Rightarrow> 'q arq" where
  "finalizeClose E reason a =
     (if a_closed a \<or> a_isVirtual a then a
      else
        let a = a\<lparr>a_closeReason := reason, a_closed := True, a_deferredClose := False, a_deferredReason := '''',
                  a_deferredDeadline := 0, a_deferredPacket := 0, a_waitingAck := False, a_waitingAckFor := 0, a_ackWaitDeadline := 0\<rparr>;
            a = (if a_state a = StateReset \<or> a_rstReceived a \<or> a_rstSent a then setState StateReset a
                 else if a_closeReadSent a \<or> a_closeReadReceived a \<or> a_closeWriteSent a \<or> a_closeWriteReceived a then setState StateTimeWait a
                 else setState StateClosing a);
            a = a\<lparr>a_ctxDone := True, a_localConn := closeConn (a_localConn a)\<rparr>;
            a = clearAllQueues True a
        in a\<lparr>a_enqueuer := onARQClosed E reason (a_enqueuer a)\<rparr>)"

definition tryFinalizeClientLocalDisconnect :: "'q enqueuerOps \<Rightarrow> 'q arq \<Rightarrow> 'q arq" where
  "tryFinalizeClientLocalDisconnect E a =
     (if a_IsClient a \<and> \<not> a_closed a \<and> a_localWriterBroken a \<and> a_closeWriteAcked a \<and> a_closeReadSent a \<and> a_closeReadAcked a \<and>
         a_sndBuf a = [] \<and> a_rcvBuf a = [] \<and> a_pendingInbound a = 0 \<and> \<not> a_localWritePending a \<and> \<not> a_waitingAck a \<and> \<not> a_deferredClose a
      then finalizeClose E ''client local disconnect completed'' a
      else a)"

definition tryFinalizeRemoteEOF :: "'q enqueuerOps \<Rightarrow> 'q arq \<Rightarrow> 'q arq" where
  "tryFinalizeRemoteEOF E a =
     (let waitingForCloseReadAck = (a_waitingAck a \<and> a_waitingAckFor a = PACKET_STREAM_CLOSE_READ);
          receiveDrained = ((a_rcvBuf a = [] \<and> a_pendingInbound a = 0) \<or> a_localWriterBroken a);
          writeSideSettled = ((\<not> a_localWriterBroken a \<and> (\<not> a_closeWriteSent a \<or> a_closeWriteAcked a)) \<or>
                              (a_localWriterBroken a \<and> (a_closeWriteAcked a \<or> a_closeWriteReceived a)));
          shouldClose = (\<not> a_closed a \<and> a_closeReadReceived a \<and> receiveDrained \<and> (\<not> a_localWritePending a \<or> a_localWriterBroken a) \<and>
                         (a_closeReadAcked a \<or> (a_closeReadSent a \<and> \<not> waitingForCloseReadAck)) \<and> writeSideSettled)
      in if shouldClose then finalizeClose E ''close handshake completed'' a
         else tryFinalizeClientLocalDisconnect E a)"

text \<open>The result tells whether the stream was finalized.\<close>

definition tryFinalizePeerResetDrain :: "'q enqueuerOps \<Rightarrow> 'q arq \<Rightarrow> bool \<times> 'q arq" where
  "tryFinalizePeerResetDrain E a =
     (if \<not> a_rstReceived a \<or> a_closed a then (False, a)
      else if 0 < contiguousReady a then (False, signalFlushReady a)
      else if a_localWritePending a \<or> 0 < a_pendingInbound a then (False, a)
      else if a_rcvBuf a \<noteq> [] then (True, finalizeClose E ''peer reset received with non-contiguous buffered data'' a)
      else (True, finalizeClose E ''peer reset received'' a))"

section \<open>Flags of the handshakes\<close>

definition MarkCloseReadSent :: "'q enqueuerOps \<Rightarrow> 'q arq \<Rightarrow> 'q arq" where
  "MarkCloseReadSent E a =
     (let a = a\<lparr>a_closeReadSent := True\<rparr>;
          a = setState (if a_closeReadReceived a then StateClosing else StateHalfClosedLocal) a
      in tryFinalizeRemoteEOF E a)"

definition MarkCloseReadReceived :: "'q enqueuerOps \<Rightarrow> 'q arq \<Rightarrow> 'q arq" where
  "MarkCloseReadReceived E a =
     (if a_isVirtual a then a
      else
        let a = a\<lparr>a_closeReadReceived := True\<rparr>;
            a = setState (if a_closeReadSent a then StateClosing else StateHalfClosedRemote) a
        in tryFinalizeRemoteEOF E (signalFlushReady a))"

definition markCloseReadAcked :: "instant \<Rightarrow> 'q arq \<Rightarrow> 'q arq" where
  "markCloseReadAcked now a =
     (let a = a\<lparr>a_closeReadAcked := True, a_closeReadAckedAt := now\<rparr>
      in if a_closeReadReceived a then setState StateClosing a else a)"

definition MarkCloseWriteSent :: "'q arq \<Rightarrow> 'q arq" where
  "MarkCloseWriteSent a =
     (let a = a\<lparr>a_closeWriteSent := True, a_localWriterBroken := True, a_localWriteClosed := True, a_rcvBuf := []\<rparr>
      in if a_closeReadReceived a then setState StateClosing a else a)"

definition markCloseWriteAcked :: "'q arq \<Rightarrow> 'q arq" where
  "markCloseWriteAcked a = a\<lparr>a_closeWriteAcked := True, a_localWriterBroken := True, a_localWriteClosed := True\<rparr>"

definition markLocalWriterBroken :: "'q arq \<Rightarrow> 'q arq" where
  "markLocalWriterBroken a = a\<lparr>a_localWriterBroken := True, a_localWritePending := False, a_rcvBuf := []\<rparr>"

definition noteClientEOF :: "instant \<Rightarrow> 'q arq \<Rightarrow> 'q arq" where
  "noteClientEOF now a = (if a_IsClient a \<and> a_clientEOFAt a = 0 then a\<lparr>a_clientEOFAt := now\<rparr> else a)"

definition halfCloseLocalWriter :: "'q arq \<Rightarrow> 'q arq" where
  "halfCloseLocalWriter a =
     (if a_localWriteClosed a \<or> a_closed a then a
      else a\<lparr>a_localWriteClosed := True, a_localConn := map_option (\<lambda>c. c\<lparr>connWriteClosed := True\<rparr>) (a_localConn a)\<rparr>)"

definition clearWaitingAck :: "u8 \<Rightarrow> 'q arq \<Rightarrow> 'q arq" where
  "clearWaitingAck packetType a =
     (if a_waitingAck a \<and> a_waitingAckFor a = packetType
      then a\<lparr>a_waitingAck := False, a_waitingAckFor := 0, a_ackWaitDeadline := 0\<rparr> else a)"

definition resetDrainTracking :: "instant \<Rightarrow> 'q arq \<Rightarrow> 'q arq" where
  "resetDrainTracking now a =
     a\<lparr>a_drainProgressAt := now, a_drainQueueFailAt := 0, a_drainQueueFails := 0, a_drainStallLogged := False\<rparr>"

definition noteDrainQueueFailure :: "instant \<Rightarrow> 'q arq \<Rightarrow> 'q arq" where
  "noteDrainQueueFailure now a =
     (if a_deferredClose a \<or> a_state a = StateDraining
      then a\<lparr>a_drainQueueFailAt := now, a_drainQueueFails := a_drainQueueFails a + 1\<rparr> else a)"

definition MarkRstSent :: "'q arq \<Rightarrow> 'q arq" where
  "MarkRstSent a = setState StateReset (clearAllQueues True (a\<lparr>a_rstSent := True\<rparr>))"

definition MarkRstReceived :: "'q enqueuerOps \<Rightarrow> 'q arq \<Rightarrow> 'q arq" where
  "MarkRstReceived E a =
     (if a_isVirtual a then a
      else signalFlushReady (setState StateReset (clearOutboundState E True (a\<lparr>a_rstReceived := True, a_stopLocalRead := True\<rparr>))))"

definition markRstAcked :: "'q arq \<Rightarrow> 'q arq" where
  "markRstAcked a = setState StateReset (clearAllQueues True (a\<lparr>a_rstAcked := True\<rparr>))"

section \<open>Sending control packets\<close>

definition SendControlPacketWithTTL ::
  "'q enqueuerOps \<Rightarrow> instant \<Rightarrow> u8 \<Rightarrow> u16 \<Rightarrow> u8 \<Rightarrow> u8 \<Rightarrow> bytes \<Rightarrow> int \<Rightarrow> bool \<Rightarrow> u8 option \<Rightarrow> duration \<Rightarrow> 'q arq \<Rightarrow> bool \<times> 'q arq" where
  "SendControlPacketWithTTL E now packetType sequenceNum fragmentID totalFragments payload priority trackForAck customAckType ttl a =
     (let priority = NormalizePacketPriority packetType priority in
      if \<not> a_enableControlReliability a \<or> \<not> trackForAck
      then arqPush E priority packetType sequenceNum fragmentID totalFragments 0 ttl payload a
      else
        case (case customAckType of Some t \<Rightarrow> Some t | None \<Rightarrow> ControlAckFor packetType) of
          None \<Rightarrow> (True, a)
        | Some expectedAck \<Rightarrow>
            let key = controlKey packetType sequenceNum fragmentID in
            if mget (a_controlSndBuf a) key \<noteq> None then (True, a)
            else
              let initialRTO = currentControlBaseRTO a;
                  initialRTO = (if isSetupControlPacketType packetType then min (350 * millisecond) initialRTO else initialRTO);
                  (ok, a) = arqPush E priority packetType sequenceNum fragmentID totalFragments 0 ttl payload a;
                  item = \<lparr>c_PacketType = packetType, c_SequenceNum = sequenceNum, c_FragmentID = fragmentID, c_TotalFragments = totalFragments,
                          c_AckType = expectedAck, c_Payload = payload, c_Priority = priority, c_CreatedAt = now,
                          c_LastSentAt = (if ok then 0 else now - initialRTO), c_Dispatched = \<not> ok, c_Retries = 0,
                          c_CurrentRTO = initialRTO, c_SampleEligible = True, c_TTL = ttl\<rparr>
              in (ok, a\<lparr>a_controlSndBuf := mput (a_controlSndBuf a) key item\<rparr>))"

definition clearTrackedControlPacket :: "u8 \<Rightarrow> u16 \<Rightarrow> u8 \<Rightarrow> 'q arq \<Rightarrow> 'q arq" where
  "clearTrackedControlPacket packetType sequenceNum fragmentID a =
     a\<lparr>a_controlSndBuf := mdel (a_controlSndBuf a) (controlKey packetType sequenceNum fragmentID)\<rparr>"

definition noteSuccessfulDataSample :: "duration \<Rightarrow> 'q arq \<Rightarrow> 'q arq" where
  "noteSuccessfulDataSample sample a = a\<lparr>a_dataAdaptiveRTO := updateAdaptiveRTO (a_dataAdaptiveRTO a) sample (a_rto a) (a_maxRTO a)\<rparr>"

definition noteSuccessfulControlSample :: "duration \<Rightarrow> 'q arq \<Rightarrow> 'q arq" where
  "noteSuccessfulControlSample sample a =
     a\<lparr>a_controlAdaptiveRTO := updateAdaptiveRTO (a_controlAdaptiveRTO a) sample (a_controlRto a) (a_controlMaxRto a)\<rparr>"

section \<open>Terminal packets\<close>

definition cancelDeferred :: "'q arq \<Rightarrow> 'q arq" where
  "cancelDeferred a = a\<lparr>a_deferredClose := False, a_deferredReason := '''', a_deferredDeadline := 0, a_deferredPacket := 0\<rparr>"

definition awaitAck :: "instant \<Rightarrow> u8 \<Rightarrow> 'q arq \<Rightarrow> 'q arq" where
  "awaitAck now packetType a = a\<lparr>a_waitingAck := True, a_waitingAckFor := packetType, a_ackWaitDeadline := now + a_terminalAckWait a\<rparr>"

definition sendTerminal :: "'q enqueuerOps \<Rightarrow> instant \<Rightarrow> u8 \<Rightarrow> u16 \<Rightarrow> u8 \<Rightarrow> duration \<Rightarrow> 'q arq \<Rightarrow> 'q arq" where
  "sendTerminal E now packetType sn ackType ttl a =
     snd (SendControlPacketWithTTL E now packetType sn 0 0 [] (DefaultPacketPriority packetType) (a_enableControlReliability a) (Some ackType) ttl a)"

definition emitTerminalPacketWithTTL :: "'q enqueuerOps \<Rightarrow> instant \<Rightarrow> u8 \<Rightarrow> string \<Rightarrow> duration \<Rightarrow> 'q arq \<Rightarrow> 'q arq" where
  "emitTerminalPacketWithTTL E now packetType reason ttl a =
     (if a_closed a \<or> a_isVirtual a then a
      else
        let a = cancelDeferred (a\<lparr>a_closeReason := reason, a_stopLocalRead := True\<rparr>) in
        if a_waitingAck a \<and> a_waitingAckFor a = packetType then a
        else if packetType = PACKET_STREAM_CLOSE_READ then
          if a_rstSent a \<or> a_rstReceived a \<or> a_closeReadSent a then a
          else
            let a = (if a_closeReadSeqSent a = None then a\<lparr>a_closeReadSeqSent := Some 0\<rparr> else a);
                sn = the (a_closeReadSeqSent a);
                a = MarkCloseReadSent E (awaitAck now packetType a)
            in sendTerminal E now PACKET_STREAM_CLOSE_READ sn PACKET_STREAM_CLOSE_READ_ACK ttl a
        else if packetType = PACKET_STREAM_CLOSE_WRITE then
          if a_rstReceived a \<or> a_rstSent a \<or> a_closeWriteSent a then a
          else
            let a = (if a_closeWriteSeqSent a = None then a\<lparr>a_closeWriteSeqSent := Some 0\<rparr> else a);
                sn = the (a_closeWriteSeqSent a);
                a = MarkCloseWriteSent (awaitAck now packetType a)
            in sendTerminal E now PACKET_STREAM_CLOSE_WRITE sn PACKET_STREAM_CLOSE_WRITE_ACK ttl a
        else if packetType = PACKET_STREAM_RST then
          if a_rstReceived a \<or> a_rstSent a then a
          else
            let a = (if a_rstSeqSent a = None then a\<lparr>a_rstSeqSent := Some 0\<rparr> else a);
                sn = the (a_rstSeqSent a);
                a = MarkRstSent (awaitAck now packetType (clearAllQueues True a))
            in sendTerminal E now PACKET_STREAM_RST sn PACKET_STREAM_RST_ACK ttl a
        else a)"

text \<open>
  \<open>Close\<close> defers a packet through \<open>deferTerminalPacket\<close>, which may settle at once and call \<open>Close\<close> again,
  then without \<open>AfterDrain\<close>: the recursion is two levels deep. The deferral is a parameter of the body.
\<close>

definition closeWith ::
  "(string \<Rightarrow> u8 \<Rightarrow> 'q arq \<Rightarrow> 'q arq) \<Rightarrow> 'q enqueuerOps \<Rightarrow> instant \<Rightarrow> string \<Rightarrow> CloseOptions \<Rightarrow> 'q arq \<Rightarrow> 'q arq" where
  "closeWith deferPacket E now reason opts a =
     (if a_isVirtual a \<and> \<not> Force opts then a
      else if Force opts \<or> (\<not> SendRST opts \<and> \<not> SendCloseRead opts \<and> \<not> SendCloseWrite opts)
      then finalizeClose E reason (a\<lparr>a_isVirtual := False\<rparr>)
      else if SendCloseRead opts then
        if AfterDrain opts then deferPacket reason PACKET_STREAM_CLOSE_READ a
        else emitTerminalPacketWithTTL E now PACKET_STREAM_CLOSE_READ reason (closeTTL opts) a
      else if SendCloseWrite opts then emitTerminalPacketWithTTL E now PACKET_STREAM_CLOSE_WRITE reason (closeTTL opts) a
      else if a_closed a then a
      else if a_rstSent a \<or> a_rstReceived a \<or> (a_waitingAck a \<and> a_waitingAckFor a = PACKET_STREAM_RST) \<or>
              (a_deferredClose a \<and> a_deferredPacket a = PACKET_STREAM_RST)
      then a
      else
        let hasPendingData = (a_sndBuf a \<noteq> []);
            a = cancelDeferred (setState StateReset (a\<lparr>a_closeReason := reason\<rparr>))
        in if AfterDrain opts \<and> hasPendingData then deferPacket reason PACKET_STREAM_RST a
           else emitTerminalPacketWithTTL E now PACKET_STREAM_RST reason (closeTTL opts) a)"

definition noClose :: CloseOptions where
  "noClose = \<lparr>Force = False, SendRST = False, SendCloseWrite = False, SendCloseRead = False, AfterDrain = False, closeTTL = 0\<rparr>"

definition settleTerminalDrain :: "'q enqueuerOps \<Rightarrow> instant \<Rightarrow> 'q arq \<Rightarrow> 'q arq" where
  "settleTerminalDrain E now a =
     (if a_closed a \<or> \<not> a_deferredClose a then a
      else
        let settle = (\<lambda>packetType reason.
              closeWith (\<lambda>_ _ a. a) E now reason
                (noClose\<lparr>SendCloseRead := packetType = PACKET_STREAM_CLOSE_READ, SendCloseWrite := packetType = PACKET_STREAM_CLOSE_WRITE,
                         SendRST := packetType = PACKET_STREAM_RST\<rparr>) (cancelDeferred a))
        in if a_sndBuf a = [] then settle (a_deferredPacket a) (a_deferredReason a)
           else if a_deferredDeadline a \<noteq> 0 \<and> a_deferredDeadline a < now
           then settle PACKET_STREAM_RST (a_deferredReason a @ '' but drain timeout expired'')
           else a)"

definition deferTerminalPacket :: "'q enqueuerOps \<Rightarrow> instant \<Rightarrow> string \<Rightarrow> u8 \<Rightarrow> 'q arq \<Rightarrow> 'q arq" where
  "deferTerminalPacket E now reason packetType a =
     (if a_closed a \<or> a_isVirtual a then a
      else
        let a = (if a_state a \<noteq> StateReset \<and> a_state a \<noteq> StateClosed then setState StateDraining a else a);
            a = a\<lparr>a_stopLocalRead := True, a_deferredClose := True, a_deferredReason := reason, a_deferredPacket := packetType\<rparr>;
            deadline = now + a_terminalDrainTimeout a;
            a = (if a_deferredDeadline a = 0 \<or> a_deferredDeadline a < deadline then a\<lparr>a_deferredDeadline := deadline\<rparr> else a);
            a = resetDrainTracking now a
        in if a_sndBuf a = [] then settleTerminalDrain E now a else a)"

definition Close :: "'q enqueuerOps \<Rightarrow> instant \<Rightarrow> string \<Rightarrow> CloseOptions \<Rightarrow> 'q arq \<Rightarrow> 'q arq" where
  "Close E now = closeWith (deferTerminalPacket E now) E now"

definition MarkCloseWriteReceived :: "'q enqueuerOps \<Rightarrow> instant \<Rightarrow> 'q arq \<Rightarrow> 'q arq" where
  "MarkCloseWriteReceived E now a =
     (if a_isVirtual a then a
      else
        let a = removeAllQueuedData E (a\<lparr>a_closeWriteReceived := True, a_stopLocalRead := True\<rparr>);
            a = signalWindowNotFull (a\<lparr>a_sndBuf := []\<rparr>)
        in tryFinalizeRemoteEOF E (settleTerminalDrain E now a))"

definition maybeInitiateClientCloseReadAfterWriterBreak :: "'q enqueuerOps \<Rightarrow> instant \<Rightarrow> 'q arq \<Rightarrow> 'q arq" where
  "maybeInitiateClientCloseReadAfterWriterBreak E now a =
     (if a_IsClient a \<and> a_localWriterBroken a \<and> \<not> a_closed a \<and> \<not> a_rstSent a \<and> \<not> a_rstReceived a \<and> \<not> a_closeReadSent a \<and> \<not> a_closeReadReceived a
      then Close E now ''Client local endpoint disconnected after write side closed''
             (noClose\<lparr>SendCloseRead := True, AfterDrain := a_sndBuf a \<noteq> [] \<or> a_localWritePending a\<rparr>) a
      else a)"

section \<open>Acknowledgements of control packets\<close>

definition handleTrackedPacketTTLExpiry :: "'q enqueuerOps \<Rightarrow> instant \<Rightarrow> u8 \<Rightarrow> string \<Rightarrow> 'q arq \<Rightarrow> 'q arq" where
  "handleTrackedPacketTTLExpiry E now packetType reason a =
     (if GetPacketCloseStream packetType \<noteq> None \<and> packetType \<noteq> PACKET_STREAM_CLOSE_READ \<and> packetType \<noteq> PACKET_STREAM_CLOSE_WRITE
      then finalizeClose E reason a
      else Close E now reason (noClose\<lparr>SendRST := True\<rparr>) a)"

definition handleTrackedTerminalAck :: "'q enqueuerOps \<Rightarrow> u8 \<Rightarrow> 'q arq \<Rightarrow> bool \<times> 'q arq" where
  "handleTrackedTerminalAck E originPtype a =
     (if GetPacketCloseStream originPtype \<noteq> None \<and> originPtype \<noteq> PACKET_STREAM_CLOSE_READ \<and>
         originPtype \<noteq> PACKET_STREAM_CLOSE_WRITE \<and> originPtype \<noteq> PACKET_STREAM_RST
      then (True, finalizeClose E (PacketTypeName originPtype @ '' acknowledged'') a)
      else (False, a))"

definition handleTrackedCloseOrResetAck :: "'q enqueuerOps \<Rightarrow> instant \<Rightarrow> u8 \<Rightarrow> 'q arq \<Rightarrow> bool \<times> 'q arq" where
  "handleTrackedCloseOrResetAck E now originPtype a =
     (if originPtype = PACKET_STREAM_CLOSE_READ
      then (True, tryFinalizeRemoteEOF E (clearWaitingAck PACKET_STREAM_CLOSE_READ (markCloseReadAcked now a)))
      else if originPtype = PACKET_STREAM_CLOSE_WRITE
      then (True, tryFinalizeRemoteEOF E (maybeInitiateClientCloseReadAfterWriterBreak E now
                    (clearWaitingAck PACKET_STREAM_CLOSE_WRITE (markCloseWriteAcked a))))
      else if originPtype = PACKET_STREAM_RST
      then (True, finalizeClose E ''RST acknowledged'' (markRstAcked a))
      else (False, a))"

definition handleWaitingTerminalAck :: "'q enqueuerOps \<Rightarrow> instant \<Rightarrow> u8 \<Rightarrow> bool \<Rightarrow> bool \<Rightarrow> bool \<Rightarrow> 'q arq \<Rightarrow> bool \<times> 'q arq" where
  "handleWaitingTerminalAck E now ackPacketType isWaitingCloseRead isWaitingCloseWrite isWaitingRst a =
     (if ackPacketType = PACKET_STREAM_CLOSE_READ_ACK \<and> isWaitingCloseRead
      then (True, tryFinalizeRemoteEOF E (clearWaitingAck PACKET_STREAM_CLOSE_READ (markCloseReadAcked now a)))
      else if ackPacketType = PACKET_STREAM_CLOSE_WRITE_ACK \<and> isWaitingCloseWrite
      then (True, tryFinalizeRemoteEOF E (maybeInitiateClientCloseReadAfterWriterBreak E now
                    (clearWaitingAck PACKET_STREAM_CLOSE_WRITE (markCloseWriteAcked a))))
      else if ackPacketType = PACKET_STREAM_RST_ACK \<and> isWaitingRst
      then (True, finalizeClose E ''RST acknowledged'' (markRstAcked a))
      else (False, a))"

text \<open>The chain of handlers at the end of \<open>ReceiveControlAck\<close>.\<close>

definition finishControlAck :: "'q enqueuerOps \<Rightarrow> instant \<Rightarrow> u8 \<Rightarrow> u8 \<Rightarrow> bool \<Rightarrow> bool \<Rightarrow> bool \<Rightarrow> bool \<Rightarrow> 'q arq \<Rightarrow> bool \<times> 'q arq" where
  "finishControlAck E now ackPacketType originPtype tracked isWaitingCloseRead isWaitingCloseWrite isWaitingRst a =
     (let (done1, a1) = (if tracked then handleTrackedCloseOrResetAck E now originPtype a else (False, a))
      in if done1 then (True, a1)
         else
           let (done2, a2) = (if tracked then handleTrackedTerminalAck E originPtype a1 else (False, a1))
           in if done2 then (True, a2)
              else
                let (done3, a3) = handleWaitingTerminalAck E now ackPacketType isWaitingCloseRead isWaitingCloseWrite isWaitingRst a2
                in if done3 then (True, a3) else (tracked, a3))"

definition ReceiveControlAck :: "'q enqueuerOps \<Rightarrow> instant \<Rightarrow> u8 \<Rightarrow> u16 \<Rightarrow> u8 \<Rightarrow> 'q arq \<Rightarrow> bool \<times> 'q arq" where
  "ReceiveControlAck E now ackPacketType sequenceNum fragmentID a =
     (let a = a\<lparr>a_lastActivity := now\<rparr> in
      case ReverseControlAckFor ackPacketType of
        None \<Rightarrow> (False, a)
      | Some originPtype \<Rightarrow>
          let key = controlKey originPtype sequenceNum fragmentID;
              info = mget (a_controlSndBuf a) key;
              isCloseStreamPacket = (GetPacketCloseStream originPtype \<noteq> None);
              tracked = (info \<noteq> None \<or> isCloseStreamPacket \<and> (\<exists>(_, i) \<in> set (a_controlSndBuf a). c_PacketType i = originPtype));
              isWaitingCloseRead = (ackPacketType = PACKET_STREAM_CLOSE_READ_ACK \<and> a_waitingAckFor a = PACKET_STREAM_CLOSE_READ);
              isWaitingCloseWrite = (ackPacketType = PACKET_STREAM_CLOSE_WRITE_ACK \<and> a_waitingAckFor a = PACKET_STREAM_CLOSE_WRITE);
              isWaitingRst = (ackPacketType = PACKET_STREAM_RST_ACK \<and> a_waitingAckFor a = PACKET_STREAM_RST)
          in
          if \<not> tracked \<and> \<not> isWaitingCloseRead \<and> \<not> isWaitingCloseWrite \<and> \<not> isWaitingRst then (False, a)
          else
            let sample = (case info of
                            Some i \<Rightarrow> if c_SampleEligible i \<and> c_Dispatched i \<and> c_LastSentAt i \<noteq> 0 then Some (timeSub now (c_LastSentAt i)) else None
                          | None \<Rightarrow> None);
                a = (if tracked then
                       if isCloseStreamPacket
                       then a\<lparr>a_controlSndBuf := filter (\<lambda>(_, i). c_PacketType i \<noteq> originPtype) (a_controlSndBuf a)\<rparr>
                       else a\<lparr>a_controlSndBuf := mdel (a_controlSndBuf a) key\<rparr>
                     else a);
                a = (case sample of Some d \<Rightarrow> noteSuccessfulControlSample d a | None \<Rightarrow> a)
            in finishControlAck E now ackPacketType originPtype tracked isWaitingCloseRead isWaitingCloseWrite isWaitingRst a)"

section \<open>Periodic control work\<close>

definition NoteTXPacketDequeued :: "instant \<Rightarrow> u8 \<Rightarrow> u16 \<Rightarrow> u8 \<Rightarrow> 'q arq \<Rightarrow> 'q arq" where
  "NoteTXPacketDequeued now packetType sequenceNum fragmentID a =
     (if packetType = PACKET_STREAM_DATA \<or> packetType = PACKET_STREAM_RESEND then
        case mget (a_sndBuf a) sequenceNum of
          Some info \<Rightarrow> a\<lparr>a_sndBuf := mput (a_sndBuf a) sequenceNum (info\<lparr>d_LastSentAt := now, d_Dispatched := True\<rparr>)\<rparr>
        | None \<Rightarrow> a
      else if \<not> a_enableControlReliability a then a
      else
        let key = controlKey packetType sequenceNum fragmentID in
        case mget (a_controlSndBuf a) key of
          Some info \<Rightarrow> a\<lparr>a_controlSndBuf := mput (a_controlSndBuf a) key (info\<lparr>c_LastSentAt := now, c_Dispatched := True\<rparr>)\<rparr>
        | None \<Rightarrow> a)"

definition runFinalAckWatchdog :: "'q enqueuerOps \<Rightarrow> instant \<Rightarrow> 'q arq \<Rightarrow> 'q arq" where
  "runFinalAckWatchdog E now a =
     (if \<not> a_closed a \<and> \<not> a_rstSent a \<and> \<not> a_rstReceived a \<and> a_IsClient a \<and> a_closeReadSent a \<and> a_closeReadAcked a \<and>
         \<not> a_closeReadReceived a \<and> \<not> a_closeWriteSent a \<and> \<not> a_closeWriteAcked a \<and> \<not> a_closeWriteReceived a \<and>
         \<not> a_localWriterBroken a \<and> a_rcvBuf a = [] \<and> a_pendingInbound a = 0 \<and> \<not> a_localWritePending a \<and> 0 < a_rcvNxt a \<and>
         2 * second \<le> timeSub now (a_lastActivity a) \<and>
         (a_lastDuplicateAckAt a = 0 \<or> 2 * second \<le> timeSub now (a_lastDuplicateAckAt a))
      then snd (arqPush E (DefaultPacketPriority PACKET_STREAM_DATA_ACK) PACKET_STREAM_DATA_ACK (a_rcvNxt a - 1) 0 0 0 0 []
                 (a\<lparr>a_lastDuplicateAckAt := now\<rparr>))
      else a)"

text \<open>The result tells whether the periodic check ends here.\<close>

definition handleTerminalRetransmitState :: "'q enqueuerOps \<Rightarrow> instant \<Rightarrow> 'q arq \<Rightarrow> bool \<times> 'q arq" where
  "handleTerminalRetransmitState E now a =
     (if a_deferredClose a then
        let shouldClose = (a_sndBuf a = []);
            shouldAbort = (a_deferredDeadline a \<noteq> 0 \<and> a_deferredDeadline a < now);
            stalledFor = (if a_drainProgressAt a \<noteq> 0 then timeSub now (a_drainProgressAt a) else 0);
            queueBlocked = (3 \<le> a_drainQueueFails a \<and> a_drainQueueFailAt a \<noteq> 0 \<and> timeSub now (a_drainQueueFailAt a) \<le> 30 * second);
            shouldAbortEarly = (\<not> shouldClose \<and> queueBlocked \<and> 20 * second \<le> stalledFor);
            a = (if shouldAbortEarly then a\<lparr>a_drainStallLogged := True\<rparr> else a);
            a = (if shouldClose \<or> shouldAbort then settleTerminalDrain E now a
                 else if shouldAbortEarly
                 then Close E now ''Deferred drain stalled after resend queue pressure'' (noClose\<lparr>SendRST := True\<rparr>) a
                 else a)
        in (a_closed a, a)
      else if a_waitingAck a \<and> a_ackWaitDeadline a \<noteq> 0 \<and> a_ackWaitDeadline a < now then
        if a_waitingAckFor a = PACKET_STREAM_RST then (True, finalizeClose E ''Terminal ACK wait timeout'' a)
        else if a_waitingAckFor a = PACKET_STREAM_CLOSE_READ \<or> a_waitingAckFor a = PACKET_STREAM_CLOSE_WRITE
        then (False, Close E now ''Close handshake ACK wait timeout'' (noClose\<lparr>SendRST := True\<rparr>) a)
        else (False, a)
      else if a_rstReceived a \<and> \<not> a_closed a then tryFinalizePeerResetDrain E a
      else
        let receiveDrainedForCloseWrite = (a_rcvBuf a = [] \<and> a_pendingInbound a = 0 \<and> \<not> a_localWritePending a);
            peerFinishedSending = (a_closeReadReceived a \<or> a_localWriterBroken a)
        in
        if a_IsClient a \<and>
           ((a_clientEOFAt a \<noteq> 0 \<and> 2 * second \<le> timeSub now (a_clientEOFAt a)) \<or>
            (a_closeReadAckedAt a \<noteq> 0 \<and> 2 * second \<le> timeSub now (a_closeReadAckedAt a))) \<and>
           \<not> a_closed a \<and> \<not> a_rstSent a \<and> \<not> a_rstReceived a \<and> a_closeReadSent a \<and> a_closeReadAcked a \<and>
           \<not> a_closeWriteSent a \<and> \<not> a_closeWriteAcked a \<and> \<not> a_closeWriteReceived a \<and>
           \<not> (a_waitingAck a \<and> a_waitingAckFor a = PACKET_STREAM_CLOSE_WRITE) \<and> receiveDrainedForCloseWrite \<and> peerFinishedSending
        then (False, Close E now ''Client close-read grace elapsed'' (noClose\<lparr>SendCloseWrite := True\<rparr>) a)
        else if a_inactivityTimeout a < timeSub now (a_lastActivity a) then
          if a_sndBuf a \<noteq> [] \<or> (a_enableControlReliability a \<and> a_controlSndBuf a \<noteq> [])
          then (False, a\<lparr>a_lastActivity := now\<rparr>)
          else (True, Close E now ''Stream Inactivity Timeout (Dead)'' (noClose\<lparr>SendRST := True\<rparr>) a)
        else (False, a))"

definition controlExpiry :: "instant \<Rightarrow> 'q arq \<Rightarrow> arqControlItem \<Rightarrow> string option" where
  "controlExpiry now a info =
     (if 0 < c_TTL info then
        if c_TTL info \<le> timeSub now (c_CreatedAt info) then Some ''Packet TTL expired'' else None
      else
        let setup = isSetupControlPacketType (c_PacketType info);
            maxRetries = (if setup then max 120 (a_controlMaxRetries a) else a_controlMaxRetries a);
            packetTTL = (if setup then max (300 * second) (a_controlPacketTTL a) else a_controlPacketTTL a)
        in if maxRetries \<le> c_Retries info then Some ''Control packet max retransmissions exceeded''
           else if packetTTL \<le> timeSub now (c_CreatedAt info) then Some ''Control packet expired''
           else None)"

text \<open>The loop over the tracked packets, over a list of the keys; an expired packet ends it.\<close>

fun controlRetransmitLoop :: "'q enqueuerOps \<Rightarrow> instant \<Rightarrow> u32 list \<Rightarrow> 'q arq \<Rightarrow> 'q arq" where
  "controlRetransmitLoop E now [] a = a"
| "controlRetransmitLoop E now (key # keys) a =
     (case mget (a_controlSndBuf a) key of
        None \<Rightarrow> controlRetransmitLoop E now keys a
      | Some info \<Rightarrow>
          case controlExpiry now a info of
            Some reason \<Rightarrow>
              handleTrackedPacketTTLExpiry E now (c_PacketType info) reason (a\<lparr>a_controlSndBuf := mdel (a_controlSndBuf a) key\<rparr>)
          | None \<Rightarrow>
              if \<not> c_Dispatched info \<or> timeSub now (c_LastSentAt info) < c_CurrentRTO info then controlRetransmitLoop E now keys a
              else
                let (ok, a) = arqPush E (c_Priority info) (c_PacketType info) (c_SequenceNum info) (c_FragmentID info)
                                (c_TotalFragments info) 0 (c_TTL info) (c_Payload info) a
                in if \<not> ok then controlRetransmitLoop E now keys a
                   else
                     let setup = isSetupControlPacketType (c_PacketType info);
                         floorRto = (if setup then min (350 * millisecond) (currentControlBaseRTO a) else currentControlBaseRTO a);
                         grownRTO = (if setup then setupControlRTOGrowth (c_CurrentRTO info) else controlRetransmitRTOGrowth (c_CurrentRTO info));
                         info = info\<lparr>c_LastSentAt := now, c_Dispatched := False, c_Retries := c_Retries info + 1, c_SampleEligible := False,
                                     c_CurrentRTO := clampDuration grownRTO floorRto (a_controlMaxRto a)\<rparr>
                     in controlRetransmitLoop E now keys (a\<lparr>a_controlSndBuf := mput (a_controlSndBuf a) key info\<rparr>))"

definition checkControlRetransmits :: "'q enqueuerOps \<Rightarrow> instant \<Rightarrow> 'q arq \<Rightarrow> 'q arq" where
  "checkControlRetransmits E now a = controlRetransmitLoop E now (map fst (a_controlSndBuf a)) a"

end
