(* ===== verification/Arq_Data.thy ===== *)
theory Arq_Data
  imports Arq_Control
begin

text \<open>
  The data plane of a stream (\<open>internal/arq/arq.go\<close>): the loops that read from and write to the local
  connection, reception with acknowledgements and negative acknowledgements, and retransmission.
  A loop is a function for one iteration, split where the code blocks without the lock: around the
  read of the local connection and around each write to it.
\<close>

section \<open>Starting the loops\<close>

definition startStreamWorkers :: "'q arq \<Rightarrow> 'q arq" where
  "startStreamWorkers a =
     (if a_streamWorkersStarted a \<or> a_localConn a = None then a else signalFlushReady (a\<lparr>a_streamWorkersStarted := True\<rparr>))"

definition SetLocalConn :: "localConn \<Rightarrow> 'q arq \<Rightarrow> 'q arq" where
  "SetLocalConn conn a =
     (if a_localConn a \<noteq> None then a
      else
        let a = a\<lparr>a_localConn := Some conn\<rparr>
        in if \<not> a_ctxDone a \<and> a_ioReady a then signalFlushReady (startStreamWorkers a) else a)"

definition SetIOReady :: "bool \<Rightarrow> 'q arq \<Rightarrow> 'q arq" where
  "SetIOReady ready a =
     (let changed = (a_ioReady a \<noteq> ready); a = a\<lparr>a_ioReady := ready\<rparr>
      in if changed \<and> ready then signalFlushReady (startStreamWorkers a) else a)"

definition isGracefulCloseInProgress :: "'q arq \<Rightarrow> bool" where
  "isGracefulCloseInProgress a \<longleftrightarrow>
     a_closed a \<or>
     a_waitingAck a \<and> (a_waitingAckFor a = PACKET_STREAM_CLOSE_READ \<or> a_waitingAckFor a = PACKET_STREAM_CLOSE_WRITE) \<or>
     a_deferredClose a \<and> (a_deferredPacket a = PACKET_STREAM_CLOSE_READ \<or> a_deferredPacket a = PACKET_STREAM_CLOSE_WRITE) \<or>
     a_state a \<in> {StateHalfClosedLocal, StateHalfClosedRemote, StateClosing, StateDraining, StateTimeWait} \<or>
     a_closeReadSent a \<or> a_closeReadReceived a \<or> a_closeWriteSent a \<or> a_closeWriteReceived a"

section \<open>Reading from the local connection\<close>

text \<open>
  What the loop does after its checks: wait, stop, try again later, or read. The wait for room also
  ends when the context is done, which \<open>finalizeClose\<close> alone brings about, after it closed the stream.
\<close>

datatype ioCheck = IoWindowFull | IoStop | IoNotReady | IoNoConn | IoRead

definition ioLoopCheck :: "'q arq \<Rightarrow> ioCheck" where
  "ioLoopCheck a =
     (if a_closed a then IoStop
      else if a_limit a \<le> int (length (a_sndBuf a)) then IoWindowFull
      else if a_stopLocalRead a then IoStop
      else if \<not> a_ioReady a then IoNotReady
      else if a_localConn a = None then IoNoConn
      else IoRead)"

definition ioLoopNoConn :: "'q enqueuerOps \<Rightarrow> instant \<Rightarrow> 'q arq \<Rightarrow> 'q arq" where
  "ioLoopNoConn E now a = Close E now ''Local connection missing'' (noClose\<lparr>SendRST := True\<rparr>) a"

definition sendChunk :: "'q enqueuerOps \<Rightarrow> instant \<Rightarrow> bytes \<Rightarrow> 'q arq \<Rightarrow> 'q arq" where
  "sendChunk E now raw a =
     (let sn = a_sndNxt a;
          item = \<lparr>d_Data = raw, d_CreatedAt = now, d_LastSentAt = 0, d_Dispatched = False, d_LastNackSentAt = 0, d_Retries = 0,
                  d_CurrentRTO = currentDataBaseRTO a, d_SampleEligible = True, d_CompressionType = a_compressionType a, d_TTL = 0\<rparr>;
          a = a\<lparr>a_lastActivity := now, a_sndNxt := sn + 1, a_sndBuf := mput (a_sndBuf a) sn item\<rparr>;
          (ok, a) = arqPush E (DefaultPacketPriority PACKET_STREAM_DATA) PACKET_STREAM_DATA sn 0 0 (a_compressionType a) 0 raw a
      in if ok then a
         else
           case mget (a_sndBuf a) sn of
             Some info \<Rightarrow> a\<lparr>a_sndBuf := mput (a_sndBuf a) sn (info\<lparr>d_Dispatched := True, d_LastSentAt := now - d_CurrentRTO info\<rparr>)\<rparr>
           | None \<Rightarrow> a)"

text \<open>
  The rest of an iteration after \<open>Read\<close> returned the bytes \<open>raw\<close> and possibly an error with its class
  and message. The loop keeps the time since which reads fail transiently; the result tells whether
  it goes on.
\<close>

definition ioLoopRead ::
  "'q enqueuerOps \<Rightarrow> instant \<Rightarrow> bytes \<Rightarrow> (ioErrorClass \<times> string) option \<Rightarrow> instant \<Rightarrow> 'q arq \<Rightarrow> bool \<times> instant \<times> 'q arq" where
  "ioLoopRead E now raw err transientReadSince a =
     (let got = (raw \<noteq> []);
          since = (if got then 0 else transientReadSince);
          a = (if got then sendChunk E now raw a else a);
          reset = (\<lambda>reason. if a_closed a then a else Close E now reason (noClose\<lparr>SendRST := True, AfterDrain := got\<rparr>) a)
      in case err of
           None \<Rightarrow> (True, since, a)
         | Some (ioErrorTimeout, _) \<Rightarrow> (True, 0, a)
         | Some (ioErrorTransient, msg) \<Rightarrow>
             if since = 0 then (True, now, a)
             else if 3 * second < timeSub now since then (False, since, reset (''Repeated transient read errors: '' @ msg))
             else (True, since, a)
         | Some (ioErrorEOF, _) \<Rightarrow>
             let a = noteClientEOF now a
             in (False, 0,
                 if a_closed a then a
                 else Close E now ''Local App Closed Connection (EOF)'' (noClose\<lparr>SendCloseRead := True, AfterDrain := True\<rparr>) a)
         | Some (ioErrorClosed, _) \<Rightarrow>
             (False, 0, if isGracefulCloseInProgress a then a else reset ''Local connection closed'')
         | Some (ioErrorFatal, msg) \<Rightarrow> (False, 0, reset (''Read Error: '' @ msg)))"

section \<open>Negative acknowledgements\<close>

definition seqBehind :: "u16 \<Rightarrow> u16 \<Rightarrow> bool" where
  "seqBehind base candidate \<longleftrightarrow> candidate \<noteq> base \<and> base - candidate < 32768"

definition pruneDataNackState :: "u16 \<Rightarrow> 'q arq \<Rightarrow> 'q arq" where
  "pruneDataNackState rcvNxt a =
     a\<lparr>a_firstDataNackSeen := filter (\<lambda>(sn, _). \<not> seqBehind rcvNxt sn) (a_firstDataNackSeen a),
       a_lastDataNackSent := filter (\<lambda>(sn, _). \<not> seqBehind rcvNxt sn) (a_lastDataNackSent a)\<rparr>"

definition clearSentDataNack :: "'q enqueuerOps \<Rightarrow> u16 \<Rightarrow> 'q arq \<Rightarrow> 'q arq" where
  "clearSentDataNack E sn a =
     a\<lparr>a_firstDataNackSeen := mdel (a_firstDataNackSeen a) sn, a_lastDataNackSent := mdel (a_lastDataNackSent a) sn,
       a_enqueuer := removeQueuedDataNack E sn (a_enqueuer a)\<rparr>"

definition shouldSendDataNack :: "u16 \<Rightarrow> instant \<Rightarrow> 'q arq \<Rightarrow> bool \<times> 'q arq" where
  "shouldSendDataNack sn now a =
     (case mget (a_firstDataNackSeen a) sn of
        None \<Rightarrow> (a_dataNackInitialDelay a \<le> 0, a\<lparr>a_firstDataNackSeen := mput (a_firstDataNackSeen a) sn now\<rparr>)
      | Some firstSeenAt \<Rightarrow>
          if 0 < a_dataNackInitialDelay a \<and> timeSub now firstSeenAt < a_dataNackInitialDelay a then (False, a)
          else
            case mget (a_lastDataNackSent a) sn of
              None \<Rightarrow> (True, a)
            | Some lastSentAt \<Rightarrow> (a_dataNackRepeatInterval a \<le> timeSub now lastSentAt, a))"

definition noteDataNackSent :: "u16 \<Rightarrow> instant \<Rightarrow> 'q arq \<Rightarrow> 'q arq" where
  "noteDataNackSent sn now a = a\<lparr>a_lastDataNackSent := mput (a_lastDataNackSent a) sn now\<rparr>"

text \<open>One turn of the sending loops; only the one after a reception counts a refused packet.\<close>

definition sendDataNack :: "'q enqueuerOps \<Rightarrow> instant \<Rightarrow> bool \<Rightarrow> u16 \<Rightarrow> 'q arq \<Rightarrow> 'q arq" where
  "sendDataNack E now countFailure missing a =
     (let (should, a) = shouldSendDataNack missing now a in
      if \<not> should then a
      else
        let (ok, a) = arqPush E (DefaultPacketPriority PACKET_STREAM_DATA_NACK) PACKET_STREAM_DATA_NACK missing 0 0 0 0 [] a
        in if \<not> ok then (if countFailure then noteDrainQueueFailure now a else a)
           else noteDataNackSent missing now a)"

text \<open>The sequence numbers from \<open>s\<close> on, and down from \<open>s\<close>.\<close>

definition seqsUp :: "u16 \<Rightarrow> nat \<Rightarrow> u16 list" where
  "seqsUp s n = map (\<lambda>i. s + of_nat i) [0..<n]"

definition seqsDown :: "u16 \<Rightarrow> nat \<Rightarrow> u16 list" where
  "seqsDown s n = map (\<lambda>i. s - of_nat i) [0..<n]"

definition missingSeqs :: "'q arq \<Rightarrow> u16 \<Rightarrow> u16 list" where
  "missingSeqs a sn =
     (let rcvNxt = a_rcvNxt a;
          missing = (\<lambda>s. mget (a_rcvBuf a) s = None);
          diff = sn - rcvNxt;
          windowSpan = word_of_int (a_dataNackMaxGap a)
      in if diff \<le> windowSpan then filter missing (seqsUp rcvNxt (unat diff))
         else
           let sampleCount = max 1 (goQuot (a_dataNackMaxGap a + 19) 20);
               sampled = take (nat sampleCount) (filter missing (seqsUp rcvNxt (unat diff)));
               frontier = rcvNxt + windowSpan - 1
           in case find missing (seqsDown frontier (unat (frontier - rcvNxt) + 1)) of
                Some candidate \<Rightarrow> if candidate \<in> set sampled then sampled else sampled @ [candidate]
              | None \<Rightarrow> sampled)"

definition maybeSendDataNacks :: "'q enqueuerOps \<Rightarrow> instant \<Rightarrow> u16 \<Rightarrow> 'q arq \<Rightarrow> 'q arq" where
  "maybeSendDataNacks E now sn a =
     (if a_dataNackMaxGap a \<le> 0 \<or> a_closed a then a
      else
        let diff = sn - a_rcvNxt a
        in if diff = 0 \<or> 32768 \<le> diff then a
           else fold (sendDataNack E now True) (missingSeqs a sn) (pruneDataNackState (a_rcvNxt a) a))"

definition gapRecoveryCandidates :: "'q arq \<Rightarrow> u16 list" where
  "gapRecoveryCandidates a =
     (if a_dataNackMaxGap a \<le> 0 \<or> a_rcvBuf a = [] \<or> mget (a_rcvBuf a) (a_rcvNxt a) \<noteq> None then []
      else filter (\<lambda>s. mget (a_rcvBuf a) s = None) (seqsUp (a_rcvNxt a) (unat (word_of_int (a_dataNackMaxGap a) :: u16))))"

definition runGapRecoveryWatchdog :: "'q enqueuerOps \<Rightarrow> instant \<Rightarrow> 'q arq \<Rightarrow> 'q arq" where
  "runGapRecoveryWatchdog E now a =
     (if a_dataNackMaxGap a \<le> 0 \<or> a_closed a then a
      else
        let missing = gapRecoveryCandidates a
        in if missing = [] \<or> timeSub now (a_lastActivity a) < a_dataNackRepeatInterval a then a
           else fold (sendDataNack E now False) missing (pruneDataNackState (a_rcvNxt a) a))"

section \<open>Receiving data\<close>

definition closeWriteAfterBreak :: "'q enqueuerOps \<Rightarrow> instant \<Rightarrow> 'q arq \<Rightarrow> 'q arq" where
  "closeWriteAfterBreak E now a =
     (if a_localWriterBroken a \<and> \<not> a_closeWriteSent a \<and> \<not> (a_waitingAck a \<and> a_waitingAckFor a = PACKET_STREAM_CLOSE_WRITE) \<and>
         \<not> a_closed a \<and> \<not> a_rstReceived a \<and> \<not> a_rstSent a
      then Close E now ''Inbound data received after local writer closed'' (noClose\<lparr>SendCloseWrite := True\<rparr>) a
      else a)"

definition ReceiveData :: "'q enqueuerOps \<Rightarrow> instant \<Rightarrow> u16 \<Rightarrow> bytes \<Rightarrow> 'q arq \<Rightarrow> bool \<times> 'q arq" where
  "ReceiveData E now sn data a =
     (if a_closed a \<or> a_rstReceived a \<or> a_rstSent a then (False, a)
      else if a_localWriterBroken a then (False, closeWriteAfterBreak E now a)
      else if int (length (a_rxChan a)) < a_rxCap a
      then (True, a\<lparr>a_pendingInbound := a_pendingInbound a + 1, a_rxChan := a_rxChan a @ [(sn, data)]\<rparr>)
      else (False, if 0 < a_pendingInbound a + 1 then a else a\<lparr>a_pendingInbound := a_pendingInbound a + 1\<rparr>))"

definition pushDataAck :: "'q enqueuerOps \<Rightarrow> u16 \<Rightarrow> 'q arq \<Rightarrow> 'q arq" where
  "pushDataAck E sn a = snd (arqPush E (DefaultPacketPriority PACKET_STREAM_DATA_ACK) PACKET_STREAM_DATA_ACK sn 0 0 0 0 [] a)"

text \<open>A chunk inside the window: store it unless it is there, acknowledge it, and ask for what is missing.\<close>

definition acceptReceived :: "'q enqueuerOps \<Rightarrow> instant \<Rightarrow> u16 \<Rightarrow> bytes \<Rightarrow> 'q arq \<Rightarrow> 'q arq" where
  "acceptReceived E now sn data a =
     (let absent = (mget (a_rcvBuf a) sn = None);
          a = (if absent then a\<lparr>a_rcvBuf := mput (a_rcvBuf a) sn data\<rparr> else a);
          a = pushDataAck E sn a;
          a = (if absent then clearSentDataNack E sn a else a)
      in signalFlushReady (maybeSendDataNacks E now sn a))"

definition processReceivedData :: "'q enqueuerOps \<Rightarrow> instant \<Rightarrow> u16 \<Rightarrow> bytes \<Rightarrow> 'q arq \<Rightarrow> 'q arq" where
  "processReceivedData E now sn data a =
     (let a = (if 0 < a_pendingInbound a then a\<lparr>a_pendingInbound := a_pendingInbound a - 1\<rparr> else a) in
      if a_localWriterBroken a \<or> a_closeWriteSent a \<or> a_closeWriteAcked a then closeWriteAfterBreak E now a
      else
        let a = a\<lparr>a_lastActivity := now\<rparr>;
            diff = sn - a_rcvNxt a
        in
        if 32768 \<le> diff then pushDataAck E sn a
        else if a_receiveWindowSize a < uint diff then a
        else
          let absent = (mget (a_rcvBuf a) sn = None) in
          if absent \<and> a_receiveWindowSize a \<le> int (length (a_rcvBuf a)) \<and> sn \<noteq> a_rcvNxt a then a
          else acceptReceived E now sn data a)"

text \<open>One turn of \<open>rxLoop\<close>, and its end when the stream's context is done.\<close>

definition rxLoopReceive :: "'q enqueuerOps \<Rightarrow> instant \<Rightarrow> 'q arq \<Rightarrow> 'q arq" where
  "rxLoopReceive E now a =
     (case a_rxChan a of
        [] \<Rightarrow> a
      | (sn, data) # rest \<Rightarrow> processReceivedData E now sn data (a\<lparr>a_rxChan := rest\<rparr>))"

definition rxLoopDrain :: "'q arq \<Rightarrow> 'q arq" where
  "rxLoopDrain a =
     (if a_ctxDone a \<and> a_rxChan a \<noteq> []
      then a\<lparr>a_rxChan := [], a_pendingInbound := max 0 (a_pendingInbound a - int (length (a_rxChan a)))\<rparr>
      else a)"

section \<open>Writing to the local connection\<close>

lemma length_mdel_less: "mget m k = Some v \<Longrightarrow> length (mdel m k) < length m"
  by (induction m) (auto simp: le_imp_less_Suc length_delete_le split: if_splits)

text \<open>The chunks that follow \<open>rcvNxt\<close> without a gap leave the buffer.\<close>

function collectReady :: "(u16, bytes) gomap \<Rightarrow> u16 \<Rightarrow> bytes list \<times> (u16, bytes) gomap \<times> u16" where
  "collectReady buf nxt =
     (case mget buf nxt of
        None \<Rightarrow> ([], buf, nxt)
      | Some data \<Rightarrow> let (chunks, buf', nxt') = collectReady (mdel buf nxt) (nxt + 1) in (data # chunks, buf', nxt'))"
  by pat_completeness auto
termination
  by (relation "measure (\<lambda>(buf, _). length buf)") (auto simp: length_mdel_less)

declare collectReady.simps [simp del]

text \<open>
  Where \<open>writeLoop\<close> stands: waiting for a signal, about to collect chunks, writing the remaining bytes
  after a number of transient failures, or ended.
\<close>

datatype writerPc = WaitFlush | Collecting | Writing bytes nat | WriterDone

definition writeLoopFinish :: "'q enqueuerOps \<Rightarrow> 'q arq \<Rightarrow> writerPc \<times> 'q arq" where
  "writeLoopFinish E a =
     (let a = a\<lparr>a_localWritePending := False\<rparr>;
          (finalized, a) = tryFinalizePeerResetDrain E a
      in if finalized then (WriterDone, a) else (Collecting, tryFinalizeRemoteEOF E a))"

definition writeLoopNext :: "'q enqueuerOps \<Rightarrow> bytes \<Rightarrow> nat \<Rightarrow> 'q arq \<Rightarrow> writerPc \<times> 'q arq" where
  "writeLoopNext E remaining transientRetries a =
     (if remaining = [] then writeLoopFinish E a else (Writing remaining transientRetries, a))"

text \<open>Nothing is ready: pass on the end of the stream if it was announced, and wait.\<close>

definition writeLoopIdle :: "'q enqueuerOps \<Rightarrow> 'q arq \<Rightarrow> writerPc \<times> 'q arq" where
  "writeLoopIdle E a =
     (let a = (if a_closeReadReceived a \<and> a_pendingInbound a = 0 then halfCloseLocalWriter a else a);
          (finalized, a) = (if a_rstReceived a then tryFinalizePeerResetDrain E a else (False, a))
      in if finalized then (WriterDone, a) else (WaitFlush, tryFinalizeRemoteEOF E a))"

definition writeLoopCollect :: "'q enqueuerOps \<Rightarrow> instant \<Rightarrow> 'q arq \<Rightarrow> writerPc \<times> 'q arq" where
  "writeLoopCollect E now a =
     (if a_closed a then (WriterDone, a)
      else if \<not> a_ioReady a then (WaitFlush, a)
      else if a_localConn a = None
      then (WriterDone, Close E now ''Local connection missing for writer'' (noClose\<lparr>SendRST := True, AfterDrain := True\<rparr>) a)
      else
        let (toWrite, buf, nxt) = collectReady (a_rcvBuf a) (a_rcvNxt a);
            a = a\<lparr>a_rcvBuf := buf, a_rcvNxt := nxt, a_localWritePending := toWrite \<noteq> []\<rparr>
        in if toWrite = [] then writeLoopIdle E a
           else writeLoopNext E (concat toWrite) 0 a)"

text \<open>The signal that wakes the loop, or data that is ready without one.\<close>

definition writeLoopWake :: "'q arq \<Rightarrow> writerPc \<times> 'q arq" where
  "writeLoopWake a =
     (if mget (a_rcvBuf a) (a_rcvNxt a) \<noteq> None then (Collecting, a)
      else if a_flushSignal a then (Collecting, a\<lparr>a_flushSignal := False\<rparr>)
      else if a_ctxDone a then (WriterDone, a)
      else (WaitFlush, a))"

definition writerBroken :: "'q enqueuerOps \<Rightarrow> instant \<Rightarrow> string \<Rightarrow> string \<Rightarrow> 'q arq \<Rightarrow> writerPc \<times> 'q arq" where
  "writerBroken E now graceful plain a =
     (let a = markLocalWriterBroken a;
          a = Close E now (if isGracefulCloseInProgress a then graceful else plain) (noClose\<lparr>SendCloseWrite := True\<rparr>) a
      in (WriterDone, a\<lparr>a_localWritePending := False\<rparr>))"

text \<open>After \<open>Write\<close> took \<open>n\<close> of the remaining bytes and returned an error with its class and message, or none.\<close>

definition writeLoopWrite ::
  "'q enqueuerOps \<Rightarrow> instant \<Rightarrow> nat \<Rightarrow> (ioErrorClass \<times> string) option \<Rightarrow> bytes \<Rightarrow> nat \<Rightarrow> 'q arq \<Rightarrow> writerPc \<times> 'q arq" where
  "writeLoopWrite E now n err remaining transientRetries a =
     (let a = a\<lparr>a_localConn := map_option (\<lambda>c. c\<lparr>connWritten := connWritten c @ take n remaining\<rparr>) (a_localConn a)\<rparr>;
          remaining = drop n remaining;
          failed = (\<lambda>msg. writerBroken E now (''Local App Write Error during graceful close: '' @ msg) (''Local App Write Error: '' @ msg) a)
      in case err of
           None \<Rightarrow> writeLoopNext E remaining transientRetries a
         | Some (class, msg) \<Rightarrow>
             if class = ioErrorTimeout \<or> class = ioErrorTransient then
               if 3 \<le> transientRetries then failed msg
               else writeLoopNext E remaining (transientRetries + 1) a
             else if class = ioErrorEOF \<or> class = ioErrorClosed then
               writerBroken E now ''Local App Closed Connection (writer closed during graceful close)''
                 ''Local App Closed Connection (writer closed)'' a
             else failed msg)"

section \<open>Acknowledgements of data\<close>

definition ReceiveAck :: "'q enqueuerOps \<Rightarrow> instant \<Rightarrow> u16 \<Rightarrow> 'q arq \<Rightarrow> bool \<times> 'q arq" where
  "ReceiveAck E now sn a =
     (let a = a\<lparr>a_lastActivity := now\<rparr> in
      case mget (a_sndBuf a) sn of
        None \<Rightarrow> (False, a)
      | Some info \<Rightarrow>
          let a = a\<lparr>a_sndBuf := mdel (a_sndBuf a) sn\<rparr>;
              a = (if a_deferredClose a \<or> a_state a = StateDraining then resetDrainTracking now a else a);
              a = (if int (length (a_sndBuf a)) < a_limit a then signalWindowNotFull a else a);
              a = (if d_SampleEligible info \<and> d_Dispatched info \<and> d_LastSentAt info \<noteq> 0
                   then noteSuccessfulDataSample (timeSub now (d_LastSentAt info)) a else a);
              a = a\<lparr>a_enqueuer := removeQueuedData E sn (a_enqueuer a)\<rparr>;
              a = (if a_closeReadReceived a then tryFinalizeRemoteEOF E a else a)
          in (True, settleTerminalDrain E now a))"

definition HandleAckPacket :: "'q enqueuerOps \<Rightarrow> instant \<Rightarrow> u8 \<Rightarrow> u16 \<Rightarrow> u8 \<Rightarrow> 'q arq \<Rightarrow> bool \<times> 'q arq" where
  "HandleAckPacket E now packetType sequenceNum fragmentID a =
     (if packetType = PACKET_STREAM_DATA_ACK then ReceiveAck E now sequenceNum a
      else if ReverseControlAckFor packetType = None then (False, a)
      else ReceiveControlAck E now packetType sequenceNum fragmentID a)"

definition HandleDataNack :: "'q enqueuerOps \<Rightarrow> instant \<Rightarrow> u16 \<Rightarrow> 'q arq \<Rightarrow> bool \<times> 'q arq" where
  "HandleDataNack E now sn a =
     (if a_closed a \<or> IsReset a then (False, a)
      else
        let a = a\<lparr>a_lastActivity := now\<rparr> in
        case mget (a_sndBuf a) sn of
          None \<Rightarrow> (False, a)
        | Some info \<Rightarrow>
            if d_LastNackSentAt info \<noteq> 0 \<and> timeSub now (d_LastNackSentAt info) < a_dataNackRepeatInterval a then (False, a)
            else
              let (ok, a) = arqPush E (DefaultPacketPriority PACKET_STREAM_RESEND) PACKET_STREAM_RESEND sn 0 0
                              (d_CompressionType info) (d_TTL info) (d_Data info) a
              in if \<not> ok then (False, a)
                 else (True, a\<lparr>a_sndBuf := mput (a_sndBuf a) sn (info\<lparr>d_LastNackSentAt := now, d_SampleEligible := False\<rparr>)\<rparr>))"

section \<open>Retransmission\<close>

text \<open>
  The oldest jobs, with the largest distance to \<open>sndNxt\<close>, go out as \<open>RESEND\<close>. The candidates are pairs of
  an index and its distance, the two parallel slices of the code.
\<close>

definition insertBest :: "rtxJob list \<Rightarrow> nat \<Rightarrow> nat \<Rightarrow> u16 \<Rightarrow> (nat \<times> u16) list \<Rightarrow> (nat \<times> u16) list" where
  "insertBest jobs frontBudget idx dist best =
     (let stays = (\<lambda>(prevIdx, prevDist). dist < prevDist \<or> prevDist = dist \<and> j_sn (jobs ! prevIdx) \<le> j_sn (jobs ! idx));
          kept = rev (dropWhile (\<lambda>p. \<not> stays p) (rev best))
      in take frontBudget (kept @ (idx, dist) # drop (length kept) best))"

definition considerJob :: "rtxJob list \<Rightarrow> nat \<Rightarrow> u16 \<Rightarrow> nat \<Rightarrow> (nat \<times> u16) list \<Rightarrow> (nat \<times> u16) list" where
  "considerJob jobs frontBudget sndNxt i best =
     (let dist = sndNxt - j_sn (jobs ! i) in
      if length best < frontBudget then insertBest jobs frontBudget i dist best
      else
        let (lastIdx, lastDist) = last best
        in if lastDist < dist \<or> dist = lastDist \<and> j_sn (jobs ! i) < j_sn (jobs ! lastIdx)
           then insertBest jobs frontBudget i dist best else best)"

definition frontBudgetOf :: "int \<Rightarrow> nat \<Rightarrow> nat" where
  "frontBudgetOf windowSize jobs = min (nat (min 64 (max 1 (goQuot windowSize 10)))) jobs"

definition retransmitPriorityKinds :: "'q arq \<Rightarrow> rtxJob list \<Rightarrow> bool list" where
  "retransmitPriorityKinds a jobs =
     (if length jobs \<le> 1 then map (\<lambda>_. True) jobs
      else
        let best = fold (considerJob jobs (frontBudgetOf (a_windowSize a) (length jobs)) (a_sndNxt a)) [0..<length jobs] []
        in map (\<lambda>i. i \<in> fst ` set best) [0..<length jobs])"

datatype rtxScan = RtxTTLExpired | RtxRetryExceeded | RtxJobs "rtxJob list"

fun scanRetransmits :: "instant \<Rightarrow> 'q arq \<Rightarrow> bool \<Rightarrow> duration \<Rightarrow> (u16, arqDataItem) gomap \<Rightarrow> rtxJob list \<Rightarrow> rtxScan" where
  "scanRetransmits now a draining drainRTOCap [] jobs = RtxJobs jobs"
| "scanRetransmits now a draining drainRTOCap ((sn, info) # rest) jobs =
     (if 0 < d_TTL info \<and> d_TTL info \<le> timeSub now (d_CreatedAt info) then RtxTTLExpired
      else if \<not> 0 < d_TTL info \<and> a_dataPacketTTL a \<le> timeSub now (d_CreatedAt info) \<and> a_maxDataRetries a \<le> d_Retries info
      then RtxRetryExceeded
      else
        let effectiveRTO = (if draining \<and> drainRTOCap < d_CurrentRTO info then drainRTOCap else d_CurrentRTO info)
        in if \<not> d_Dispatched info \<or> timeSub now (d_LastSentAt info) < effectiveRTO
           then scanRetransmits now a draining drainRTOCap rest jobs
           else scanRetransmits now a draining drainRTOCap rest
                  (jobs @ [\<lparr>j_sn = sn, j_data = d_Data info, j_compressionType = d_CompressionType info\<rparr>]))"

definition retransmitJob :: "'q enqueuerOps \<Rightarrow> instant \<Rightarrow> bool \<Rightarrow> duration \<Rightarrow> rtxJob \<times> bool \<Rightarrow> 'q arq \<Rightarrow> 'q arq" where
  "retransmitJob E now draining drainRTOCap jk a =
     (let (j, isPriority) = jk;
          packetType = (if isPriority then PACKET_STREAM_RESEND else PACKET_STREAM_DATA);
          (ok, a) = arqPush E (DefaultPacketPriority packetType) packetType (j_sn j) 0 0 (j_compressionType j) 0 (j_data j) a
      in if \<not> ok then noteDrainQueueFailure now a
         else
           case mget (a_sndBuf a) (j_sn j) of
             None \<Rightarrow> a
           | Some info \<Rightarrow>
               let rtoMax = (if draining \<and> drainRTOCap < a_maxRTO a then drainRTOCap else a_maxRTO a);
                   info = info\<lparr>d_LastSentAt := now, d_Dispatched := False, d_Retries := d_Retries info + 1, d_SampleEligible := False,
                               d_CurrentRTO := clampDuration (dataRetransmitRTOGrowth (d_CurrentRTO info)) (currentDataBaseRTO a) rtoMax\<rparr>
               in a\<lparr>a_sndBuf := mput (a_sndBuf a) (j_sn j) info\<rparr>)"

definition checkRetransmits :: "'q enqueuerOps \<Rightarrow> instant \<Rightarrow> 'q arq \<Rightarrow> 'q arq" where
  "checkRetransmits E now a =
     (if a_closed a then a
      else
        let a = runFinalAckWatchdog E now (runGapRecoveryWatchdog E now a);
            (handled, a) = handleTerminalRetransmitState E now a
        in if handled then a
           else
             let draining = (a_deferredClose a \<or> a_state a = StateDraining);
                 drainRTOCap = clampDuration (2 * second) (a_rto a) (a_maxRTO a)
             in case scanRetransmits now a draining drainRTOCap (a_sndBuf a) [] of
                  RtxTTLExpired \<Rightarrow> handleTrackedPacketTTLExpiry E now PACKET_STREAM_DATA ''Packet TTL expired'' a
                | RtxRetryExceeded \<Rightarrow> Close E now ''Max retransmissions exceeded'' (noClose\<lparr>SendRST := True\<rparr>) a
                | RtxJobs jobs \<Rightarrow>
                    let a = fold (retransmitJob E now draining drainRTOCap) (zip jobs (retransmitPriorityKinds a jobs)) a
                    in if a_enableControlReliability a then checkControlRetransmits E now a else a)"

end
