(* ===== verification/Arq_Frame.thy ===== *)
theory Arq_Frame
  imports Arq_Data
begin

text \<open>
  What the operations of a stream leave alone. Every operation other than reading a chunk, receiving
  an acknowledgement, processing received data and writing to the local connection keeps the send
  and receive buffers or drops them when the stream can no longer use them, and adds to the transmit
  queue only control packets, repetitions of buffered chunks and the repeated last acknowledgement.
  The contract of the transmit queue is the locale \<open>packet_queue\<close>.
\<close>

section \<open>Views of a stream\<close>

type_synonym packetView = "u8 \<times> u16 \<times> bytes"

definition sndData :: "'q arq \<Rightarrow> (u16 \<times> bytes) list" where
  "sndData a = map (\<lambda>(sn, i). (sn, d_Data i)) (a_sndBuf a)"

definition written :: "'q arq \<Rightarrow> bytes" where
  "written a = (case a_localConn a of Some c \<Rightarrow> connWritten c | None \<Rightarrow> [])"

text \<open>The stream sends no further chunk, or accepts none.\<close>

definition sendOver :: "'q arq \<Rightarrow> bool" where
  "sendOver a \<longleftrightarrow> a_closed a \<or> a_rstSent a \<or> a_rstReceived a \<or> a_closeWriteReceived a"

definition receiveOver :: "'q arq \<Rightarrow> bool" where
  "receiveOver a \<longleftrightarrow> a_closed a \<or> a_rstSent a \<or> a_localWriterBroken a"

definition isDataType :: "u8 \<Rightarrow> bool" where
  "isDataType t \<longleftrightarrow> t = PACKET_STREAM_DATA \<or> t = PACKET_STREAM_RESEND"

definition controlsOnly :: "'q arq \<Rightarrow> bool" where
  "controlsOnly a \<longleftrightarrow> (\<forall>(_, i) \<in> set (a_controlSndBuf a). \<not> isDataType (c_PacketType i) \<and> c_PacketType i \<noteq> PACKET_STREAM_DATA_ACK)"

text \<open>The packets a stream may add to its queue without a new chunk read or received.\<close>

definition repeatable :: "'q arq \<Rightarrow> packetView set" where
  "repeatable a =
     {(t, sn, payload). (isDataType t \<longrightarrow> (sn, payload) \<in> set (sndData a)) \<and>
        (t = PACKET_STREAM_DATA_ACK \<longrightarrow> sn = a_rcvNxt a - 1 \<and> 0 < a_rcvNxt a \<and> \<not> receiveOver a)}"

text \<open>A buffer is kept or dropped, and dropped only when its use is over.\<close>

definition keptOrDropped :: "'b list \<Rightarrow> 'b list \<Rightarrow> bool \<Rightarrow> bool \<Rightarrow> bool" where
  "keptOrDropped xs ys over over' \<longleftrightarrow> (ys = xs \<or> ys = [] \<and> over') \<and> (over \<longrightarrow> over')"

definition fixedPart :: "'q arq \<Rightarrow> (u16 \<times> u16 \<times> int \<times> int) \<times> rxPayload list \<times> bool \<times> bytes" where
  "fixedPart a =
     ((a_sndNxt a, a_rcvNxt a, a_limit a, a_receiveWindowSize a), a_rxChan a, a_localConn a = None, written a)"

definition stopsReading :: "'q arq \<Rightarrow> 'q arq \<Rightarrow> bool" where
  "stopsReading a b \<longleftrightarrow>
     (sendOver b \<longrightarrow> sendOver a \<or> a_closed b \<or> a_stopLocalRead b) \<and> (a_stopLocalRead a \<longrightarrow> a_stopLocalRead b) \<and>
     (a_closed a \<longrightarrow> a_closed b) \<and> (a_isVirtual b \<longrightarrow> a_isVirtual a)"

definition keeps :: "'q arq \<Rightarrow> 'q arq \<Rightarrow> bool" where
  "keeps a b \<longleftrightarrow>
     fixedPart b = fixedPart a \<and> keptOrDropped (sndData a) (sndData b) (sendOver a) (sendOver b) \<and>
     keptOrDropped (a_rcvBuf a) (a_rcvBuf b) (receiveOver a) (receiveOver b) \<and> stopsReading a b"

lemma keptOrDropped_trans: "keptOrDropped xs ys o1 o2 \<Longrightarrow> keptOrDropped ys zs o2 o3 \<Longrightarrow> keptOrDropped xs zs o1 o3"
  by (auto simp: keptOrDropped_def)

lemma stopsReading_trans: "stopsReading a b \<Longrightarrow> stopsReading b c \<Longrightarrow> stopsReading a c"
  by (auto simp: stopsReading_def)

lemma keeps_refl [simp, intro!]: "keeps a a"
  by (simp add: keeps_def keptOrDropped_def stopsReading_def)

lemma keeps_trans: "keeps a b \<Longrightarrow> keeps b c \<Longrightarrow> keeps a c"
  unfolding keeps_def using keptOrDropped_trans stopsReading_trans by metis

lemmas keeps_defs = keeps_def keptOrDropped_def fixedPart_def stopsReading_def written_def sendOver_def receiveOver_def

lemma repeatable_mono: "keeps a b \<Longrightarrow> repeatable b \<subseteq> repeatable a"
  by (auto simp: keeps_def keptOrDropped_def fixedPart_def repeatable_def)

section \<open>The contract of a transmit queue\<close>

locale packet_queue =
  fixes E :: "instant \<Rightarrow> 'q enqueuerOps"
    and qinv :: "'q \<Rightarrow> bool"
    and queued :: "'q \<Rightarrow> packetView set"
  assumes inv_push: "qinv q \<Longrightarrow> qinv (snd (pushTX (E now) pr t sn f tf c ttl payload q))"
    and queued_push: "qinv q \<Longrightarrow> queued (snd (pushTX (E now) pr t sn f tf c ttl payload q)) \<subseteq> insert (t, sn, payload) (queued q)"
    and inv_remove: "qinv q \<Longrightarrow> qinv (removeQueuedData (E now) sn q)"
    and queued_remove: "qinv q \<Longrightarrow> queued (removeQueuedData (E now) sn q) \<subseteq> queued q"
    and inv_remove_nack: "qinv q \<Longrightarrow> qinv (removeQueuedDataNack (E now) sn q)"
    and queued_remove_nack: "qinv q \<Longrightarrow> queued (removeQueuedDataNack (E now) sn q) \<subseteq> queued q"
    and inv_closed: "qinv q \<Longrightarrow> qinv (onARQClosed (E now) reason q)"
    and queued_closed: "qinv q \<Longrightarrow> queued (onARQClosed (E now) reason q) \<subseteq> queued q"
begin

definition framed :: "'q arq \<Rightarrow> 'q arq \<Rightarrow> bool" where
  "framed a b \<longleftrightarrow> keeps a b \<and>
     (qinv (a_enqueuer a) \<and> controlsOnly a \<longrightarrow>
      qinv (a_enqueuer b) \<and> controlsOnly b \<and> queued (a_enqueuer b) \<subseteq> queued (a_enqueuer a) \<union> repeatable a)"

lemma framed_refl [simp, intro!]: "framed a a"
  by (simp add: framed_def)

lemma framed_trans: "framed a b \<Longrightarrow> framed b c \<Longrightarrow> framed a c"
  unfolding framed_def using keeps_trans repeatable_mono by blast

end

section \<open>Irrelevant fields\<close>

text \<open>Two streams that agree on these fields are interchangeable for the frame.\<close>

definition relevant ::
  "'q arq \<Rightarrow> (u16 \<times> u16 \<times> int \<times> int \<times> rxPayload list) \<times> (localConn option \<times> (u16 \<times> bytes) list \<times> (u16, bytes) gomap) \<times>
     (bool \<times> bool \<times> bool \<times> bool \<times> bool \<times> bool \<times> bool) \<times> 'q \<times> (u32, arqControlItem) gomap" where
  "relevant a =
     ((a_sndNxt a, a_rcvNxt a, a_limit a, a_receiveWindowSize a, a_rxChan a), (a_localConn a, sndData a, a_rcvBuf a),
      (a_closed a, a_rstSent a, a_rstReceived a, a_closeWriteReceived a, a_localWriterBroken a, a_stopLocalRead a, a_isVirtual a),
      a_enqueuer a, a_controlSndBuf a)"

lemma relevant_simps [simp]:
  "relevant (a\<lparr>a_state := x1\<rparr>) = relevant a" "relevant (a\<lparr>a_closeReason := x2\<rparr>) = relevant a"
  "relevant (a\<lparr>a_deferredClose := x3\<rparr>) = relevant a" "relevant (a\<lparr>a_deferredReason := x4\<rparr>) = relevant a"
  "relevant (a\<lparr>a_deferredDeadline := x5\<rparr>) = relevant a" "relevant (a\<lparr>a_deferredPacket := x6\<rparr>) = relevant a"
  "relevant (a\<lparr>a_waitingAck := x7\<rparr>) = relevant a" "relevant (a\<lparr>a_waitingAckFor := x8\<rparr>) = relevant a"
  "relevant (a\<lparr>a_ackWaitDeadline := x9\<rparr>) = relevant a" "relevant (a\<lparr>a_ctxDone := x10\<rparr>) = relevant a"
  "relevant (a\<lparr>a_firstDataNackSeen := x11\<rparr>) = relevant a" "relevant (a\<lparr>a_lastDataNackSent := x12\<rparr>) = relevant a"
  "relevant (a\<lparr>a_windowNotFull := x13\<rparr>) = relevant a" "relevant (a\<lparr>a_flushSignal := x14\<rparr>) = relevant a"
  "relevant (a\<lparr>a_closeReadSent := x15\<rparr>) = relevant a" "relevant (a\<lparr>a_closeReadReceived := x16\<rparr>) = relevant a"
  "relevant (a\<lparr>a_closeReadAcked := x17\<rparr>) = relevant a" "relevant (a\<lparr>a_closeReadAckedAt := x18\<rparr>) = relevant a"
  "relevant (a\<lparr>a_closeReadSeqSent := x19\<rparr>) = relevant a" "relevant (a\<lparr>a_closeWriteSent := x20\<rparr>) = relevant a"
  "relevant (a\<lparr>a_closeWriteAcked := x21\<rparr>) = relevant a" "relevant (a\<lparr>a_closeWriteSeqSent := x22\<rparr>) = relevant a"
  "relevant (a\<lparr>a_rstSeqSent := x23\<rparr>) = relevant a" "relevant (a\<lparr>a_rstAcked := x24\<rparr>) = relevant a"
  "relevant (a\<lparr>a_localWriteClosed := x25\<rparr>) = relevant a" "relevant (a\<lparr>a_localWritePending := x26\<rparr>) = relevant a"
  "relevant (a\<lparr>a_drainProgressAt := x27\<rparr>) = relevant a" "relevant (a\<lparr>a_drainQueueFailAt := x28\<rparr>) = relevant a"
  "relevant (a\<lparr>a_drainQueueFails := x29\<rparr>) = relevant a" "relevant (a\<lparr>a_drainStallLogged := x30\<rparr>) = relevant a"
  "relevant (a\<lparr>a_clientEOFAt := x31\<rparr>) = relevant a" "relevant (a\<lparr>a_lastActivity := x32\<rparr>) = relevant a"
  "relevant (a\<lparr>a_lastDuplicateAckAt := x33\<rparr>) = relevant a" "relevant (a\<lparr>a_streamWorkersStarted := x34\<rparr>) = relevant a"
  "relevant (a\<lparr>a_ioReady := x35\<rparr>) = relevant a" "relevant (a\<lparr>a_controlAdaptiveRTO := x36\<rparr>) = relevant a"
  "relevant (a\<lparr>a_dataAdaptiveRTO := x37\<rparr>) = relevant a" "relevant (a\<lparr>a_pendingInbound := x38\<rparr>) = relevant a"
  by (simp_all add: relevant_def sndData_def)

lemma keeps_relevant: "relevant b = relevant b' \<Longrightarrow> keeps a b = keeps a b'"
  by (simp add: relevant_def keeps_defs)

lemma controlsOnly_relevant: "relevant b = relevant b' \<Longrightarrow> controlsOnly b = controlsOnly b'"
  by (simp add: relevant_def controlsOnly_def)

context packet_queue
begin

lemma framed_relevant: "relevant b = relevant b' \<Longrightarrow> framed a b = framed a b'"
  using keeps_relevant [of b b' a] controlsOnly_relevant [of b b'] by (simp add: framed_def relevant_def)

lemma framed_irrelevant:
  assumes "framed a b" "relevant c = relevant b"
  shows "framed a c"
  using assms framed_relevant by blast

end

section \<open>Control operations\<close>

definition isControlType :: "u8 \<Rightarrow> bool" where
  "isControlType t \<longleftrightarrow> \<not> isDataType t \<and> t \<noteq> PACKET_STREAM_DATA_ACK"

lemma control_repeatable: "isControlType t \<Longrightarrow> (t, sn, payload) \<in> repeatable a"
  by (simp add: isControlType_def repeatable_def)

lemma terminal_control [simp]:
  "isControlType PACKET_STREAM_CLOSE_READ" "isControlType PACKET_STREAM_CLOSE_WRITE" "isControlType PACKET_STREAM_RST"
  "isControlType PACKET_STREAM_DATA_NACK"
  by (simp_all add: isControlType_def isDataType_def)

lemma keeps_enqueuer [simp]: "keeps a (b\<lparr>a_enqueuer := q\<rparr>) = keeps a b"
  by (simp add: keeps_defs sndData_def)

lemma keeps_tracking [simp]: "keeps a (b\<lparr>a_controlSndBuf := m\<rparr>) = keeps a b"
  by (simp add: keeps_defs sndData_def)

lemma controlsOnly_enqueuer [simp]: "controlsOnly (b\<lparr>a_enqueuer := q\<rparr>) = controlsOnly b"
  by (simp add: controlsOnly_def)

context packet_queue
begin

lemma framed_queue_in:
  assumes "framed a b" "qinv (a_enqueuer b) \<Longrightarrow> qinv q \<and> queued q \<subseteq> queued (a_enqueuer b) \<union> repeatable a"
  shows "framed a (b\<lparr>a_enqueuer := q\<rparr>)"
  using assms unfolding framed_def by auto

lemma framed_queue:
  assumes "framed a b" "qinv (a_enqueuer b) \<Longrightarrow> qinv q \<and> queued q \<subseteq> queued (a_enqueuer b)"
  shows "framed a (b\<lparr>a_enqueuer := q\<rparr>)"
  using assms(1) by (rule framed_queue_in) (use assms(2) in blast)

lemma framed_push:
  assumes "framed a b" "(t, sn, payload) \<in> repeatable a"
  shows "framed a (snd (arqPush (E now) pr t sn f tf c ttl payload b))"
proof -
  have "framed a (b\<lparr>a_enqueuer := snd (pushTX (E now) pr t sn f tf c ttl payload (a_enqueuer b))\<rparr>)"
    using assms(1)
    by (rule framed_queue_in) (use assms(2) in \<open>auto simp: inv_push dest: queued_push [THEN subsetD]\<close>)
  then show ?thesis by (simp add: arqPush_def split_beta)
qed

lemma framed_tracking:
  assumes "framed a b" "controlsOnly b \<Longrightarrow> controlsOnly (b\<lparr>a_controlSndBuf := m\<rparr>)"
  shows "framed a (b\<lparr>a_controlSndBuf := m\<rparr>)"
  using assms unfolding framed_def by auto

lemma fold_remove:
  assumes "\<And>x q. qinv q \<Longrightarrow> qinv (rm x q) \<and> queued (rm x q) \<subseteq> queued q" "qinv q"
  shows "qinv (fold rm xs q) \<and> queued (fold rm xs q) \<subseteq> queued q"
  using assms(2)
proof (induction xs arbitrary: q)
  case (Cons x xs)
  then show ?case using assms(1) [of q x] by (simp add: subset_trans) blast
qed simp

lemma framed_removeAllQueuedData: "framed a b \<Longrightarrow> framed a (removeAllQueuedData (E now) b)"
  unfolding removeAllQueuedData_def
  by (erule framed_queue) (rule fold_remove; auto simp: inv_remove queued_remove [THEN subsetD])

lemma framed_removeNacks:
  "framed a b \<Longrightarrow> framed a (b\<lparr>a_enqueuer := fold (\<lambda>(sn, _). removeQueuedDataNack (E now) sn) xs (a_enqueuer b)\<rparr>)"
  by (erule framed_queue) (rule fold_remove; auto simp: inv_remove_nack queued_remove_nack [THEN subsetD])

lemma framed_onARQClosed: "framed a b \<Longrightarrow> framed a (b\<lparr>a_enqueuer := onARQClosed (E now) reason (a_enqueuer b)\<rparr>)"
  by (erule framed_queue) (simp add: inv_closed queued_closed)

text \<open>A change of the buffers and the flags alone.\<close>

lemma framed_state:
  assumes "framed a b" "keeps b c" "a_enqueuer c = a_enqueuer b" "controlsOnly b \<Longrightarrow> controlsOnly c"
  shows "framed a c"
  using assms unfolding framed_def by (metis keeps_trans)

lemma framed_clearAllQueues:
  "framed a b \<Longrightarrow> sendOver b \<Longrightarrow> receiveOver b \<Longrightarrow> framed a (clearAllQueues ctl b)"
  by (erule framed_state)
    (simp_all add: clearAllQueues_def signalWindowNotFull_def clearDataNackState_def keeps_defs sndData_def controlsOnly_def Let_def)

lemma framed_finalizeClose: "framed a b \<Longrightarrow> framed a (finalizeClose (E now) reason b)"
proof (cases "a_closed b \<or> a_isVirtual b")
  case False
  let ?c = "b\<lparr>a_closed := True, a_localConn := closeConn (a_localConn b), a_sndBuf := [], a_rcvBuf := [], a_controlSndBuf := []\<rparr>"
  assume "framed a b"
  then have "framed a ?c"
    by (rule framed_state)
      (use False in \<open>simp_all add: keeps_defs sndData_def controlsOnly_def closeConn_def option.map_sel split: option.splits\<close>)
  then have "framed a (?c\<lparr>a_enqueuer := onARQClosed (E now) reason (a_enqueuer ?c)\<rparr>)" by (rule framed_onARQClosed)
  then show ?thesis
    by (rule framed_irrelevant)
      (use False in \<open>simp add: relevant_def sndData_def finalizeClose_def clearAllQueues_def signalWindowNotFull_def clearDataNackState_def setState_def Let_def\<close>)
qed (simp add: finalizeClose_def)

end

lemma set_mput: "set (mput m k v) \<subseteq> insert (k, v) (set m)"
  by (induction m) auto

context packet_queue
begin

lemmas framed_irrelevant_simps [simp] = relevant_simps [THEN framed_relevant]

lemma framed_flags:
  "framed a b \<Longrightarrow> framed a (b\<lparr>a_stopLocalRead := True\<rparr>)"
  "framed a b \<Longrightarrow> framed a (b\<lparr>a_localWriterBroken := True\<rparr>)"
  "framed a b \<Longrightarrow> framed a (b\<lparr>a_isVirtual := False\<rparr>)"
  "framed a b \<Longrightarrow> a_stopLocalRead b \<Longrightarrow> framed a (b\<lparr>a_rstSent := True\<rparr>)"
  "framed a b \<Longrightarrow> a_stopLocalRead b \<Longrightarrow> framed a (b\<lparr>a_rstReceived := True\<rparr>)"
  "framed a b \<Longrightarrow> a_stopLocalRead b \<Longrightarrow> framed a (b\<lparr>a_closeWriteReceived := True\<rparr>)"
  "framed a b \<Longrightarrow> receiveOver b \<Longrightarrow> framed a (b\<lparr>a_rcvBuf := []\<rparr>)"
  "framed a b \<Longrightarrow> sendOver b \<Longrightarrow> framed a (b\<lparr>a_sndBuf := []\<rparr>)"
  by (erule framed_state; simp add: keeps_defs sndData_def controlsOnly_def)+

lemma framed_closeConn: "framed a b \<Longrightarrow> framed a (b\<lparr>a_localConn := closeConn (a_localConn b)\<rparr>)"
  by (erule framed_state) (simp_all add: keeps_defs sndData_def controlsOnly_def closeConn_def split: option.splits)

lemma framed_simple [simp]:
  "framed a (signalWindowNotFull b) = framed a b" "framed a (signalFlushReady b) = framed a b" "framed a (setState st b) = framed a b"
  "framed a (clearDataNackState b) = framed a b" "framed a (cancelDeferred b) = framed a b" "framed a (awaitAck now t b) = framed a b"
  "framed a (resetDrainTracking now b) = framed a b" "framed a (noteSuccessfulDataSample d b) = framed a b"
  "framed a (noteSuccessfulControlSample d b) = framed a b" "framed a (markCloseReadAcked now b) = framed a b"
  "framed a (clearWaitingAck t b) = framed a b" "framed a (noteDrainQueueFailure now b) = framed a b"
  "framed a (noteClientEOF now b) = framed a b"
  by (simp_all add: signalWindowNotFull_def signalFlushReady_def setState_def clearDataNackState_def cancelDeferred_def awaitAck_def
      resetDrainTracking_def noteSuccessfulDataSample_def noteSuccessfulControlSample_def markCloseReadAcked_def clearWaitingAck_def
      noteDrainQueueFailure_def noteClientEOF_def Let_def)

lemma framed_tryFinalizeRemoteEOF: "framed a b \<Longrightarrow> framed a (tryFinalizeRemoteEOF (E now) b)"
  by (simp add: tryFinalizeRemoteEOF_def tryFinalizeClientLocalDisconnect_def Let_def framed_finalizeClose)

lemma framed_tryFinalizePeerResetDrain: "framed a b \<Longrightarrow> framed a (snd (tryFinalizePeerResetDrain (E now) b))"
  by (simp add: tryFinalizePeerResetDrain_def framed_finalizeClose)

lemma framed_MarkCloseReadSent: "framed a b \<Longrightarrow> framed a (MarkCloseReadSent (E now) b)"
  by (simp add: MarkCloseReadSent_def Let_def framed_tryFinalizeRemoteEOF)

lemma framed_MarkCloseReadReceived: "framed a b \<Longrightarrow> framed a (MarkCloseReadReceived (E now) b)"
  by (simp add: MarkCloseReadReceived_def Let_def framed_tryFinalizeRemoteEOF)

lemma receiveOver_broken: "a_localWriterBroken b \<Longrightarrow> receiveOver b"
  by (simp add: receiveOver_def)

lemma framed_MarkCloseWriteSent: "framed a b \<Longrightarrow> framed a (MarkCloseWriteSent b)"
proof -
  assume "framed a b"
  then have "framed a (b\<lparr>a_localWriterBroken := True\<rparr>)" by (rule framed_flags)
  then have "framed a ((b\<lparr>a_localWriterBroken := True\<rparr>)\<lparr>a_rcvBuf := []\<rparr>)" by (rule framed_flags) (simp add: receiveOver_def)
  then show ?thesis
    by (rule framed_irrelevant) (simp add: MarkCloseWriteSent_def setState_def relevant_def sndData_def Let_def)
qed

lemma framed_markCloseWriteAcked: "framed a b \<Longrightarrow> framed a (markCloseWriteAcked b)"
  by (drule framed_flags(2), erule framed_irrelevant) (simp add: markCloseWriteAcked_def relevant_def sndData_def)

lemma framed_markLocalWriterBroken: "framed a b \<Longrightarrow> framed a (markLocalWriterBroken b)"
proof -
  assume "framed a b"
  then have "framed a (b\<lparr>a_localWriterBroken := True\<rparr>)" by (rule framed_flags)
  then have "framed a ((b\<lparr>a_localWriterBroken := True\<rparr>)\<lparr>a_rcvBuf := []\<rparr>)" by (rule framed_flags) (simp add: receiveOver_def)
  then show ?thesis
    by (rule framed_irrelevant) (simp add: markLocalWriterBroken_def relevant_def sndData_def)
qed

lemma framed_halfCloseLocalWriter: "framed a b \<Longrightarrow> framed a (halfCloseLocalWriter b)"
  by (erule framed_state)
    (simp_all add: halfCloseLocalWriter_def keeps_defs sndData_def controlsOnly_def split: option.splits)

lemma framed_MarkRstSent: "framed a b \<Longrightarrow> a_stopLocalRead b \<Longrightarrow> framed a (MarkRstSent b)"
  unfolding MarkRstSent_def
  by (simp only: framed_simple, rule framed_clearAllQueues) (simp_all add: framed_flags sendOver_def receiveOver_def)

lemma framed_MarkRstReceived: "framed a b \<Longrightarrow> framed a (MarkRstReceived (E now) b)"
proof (cases "a_isVirtual b")
  case False
  let ?b = "b\<lparr>a_stopLocalRead := True, a_rstReceived := True\<rparr>"
  assume "framed a b"
  then have "framed a ?b" by (intro framed_flags) simp_all
  then have "framed a (removeAllQueuedData (E now) ?b)" by (rule framed_removeAllQueuedData)
  then have "framed a ((removeAllQueuedData (E now) ?b)
      \<lparr>a_enqueuer := fold (\<lambda>(sn, _). removeQueuedDataNack (E now) sn) (a_lastDataNackSent ?b) (a_enqueuer (removeAllQueuedData (E now) ?b))\<rparr>)"
    (is "framed a ?c") by (rule framed_removeNacks)
  then have "framed a (?c\<lparr>a_sndBuf := []\<rparr>)"
    by (rule framed_flags) (simp add: sendOver_def removeAllQueuedData_def)
  then have "framed a (?c\<lparr>a_sndBuf := [], a_controlSndBuf := []\<rparr>)"
    by (rule framed_tracking) (simp add: controlsOnly_def)
  then show ?thesis
    by (rule framed_irrelevant)
      (use False in \<open>simp add: MarkRstReceived_def clearOutboundState_def removeAllQueuedData_def setState_def signalFlushReady_def
        signalWindowNotFull_def clearDataNackState_def relevant_def sndData_def Let_def\<close>)
qed (simp add: MarkRstReceived_def)

text \<open>An acknowledged reset clears the buffers and closes the stream.\<close>

lemma framed_rstAcked:
  assumes "framed a b" "\<not> a_isVirtual b"
  shows "framed a (finalizeClose (E now) reason (markRstAcked b))"
proof (cases "a_closed b")
  case True
  then have "framed a (clearAllQueues True (b\<lparr>a_rstAcked := True\<rparr>))"
    using assms by (intro framed_clearAllQueues) (simp_all add: sendOver_def receiveOver_def)
  then show ?thesis by (intro framed_finalizeClose) (simp add: markRstAcked_def)
next
  case False
  let ?m = "markRstAcked b"
  have eq: "relevant (finalizeClose (E now) reason ?m) = relevant (finalizeClose (E now) reason b)"
    using False assms(2)
    by (simp add: finalizeClose_def markRstAcked_def clearAllQueues_def signalWindowNotFull_def clearDataNackState_def setState_def
        relevant_def sndData_def Let_def)
  show ?thesis using framed_finalizeClose [OF assms(1)] eq by (rule framed_irrelevant)
qed

lemma framed_SendControl:
  assumes "framed a b" "isControlType t"
  shows "framed a (snd (SendControlPacketWithTTL (E now') now t sn f tf payload pr track custom ttl b))"
proof -
  have p: "framed a (snd (arqPush (E now') pr' t sn f tf 0 ttl payload b))" for pr'
    using assms(1) control_repeatable [OF assms(2)] by (rule framed_push)
  have "framed a (c\<lparr>a_controlSndBuf := mput (a_controlSndBuf c) key item\<rparr>)" if "framed a c" "c_PacketType item = t" for c key item
    using that(1)
    by (rule framed_tracking) (use assms(2) that(2) in \<open>auto simp: controlsOnly_def isControlType_def dest: set_mput [THEN subsetD]\<close>)
  then show ?thesis
    using p assms(1) by (auto simp: SendControlPacketWithTTL_def Let_def split_beta split: option.splits)
qed

end

lemma set_mdel: "set (mdel m k) \<subseteq> set m"
  by (induction m) auto

context packet_queue
begin

lemma framed_sendTerminal: "framed a b \<Longrightarrow> isControlType t \<Longrightarrow> framed a (sendTerminal (E now') now t sn ack ttl b)"
  unfolding sendTerminal_def by (rule framed_SendControl)

lemma framed_emitTerminal: "framed a b \<Longrightarrow> framed a (emitTerminalPacketWithTTL (E now') now t reason ttl b)"
proof (cases "a_closed b \<or> a_isVirtual b")
  case False
  assume b: "framed a b"
  define c where "c = cancelDeferred (b\<lparr>a_closeReason := reason, a_stopLocalRead := True\<rparr>)"
  have c: "framed a c" "a_stopLocalRead c" using b by (simp_all add: c_def framed_flags cancelDeferred_def)
  have rst: "framed a (MarkRstSent (awaitAck now t (clearAllQueues True d)))" if "framed a d" "a_stopLocalRead d" for d t
  proof -
    have "MarkRstSent (awaitAck now t (clearAllQueues True d)) = awaitAck now t (MarkRstSent d)"
      by (simp add: MarkRstSent_def awaitAck_def clearAllQueues_def signalWindowNotFull_def clearDataNackState_def setState_def Let_def)
    then show ?thesis using framed_MarkRstSent [OF that] by simp
  qed
  show ?thesis
    using c False
    by (simp add: emitTerminalPacketWithTTL_def Let_def framed_sendTerminal framed_MarkCloseReadSent framed_MarkCloseWriteSent rst
        flip: c_def)
qed (simp add: emitTerminalPacketWithTTL_def)

lemma framed_closeWith:
  assumes "framed a b" "\<And>reason t c. framed a c \<Longrightarrow> framed a (deferPacket reason t c)"
  shows "framed a (closeWith deferPacket (E now') now reason opts b)"
  using assms by (simp add: closeWith_def Let_def framed_emitTerminal framed_finalizeClose framed_flags)

lemma framed_settleTerminalDrain: "framed a b \<Longrightarrow> framed a (settleTerminalDrain (E now') now b)"
  by (simp add: settleTerminalDrain_def Let_def framed_closeWith)

lemma framed_deferTerminalPacket: "framed a b \<Longrightarrow> framed a (deferTerminalPacket (E now') now reason t b)"
  by (simp add: deferTerminalPacket_def Let_def framed_settleTerminalDrain framed_flags)

lemma framed_Close: "framed a b \<Longrightarrow> framed a (Close (E now') now reason opts b)"
  by (simp add: Close_def framed_closeWith framed_deferTerminalPacket)

lemma framed_MarkCloseWriteReceived: "framed a b \<Longrightarrow> framed a (MarkCloseWriteReceived (E now') now b)"
proof (cases "a_isVirtual b")
  case False
  let ?b = "b\<lparr>a_stopLocalRead := True, a_closeWriteReceived := True\<rparr>"
  assume "framed a b"
  then have "framed a ?b" by (intro framed_flags) simp_all
  then have "framed a (removeAllQueuedData (E now') ?b)" by (rule framed_removeAllQueuedData)
  then have "framed a ((removeAllQueuedData (E now') ?b)\<lparr>a_sndBuf := []\<rparr>)"
    by (rule framed_flags) (simp add: sendOver_def removeAllQueuedData_def)
  then have "framed a (signalWindowNotFull ((removeAllQueuedData (E now') (b\<lparr>a_closeWriteReceived := True, a_stopLocalRead := True\<rparr>))\<lparr>a_sndBuf := []\<rparr>))"
    by (rule framed_irrelevant) (simp add: removeAllQueuedData_def signalWindowNotFull_def relevant_def sndData_def)
  with False show ?thesis
    by (simp add: MarkCloseWriteReceived_def Let_def framed_tryFinalizeRemoteEOF framed_settleTerminalDrain del: framed_simple)
qed (simp add: MarkCloseWriteReceived_def)

lemma framed_maybeInitiate: "framed a b \<Longrightarrow> framed a (maybeInitiateClientCloseReadAfterWriterBreak (E now') now b)"
  by (simp add: maybeInitiateClientCloseReadAfterWriterBreak_def framed_Close)

lemma framed_TTLExpiry: "framed a b \<Longrightarrow> framed a (handleTrackedPacketTTLExpiry (E now') now t reason b)"
  by (simp add: handleTrackedPacketTTLExpiry_def framed_Close framed_finalizeClose)

lemma framed_not_virtual: "framed a b \<Longrightarrow> \<not> a_isVirtual a \<Longrightarrow> \<not> a_isVirtual b"
  by (auto simp: framed_def keeps_def stopsReading_def)

lemma framed_trackedAck:
  assumes "framed a b" "\<not> a_isVirtual a"
  shows "framed a (snd (handleTrackedCloseOrResetAck (E now') now t b))"
    and "framed a (snd (handleTrackedTerminalAck (E now') t b))"
    and "framed a (snd (handleWaitingTerminalAck (E now') now t w1 w2 w3 b))"
  using assms framed_not_virtual [OF assms]
  by (simp_all add: handleTrackedCloseOrResetAck_def handleTrackedTerminalAck_def handleWaitingTerminalAck_def
      framed_tryFinalizeRemoteEOF framed_maybeInitiate framed_markCloseWriteAcked framed_rstAcked framed_finalizeClose)

lemma framed_untrack:
  "framed a b \<Longrightarrow> framed a (b\<lparr>a_controlSndBuf := filter P (a_controlSndBuf b)\<rparr>)"
  "framed a b \<Longrightarrow> framed a (b\<lparr>a_controlSndBuf := mdel (a_controlSndBuf b) k\<rparr>)"
  by (erule framed_tracking, auto simp: controlsOnly_def dest: set_mdel [THEN subsetD])+

lemma framed_finishControlAck:
  assumes "framed a b" "\<not> a_isVirtual a"
  shows "framed a (snd (finishControlAck (E now') now t origin tracked w1 w2 w3 b))"
  using assms(1) framed_trackedAck [OF _ assms(2)]
  by (simp add: finishControlAck_def Let_def split_beta)

lemma framed_ReceiveControlAck:
  assumes "framed a b" "\<not> a_isVirtual a"
  shows "framed a (snd (ReceiveControlAck (E now') now t sn f b))"
proof -
  have b: "framed a (b\<lparr>a_lastActivity := now\<rparr>)" using assms(1) by simp
  show ?thesis
    unfolding ReceiveControlAck_def Let_def
    using b framed_untrack [OF b] framed_finishControlAck [OF _ assms(2)]
    by (simp split: option.split)
qed

end

section \<open>Periodic and data operations\<close>

lemma map_data_mput:
  "mget m k = Some v \<Longrightarrow> d_Data w = d_Data v \<Longrightarrow>
   map (\<lambda>(sn, i). (sn, d_Data i)) (mput m k w) = map (\<lambda>(sn, i). (sn, d_Data i)) m"
  by (induction m) (auto split: if_splits)

lemma sndData_touch:
  "mget (a_sndBuf b) sn = Some info \<Longrightarrow> d_Data info' = d_Data info \<Longrightarrow>
   sndData (b\<lparr>a_sndBuf := mput (a_sndBuf b) sn info'\<rparr>) = sndData b"
  by (simp add: sndData_def map_data_mput)

context packet_queue
begin

lemma framed_touch:
  "a_sndBuf b = m \<Longrightarrow> mget m sn = Some info \<Longrightarrow> d_Data info' = d_Data info \<Longrightarrow>
   framed a (b\<lparr>a_sndBuf := mput m sn info'\<rparr>) = framed a b"
  by (rule framed_relevant) (auto simp: relevant_def sndData_touch)

lemma framed_NoteTXPacketDequeued: "framed a b \<Longrightarrow> framed a (NoteTXPacketDequeued now t sn f b)"
proof -
  assume b: "framed a b"
  have "framed a (b\<lparr>a_controlSndBuf := mput (a_controlSndBuf b) key (info\<lparr>c_LastSentAt := now, c_Dispatched := True\<rparr>)\<rparr>)"
    if "mget (a_controlSndBuf b) key = Some info" for key info
    using b
    by (rule framed_tracking)
      (use map_of_SomeD [OF that] in \<open>fastforce simp: controlsOnly_def dest: set_mput [THEN subsetD]\<close>)
  then show ?thesis
    using b by (simp add: NoteTXPacketDequeued_def framed_touch Let_def split: option.split)
qed

lemma framed_runFinalAckWatchdog: "framed a b \<Longrightarrow> framed a (runFinalAckWatchdog (E now') now b)"
proof -
  assume b: "framed a b"
  have "framed a (snd (arqPush (E now') pr PACKET_STREAM_DATA_ACK (a_rcvNxt b - 1) 0 0 0 0 [] (b\<lparr>a_lastDuplicateAckAt := now\<rparr>)))"
    if "0 < a_rcvNxt b" "\<not> receiveOver b" for pr
  proof (rule framed_push)
    have "(PACKET_STREAM_DATA_ACK, a_rcvNxt b - 1, []) \<in> repeatable b"
      using that by (simp add: repeatable_def isDataType_def)
    then show "(PACKET_STREAM_DATA_ACK, a_rcvNxt b - 1, []) \<in> repeatable a"
      using b repeatable_mono by (auto simp: framed_def)
  qed (use b in simp)
  with b show ?thesis by (simp add: runFinalAckWatchdog_def receiveOver_def)
qed

lemma framed_handleTerminalRetransmitState: "framed a b \<Longrightarrow> framed a (snd (handleTerminalRetransmitState (E now') now b))"
  by (simp add: handleTerminalRetransmitState_def Let_def framed_Close framed_settleTerminalDrain framed_finalizeClose
      framed_tryFinalizePeerResetDrain)

lemma framed_controlRetransmitLoop:
  assumes "framed a b" "controlsOnly b"
  shows "framed a (controlRetransmitLoop (E now') now keys b)"
  using assms
proof (induction keys arbitrary: b)
  case (Cons key keys)
  show ?case
  proof (cases "mget (a_controlSndBuf b) key")
    case (Some info)
    have ctl: "isControlType (c_PacketType info)"
      using Cons.prems(2) map_of_SomeD [OF Some] by (auto simp: controlsOnly_def isControlType_def)
    define c where "c = snd (arqPush (E now') (c_Priority info) (c_PacketType info) (c_SequenceNum info) (c_FragmentID info)
      (c_TotalFragments info) 0 (c_TTL info) (c_Payload info) b)"
    have c: "framed a c" "a_controlSndBuf c = a_controlSndBuf b" "controlsOnly c"
      using framed_push [OF Cons.prems(1) control_repeatable [OF ctl]] Cons.prems(2)
      by (auto simp: c_def arqPush_def split_beta)
    have put: "controlsOnly (c\<lparr>a_controlSndBuf := mput (a_controlSndBuf c) key info'\<rparr>)" if "c_PacketType info' = c_PacketType info" for info'
      using c(3) ctl that by (auto simp: controlsOnly_def isControlType_def dest: set_mput [THEN subsetD])
    have "framed a (controlRetransmitLoop (E now') now keys (c\<lparr>a_controlSndBuf := mput (a_controlSndBuf c) key info'\<rparr>))"
      if "c_PacketType info' = c_PacketType info" for info'
      using put [OF that] by (intro Cons.IH framed_tracking [OF c(1)])
    then show ?thesis
      using Cons.IH [OF Cons.prems] Cons.IH [OF c(1,3)] framed_TTLExpiry [OF framed_untrack(2) [OF Cons.prems(1)]] Some
      by (simp add: split_beta Let_def c_def [symmetric] split: option.split)
  qed (use Cons in simp)
qed simp

lemma framed_controlsOnly: "framed a b \<Longrightarrow> qinv (a_enqueuer a) \<Longrightarrow> controlsOnly a \<Longrightarrow> controlsOnly b"
  by (simp add: framed_def)

lemma framed_shouldSendDataNack: "framed a b \<Longrightarrow> framed a (snd (shouldSendDataNack sn now b))"
  by (simp add: shouldSendDataNack_def split: option.split)

lemma framed_sendDataNack: "framed a b \<Longrightarrow> framed a (sendDataNack (E now') now cf sn b)"
  using framed_push [OF framed_shouldSendDataNack control_repeatable]
  by (simp add: sendDataNack_def noteDataNackSent_def framed_shouldSendDataNack split_beta Let_def)

lemma framed_fold: "(\<And>x b. x \<in> set xs \<Longrightarrow> framed a b \<Longrightarrow> framed a (f x b)) \<Longrightarrow> framed a b \<Longrightarrow> framed a (fold f xs b)"
  by (induction xs arbitrary: b) simp_all

lemma framed_pruneDataNackState: "framed a (pruneDataNackState n b) = framed a b"
  by (simp add: pruneDataNackState_def)

lemma framed_nacks:
  assumes "framed a b"
  shows "framed a (maybeSendDataNacks (E now') now sn b)" and "framed a (runGapRecoveryWatchdog (E now') now b)"
  using assms framed_sendDataNack
  by (simp_all add: maybeSendDataNacks_def runGapRecoveryWatchdog_def Let_def framed_fold framed_pruneDataNackState)

lemma push_sndBuf [simp]: "a_sndBuf (snd (arqPush X pr t sn f tf c ttl payload b)) = a_sndBuf b"
  by (simp add: arqPush_def split_beta)

lemma framed_HandleDataNack: "framed a b \<Longrightarrow> framed a (snd (HandleDataNack (E now') now sn b))"
proof -
  assume b: "framed a b"
  have "framed a (snd (arqPush (E now') pr PACKET_STREAM_RESEND sn 0 0 c ttl (d_Data info) (b\<lparr>a_lastActivity := now\<rparr>)))"
    if "mget (a_sndBuf b) sn = Some info" for pr c ttl info
  proof (rule framed_push)
    have "(PACKET_STREAM_RESEND, sn, d_Data info) \<in> repeatable b"
      using map_of_SomeD [OF that] by (force simp: repeatable_def sndData_def)
    then show "(PACKET_STREAM_RESEND, sn, d_Data info) \<in> repeatable a"
      using b repeatable_mono by (auto simp: framed_def)
  qed (use b in simp)
  then show ?thesis
    using b by (simp add: HandleDataNack_def Let_def split_beta framed_touch split: option.split)
qed

lemma scanRetransmits_jobs:
  assumes "scanRetransmits now a draining cap m acc = RtxJobs jobs" "j \<in> set jobs"
  shows "j \<in> set acc \<or> (\<exists>info. (j_sn j, info) \<in> set m \<and> j_data j = d_Data info)"
  using assms
proof (induction now a draining cap m acc rule: scanRetransmits.induct)
  case (2 now a draining cap sn info rest acc)
  then show ?case by (fastforce simp: Let_def split: if_splits)
qed simp

lemma framed_retransmitJob:
  assumes "framed a b" "(j_sn (fst jk), j_data (fst jk)) \<in> set (sndData a)"
  shows "framed a (retransmitJob (E now') now draining cap jk b)"
proof -
  obtain j k where jk: "jk = (j, k)" by (cases jk)
  have "framed a (snd (arqPush (E now') pr t (j_sn j) 0 0 c 0 (j_data j) b))" if "isDataType t" for pr t c
    using assms(1) by (rule framed_push) (use assms(2) that jk in \<open>auto simp: repeatable_def isDataType_def\<close>)
  from this [of PACKET_STREAM_RESEND] this [of PACKET_STREAM_DATA]
  show ?thesis
    by (cases k) (simp_all add: retransmitJob_def jk isDataType_def framed_touch Let_def split_beta split: option.split)
qed

lemma framed_checkRetransmits:
  assumes q: "qinv (a_enqueuer a)" "controlsOnly a"
  shows "framed a (checkRetransmits (E now') now a)"
proof -
  define b where "b = snd (handleTerminalRetransmitState (E now') now (runFinalAckWatchdog (E now') now (runGapRecoveryWatchdog (E now') now a)))"
  have b: "framed a b"
    unfolding b_def by (intro framed_handleTerminalRetransmitState framed_runFinalAckWatchdog framed_nacks framed_refl)
  have jobs: "framed a (fold (retransmitJob (E now') now draining cap) (zip jobs kinds) b)"
    if "scanRetransmits now b draining cap (a_sndBuf b) [] = RtxJobs jobs" for draining cap jobs kinds
  proof (rule framed_fold [OF framed_retransmitJob b])
    fix jk assume "jk \<in> set (zip jobs kinds)"
    then have "fst jk \<in> set jobs" by (metis prod.collapse set_zip_leftD)
    then have "(j_sn (fst jk), j_data (fst jk)) \<in> set (sndData b)"
      using scanRetransmits_jobs [OF that] by (force simp: sndData_def)
    then show "(j_sn (fst jk), j_data (fst jk)) \<in> set (sndData a)"
      using b by (auto simp: framed_def keeps_def keptOrDropped_def)
  qed
  have "framed a (checkControlRetransmits (E now') now c)" if "framed a c" for c
    unfolding checkControlRetransmits_def using that q framed_controlsOnly [OF that] by (simp add: framed_controlRetransmitLoop)
  with jobs show ?thesis
    using framed_Close [OF b] framed_TTLExpiry [OF b] b
    by (simp add: checkRetransmits_def Let_def split_beta b_def [symmetric] split: rtxScan.split)
qed

lemma framed_workers:
  assumes "framed a b"
  shows "framed a (startStreamWorkers b)" and "framed a (SetIOReady ready b)" and "framed a (ioLoopNoConn (E now') now b)"
  using assms by (simp_all add: startStreamWorkers_def SetIOReady_def ioLoopNoConn_def framed_Close Let_def)

lemma framed_ioLoopRead_idle: "framed a b \<Longrightarrow> framed a (snd (snd (ioLoopRead (E now') now [] err since b)))"
  by (simp add: ioLoopRead_def framed_Close Let_def split: option.split ioErrorClass.split)

lemma framed_writerBroken: "framed a b \<Longrightarrow> framed a (snd (writerBroken (E now') now g p b))"
  by (simp add: writerBroken_def framed_Close framed_markLocalWriterBroken Let_def)

lemma framed_writeLoopNext: "framed a b \<Longrightarrow> framed a (snd (writeLoopNext (E now') rem n b))"
  by (simp add: writeLoopNext_def writeLoopFinish_def framed_tryFinalizePeerResetDrain framed_tryFinalizeRemoteEOF split_beta Let_def)

lemma framed_writeLoopIdle: "framed a b \<Longrightarrow> framed a (snd (writeLoopIdle (E now') b))"
  by (simp add: writeLoopIdle_def framed_halfCloseLocalWriter framed_tryFinalizePeerResetDrain framed_tryFinalizeRemoteEOF split_beta Let_def)

lemma framed_writeLoopWake: "framed a b \<Longrightarrow> framed a (snd (writeLoopWake b))"
  by (simp add: writeLoopWake_def)

lemma framed_closeWriteAfterBreak: "framed a b \<Longrightarrow> framed a (closeWriteAfterBreak (E now') now b)"
  by (simp add: closeWriteAfterBreak_def framed_Close)

lemma framed_clearSentDataNack: "framed a b \<Longrightarrow> framed a (clearSentDataNack (E now') sn b)"
  unfolding clearSentDataNack_def
  by (rule framed_irrelevant [OF framed_queue [where b = b]])
    (auto simp: inv_remove_nack relevant_def sndData_def dest: queued_remove_nack [THEN subsetD])

end

section \<open>The two directions\<close>

text \<open>
  What the sending side of a stream sees of an operation of the receiving side, and the reverse.
\<close>

definition sendView :: "'q arq \<Rightarrow> u16 \<times> int \<times> (u16 \<times> bytes) list \<times> (bool \<times> bool \<times> bool \<times> bool \<times> bool \<times> bool) \<times> 'q \<times> (u32, arqControlItem) gomap" where
  "sendView a =
     (a_sndNxt a, a_limit a, sndData a,
      (a_closed a, a_rstSent a, a_rstReceived a, a_closeWriteReceived a, a_stopLocalRead a, a_isVirtual a), a_enqueuer a, a_controlSndBuf a)"

definition receiveView ::
  "'q arq \<Rightarrow> (u16 \<times> int \<times> rxPayload list \<times> localConn option \<times> (u16, bytes) gomap) \<times> (bool \<times> bool \<times> bool \<times> bool) \<times> 'q \<times> (u32, arqControlItem) gomap" where
  "receiveView a =
     ((a_rcvNxt a, a_receiveWindowSize a, a_rxChan a, a_localConn a, a_rcvBuf a),
      (a_closed a, a_rstSent a, a_localWriterBroken a, a_isVirtual a), a_enqueuer a, a_controlSndBuf a)"

context packet_queue
begin

definition sendKept :: "'q arq \<Rightarrow> 'q arq \<Rightarrow> bool" where
  "sendKept a b \<longleftrightarrow>
     a_sndNxt b = a_sndNxt a \<and> a_limit b = a_limit a \<and> keptOrDropped (sndData a) (sndData b) (sendOver a) (sendOver b) \<and> stopsReading a b \<and>
     (qinv (a_enqueuer a) \<and> controlsOnly a \<longrightarrow>
      qinv (a_enqueuer b) \<and> controlsOnly b \<and>
      (\<forall>t sn payload. (t, sn, payload) \<in> queued (a_enqueuer b) \<longrightarrow> isDataType t \<longrightarrow>
         (t, sn, payload) \<in> queued (a_enqueuer a) \<or> (sn, payload) \<in> set (sndData a)))"

definition receiveKept :: "'q arq \<Rightarrow> 'q arq \<Rightarrow> bool" where
  "receiveKept a b \<longleftrightarrow>
     a_rcvNxt b = a_rcvNxt a \<and> a_receiveWindowSize b = a_receiveWindowSize a \<and> a_rxChan b = a_rxChan a \<and>
     (a_localConn b = None \<longleftrightarrow> a_localConn a = None) \<and> written b = written a \<and> (a_isVirtual b \<longrightarrow> a_isVirtual a) \<and>
     keptOrDropped (a_rcvBuf a) (a_rcvBuf b) (receiveOver a) (receiveOver b) \<and>
     (qinv (a_enqueuer a) \<and> controlsOnly a \<longrightarrow>
      qinv (a_enqueuer b) \<and> controlsOnly b \<and>
      (\<forall>sn payload. (PACKET_STREAM_DATA_ACK, sn, payload) \<in> queued (a_enqueuer b) \<longrightarrow>
         (PACKET_STREAM_DATA_ACK, sn, payload) \<in> queued (a_enqueuer a) \<or>
         sn = a_rcvNxt a - 1 \<and> 0 < a_rcvNxt a \<and> \<not> receiveOver a))"

lemma framed_sendKept: "framed a b \<Longrightarrow> sendKept a b"
  unfolding framed_def sendKept_def keeps_def fixedPart_def by (auto simp: repeatable_def)

lemma framed_receiveKept: "framed a b \<Longrightarrow> receiveKept a b"
  unfolding framed_def receiveKept_def keeps_def fixedPart_def by (auto simp: repeatable_def stopsReading_def)

lemma sendKept_refl [simp]: "sendKept a a" and receiveKept_refl [simp]: "receiveKept a a"
  by (rule framed_sendKept framed_receiveKept, simp)+

lemma sendKept_trans: assumes "sendKept a b" "sendKept b c" shows "sendKept a c"
proof -
  have "keptOrDropped (sndData a) (sndData c) (sendOver a) (sendOver c)" "stopsReading a c"
    using assms keptOrDropped_trans stopsReading_trans unfolding sendKept_def by blast+
  moreover have "set (sndData b) \<subseteq> set (sndData a)"
    using assms(1) by (auto simp: sendKept_def keptOrDropped_def)
  ultimately show ?thesis using assms unfolding sendKept_def by (auto; blast)
qed

lemma receiveKept_trans: assumes "receiveKept a b" "receiveKept b c" shows "receiveKept a c"
proof -
  have "keptOrDropped (a_rcvBuf a) (a_rcvBuf c) (receiveOver a) (receiveOver c)"
    using assms keptOrDropped_trans unfolding receiveKept_def by blast
  moreover have "receiveOver a \<Longrightarrow> receiveOver b"
    using assms(1) by (auto simp: receiveKept_def keptOrDropped_def)
  ultimately show ?thesis using assms unfolding receiveKept_def by (auto; blast)
qed

lemma sendKept_view: "sendView b = sendView b' \<Longrightarrow> sendKept a b = sendKept a b'"
  by (simp add: sendView_def sendKept_def stopsReading_def sendOver_def controlsOnly_def)

lemma receiveKept_view: "receiveView b = receiveView b' \<Longrightarrow> receiveKept a b = receiveKept a b'"
  by (simp add: receiveView_def receiveKept_def receiveOver_def controlsOnly_def written_def)

lemma sendKept_framed: "sendKept a b \<Longrightarrow> framed b c \<Longrightarrow> sendKept a c"
  using sendKept_trans framed_sendKept by blast

lemma receiveKept_framed: "receiveKept a b \<Longrightarrow> framed b c \<Longrightarrow> receiveKept a c"
  using receiveKept_trans framed_receiveKept by blast

text \<open>A packet the other direction does not mind.\<close>

lemma sendKept_push:
  assumes "\<not> isDataType t"
  shows "sendKept b (snd (arqPush (E now) pr t sn f tf c ttl payload b))"
proof -
  let ?q = "snd (pushTX (E now) pr t sn f tf c ttl payload (a_enqueuer b))"
  have eq: "snd (arqPush (E now) pr t sn f tf c ttl payload b) = b\<lparr>a_enqueuer := ?q\<rparr>"
    by (simp add: arqPush_def split_beta)
  have "qinv (a_enqueuer b) \<Longrightarrow> queued ?q \<subseteq> insert (t, sn, payload) (queued (a_enqueuer b))" by (rule queued_push)
  then show ?thesis
    unfolding eq using assms
    by (auto simp: sendKept_def stopsReading_def keptOrDropped_def sendOver_def sndData_def inv_push)
qed

lemma receiveKept_push:
  assumes "t \<noteq> PACKET_STREAM_DATA_ACK"
  shows "receiveKept b (snd (arqPush (E now) pr t sn f tf c ttl payload b))"
proof -
  let ?q = "snd (pushTX (E now) pr t sn f tf c ttl payload (a_enqueuer b))"
  have eq: "snd (arqPush (E now) pr t sn f tf c ttl payload b) = b\<lparr>a_enqueuer := ?q\<rparr>"
    by (simp add: arqPush_def split_beta)
  have "qinv (a_enqueuer b) \<Longrightarrow> queued ?q \<subseteq> insert (t, sn, payload) (queued (a_enqueuer b))" by (rule queued_push)
  then show ?thesis
    unfolding eq using assms
    by (auto simp: receiveKept_def keptOrDropped_def receiveOver_def written_def inv_push)
qed

end

end
