(* ===== verification/Arq_Link.thy ===== *)
theory Arq_Link
  imports Arq_Frame "HOL-Library.Sublist"
begin

text \<open>
  Two streams joined by a network that loses, repeats and reorders packets. The sender's chunks reach
  the receiver's local connection in order, once each, as long as no packet is so late that its
  16-bit sequence number has come around.
\<close>

section \<open>Operations of the other direction\<close>

context packet_queue
begin

lemma sendKept_ReceiveData: "sendKept a (snd (ReceiveData (E now') now sn data a))"
proof -
  have "sendKept a (a\<lparr>a_pendingInbound := p, a_rxChan := c\<rparr>) = sendKept a a" for p c
    by (rule sendKept_view) (simp add: sendView_def sndData_def)
  moreover have "sendKept a (a\<lparr>a_pendingInbound := p\<rparr>) = sendKept a a" for p
    by (rule sendKept_view) (simp add: sendView_def sndData_def)
  moreover have "sendKept a (closeWriteAfterBreak (E now') now a)"
    by (intro framed_sendKept framed_closeWriteAfterBreak framed_refl)
  ultimately show ?thesis by (simp add: ReceiveData_def)
qed

lemma sendKept_pushDataAck: "sendKept b (pushDataAck (E now) sn b)"
  unfolding pushDataAck_def by (rule sendKept_push) (simp add: isDataType_def)

lemma sendKept_acceptReceived: "sendKept b (acceptReceived (E now') now sn data b)"
proof -
  define c where "c = (if mget (a_rcvBuf b) sn = None then b\<lparr>a_rcvBuf := mput (a_rcvBuf b) sn data\<rparr> else b)"
  have "sendView c = sendView b" by (simp add: c_def sendView_def sndData_def)
  then have "sendKept b (pushDataAck (E now') sn c)"
    using sendKept_view [of c b b] sendKept_trans [OF _ sendKept_pushDataAck] by simp
  moreover have "framed d (signalFlushReady (maybeSendDataNacks (E now') now sn (if P then clearSentDataNack (E now') sn d else d)))" for P d
    by (simp add: framed_nacks framed_clearSentDataNack)
  ultimately show ?thesis
    unfolding acceptReceived_def Let_def c_def [symmetric] using sendKept_framed by blast
qed

lemma sendKept_processReceivedData: "sendKept a (processReceivedData (E now') now sn data a)"
proof -
  define b where "b = (if 0 < a_pendingInbound a then a\<lparr>a_pendingInbound := a_pendingInbound a - 1\<rparr> else a)"
  have b: "framed a b" by (simp add: b_def)
  have bt: "framed a (b\<lparr>a_lastActivity := now\<rparr>)" using b by simp
  note k = sendKept_trans [OF framed_sendKept [OF bt]]
  show ?thesis
    unfolding processReceivedData_def b_def [symmetric] Let_def
    using framed_sendKept [OF framed_closeWriteAfterBreak [OF b]] framed_sendKept [OF bt] k [OF sendKept_pushDataAck] k [OF sendKept_acceptReceived]
    by simp
qed

lemma sendKept_rxLoop: "sendKept a (rxLoopReceive (E now') now a)" "sendKept a (rxLoopDrain a)"
proof -
  have rx: "sendKept a (a\<lparr>a_rxChan := r\<rparr>)" for r
    using sendKept_view [of "a\<lparr>a_rxChan := r\<rparr>" a a] by (simp add: sendView_def sndData_def)
  show "sendKept a (rxLoopReceive (E now') now a)"
    using sendKept_trans [OF rx sendKept_processReceivedData] by (auto simp: rxLoopReceive_def split: list.split)
  have "sendKept a (a\<lparr>a_rxChan := r, a_pendingInbound := p\<rparr>)" for r p
    using sendKept_view [of "a\<lparr>a_rxChan := r, a_pendingInbound := p\<rparr>" a a] by (simp add: sendView_def sndData_def)
  then show "sendKept a (rxLoopDrain a)" by (simp add: rxLoopDrain_def)
qed

lemma sendKept_SetLocalConn: "sendKept a (SetLocalConn conn a)"
proof -
  have c: "sendKept a (a\<lparr>a_localConn := c\<rparr>)" for c
    using sendKept_view [of "a\<lparr>a_localConn := c\<rparr>" a a] by (simp add: sendView_def sndData_def)
  have "framed b (signalFlushReady (startStreamWorkers b))" for b by (simp add: framed_workers)
  from sendKept_framed [OF c this] c show ?thesis by (simp add: SetLocalConn_def Let_def)
qed

lemma sendKept_writeLoopCollect: "sendKept a (snd (writeLoopCollect (E now') now a))"
proof -
  obtain toWrite buf nxt where c: "collectReady (a_rcvBuf a) (a_rcvNxt a) = (toWrite, buf, nxt)" by (metis prod_cases3)
  have b: "sendKept a (a\<lparr>a_rcvBuf := buf, a_rcvNxt := nxt, a_localWritePending := p\<rparr>)" for p
    using sendKept_view [of "a\<lparr>a_rcvBuf := buf, a_rcvNxt := nxt, a_localWritePending := p\<rparr>" a a] by (simp add: sendView_def sndData_def)
  have "sendKept a (Close (E now') now reason opts a)" for reason opts
    by (intro framed_sendKept framed_Close framed_refl)
  then show ?thesis
    using sendKept_framed [OF b framed_writeLoopIdle [OF framed_refl]] sendKept_framed [OF b framed_writeLoopNext [OF framed_refl]]
    by (simp add: writeLoopCollect_def c Let_def)
qed

lemma sendKept_writeLoopWrite: "sendKept a (snd (writeLoopWrite (E now') now n err remaining retries a))"
proof -
  have "sendKept a (a\<lparr>a_localConn := c\<rparr>)" for c
    using sendKept_view [of "a\<lparr>a_localConn := c\<rparr>" a a] by (simp add: sendView_def sndData_def)
  note k = sendKept_framed [OF this]
  show ?thesis
    using k [OF framed_writeLoopNext [OF framed_refl]] k [OF framed_writerBroken [OF framed_refl]]
    by (simp add: writeLoopWrite_def Let_def split: option.split)
qed

end

section \<open>Effects of the sending side\<close>

context packet_queue
begin

lemma ReceiveAck_framed:
  assumes "mget (a_sndBuf a) sn = Some info"
  shows "framed (a\<lparr>a_sndBuf := mdel (a_sndBuf a) sn\<rparr>) (snd (ReceiveAck (E now') now sn a))"
proof -
  let ?c = "a\<lparr>a_sndBuf := mdel (a_sndBuf a) sn\<rparr>"
  have c: "framed ?c (a\<lparr>a_lastActivity := now, a_sndBuf := mdel (a_sndBuf a) sn\<rparr>)"
    by (rule framed_irrelevant [OF framed_refl]) (simp add: relevant_def sndData_def)
  have "framed ?c (b\<lparr>a_enqueuer := removeQueuedData (E now') sn (a_enqueuer b)\<rparr>)" if "framed ?c b" for b
    using that by (rule framed_queue) (simp add: inv_remove queued_remove)
  moreover have "framed ?c (if P then x else y)" if "framed ?c x" "framed ?c y" for P x y using that by simp
  ultimately show ?thesis
    using c assms
    by (simp add: ReceiveAck_def Let_def framed_settleTerminalDrain framed_tryFinalizeRemoteEOF split del: if_split)
qed

lemma sendChunk_framed:
  "\<exists>item. d_Data item = raw \<and>
     framed (a\<lparr>a_sndNxt := a_sndNxt a + 1, a_sndBuf := mput (a_sndBuf a) (a_sndNxt a) item\<rparr>) (sendChunk (E now') now raw a)"
proof -
  define item where "item = \<lparr>d_Data = raw, d_CreatedAt = now, d_LastSentAt = 0, d_Dispatched = False, d_LastNackSentAt = 0, d_Retries = 0,
    d_CurrentRTO = currentDataBaseRTO a, d_SampleEligible = True, d_CompressionType = a_compressionType a, d_TTL = 0\<rparr>"
  let ?c = "a\<lparr>a_sndNxt := a_sndNxt a + 1, a_sndBuf := mput (a_sndBuf a) (a_sndNxt a) item\<rparr>"
  let ?d = "a\<lparr>a_lastActivity := now, a_sndNxt := a_sndNxt a + 1, a_sndBuf := mput (a_sndBuf a) (a_sndNxt a) item\<rparr>"
  have "framed ?c ?d"
    by (rule framed_irrelevant [OF framed_refl]) (simp add: relevant_def sndData_def)
  moreover have "(PACKET_STREAM_DATA, a_sndNxt a, raw) \<in> repeatable ?c"
  proof -
    have "mget (mput (a_sndBuf a) (a_sndNxt a) item) (a_sndNxt a) = Some item" by simp
    then have "(a_sndNxt a, item) \<in> set (mput (a_sndBuf a) (a_sndNxt a) item)" by (rule map_of_SomeD)
    then show ?thesis by (force simp: repeatable_def sndData_def item_def)
  qed
  ultimately have p: "framed ?c (snd (arqPush (E now') pr PACKET_STREAM_DATA (a_sndNxt a) 0 0 c 0 raw ?d))" for pr c
    by (rule framed_push)
  have "framed ?c (e\<lparr>a_sndBuf := mput (a_sndBuf e) (a_sndNxt a) item'\<rparr>)"
    if "framed ?c e" "a_sndBuf e = mput (a_sndBuf a) (a_sndNxt a) item" "d_Data item' = d_Data item" for e item'
    using that framed_touch [OF refl, of e "a_sndNxt a" item item'] by simp
  note t = this [OF p]
  have "framed ?c (sendChunk (E now') now raw a)"
    using p t unfolding sendChunk_def Let_def item_def [symmetric] split_beta
    by simp
  moreover have "d_Data item = raw" by (simp add: item_def)
  ultimately show ?thesis by blast
qed

lemma ioLoopRead_framed: "framed (sendChunk (E now') now raw a) (snd (snd (ioLoopRead (E now') now raw err since a)))" if "raw \<noteq> []"
  using that by (simp add: ioLoopRead_def framed_Close Let_def split: option.split ioErrorClass.split)

lemma receiveKept_ReceiveAck: "receiveKept a (snd (ReceiveAck (E now') now sn a))"
proof (cases "mget (a_sndBuf a) sn")
  case None
  then show ?thesis by (simp add: ReceiveAck_def framed_receiveKept)
next
  case (Some info)
  have "receiveKept a (a\<lparr>a_sndBuf := m\<rparr>)" for m
    using receiveKept_view [of "a\<lparr>a_sndBuf := m\<rparr>" a a] by (simp add: receiveView_def)
  then show ?thesis using ReceiveAck_framed [OF Some] receiveKept_framed by blast
qed

lemma receiveKept_ioLoopRead: "receiveKept a (snd (snd (ioLoopRead (E now') now raw err since a)))"
proof (cases "raw = []")
  case True
  then show ?thesis by (simp add: framed_receiveKept framed_ioLoopRead_idle)
next
  case False
  have "receiveKept a (a\<lparr>a_sndNxt := n, a_sndBuf := m\<rparr>)" for n m
    using receiveKept_view [of "a\<lparr>a_sndNxt := n, a_sndBuf := m\<rparr>" a a] by (simp add: receiveView_def)
  then have "receiveKept a (sendChunk (E now') now raw a)" using sendChunk_framed receiveKept_framed by blast
  then show ?thesis using receiveKept_framed ioLoopRead_framed [OF False] by blast
qed

end

section \<open>Two streams and a network\<close>

text \<open>The operations that neither read nor receive data: control packets, timers and closing.\<close>

inductive controlStep :: "(instant \<Rightarrow> 'q enqueuerOps) \<Rightarrow> 'q arq \<Rightarrow> 'q arq \<Rightarrow> bool" for E where
  close_read_received: "controlStep E a (MarkCloseReadReceived (E now) a)"
| close_write_received: "controlStep E a (MarkCloseWriteReceived (E now) now a)"
| rst_received: "controlStep E a (MarkRstReceived (E now) a)"
| control_ack: "controlStep E a (snd (ReceiveControlAck (E now) now t sn f a))"
| data_nack: "controlStep E a (snd (HandleDataNack (E now) now sn a))"
| retransmit_tick: "controlStep E a (checkRetransmits (E now) now a)"
| close_requested: "controlStep E a (Close (E now) now reason opts a)"
| control_packet: "isControlType t \<Longrightarrow>
    controlStep E a (snd (SendControlPacketWithTTL (E now) now t sn f tf payload pr track custom ttl a))"
| io_ready: "controlStep E a (SetIOReady ready a)"
| no_connection: "controlStep E a (ioLoopNoConn (E now) now a)"

text \<open>What the receiving half and the sending half of a stream do on their own.\<close>

inductive receiveStep :: "(instant \<Rightarrow> 'q enqueuerOps) \<Rightarrow> 'q arq \<Rightarrow> 'q arq \<Rightarrow> bool" for E where
  data_arrives: "receiveStep E a (snd (ReceiveData (E now) now sn data a))"
| data_processed: "receiveStep E a (rxLoopReceive (E now) now a)"
| channel_drained: "receiveStep E a (rxLoopDrain a)"
| connection_set: "receiveStep E a (SetLocalConn conn a)"
| writer_collects: "receiveStep E a (snd (writeLoopCollect (E now) now a))"
| writer_writes: "receiveStep E a (snd (writeLoopWrite (E now) now n err remaining retries a))"
| writer_wakes: "receiveStep E a (snd (writeLoopWake a))"

inductive sendStep :: "(instant \<Rightarrow> 'q enqueuerOps) \<Rightarrow> 'q arq \<Rightarrow> 'q arq \<Rightarrow> bool" for E where
  chunk_read: "sendStep E a (snd (snd (ioLoopRead (E now) now raw err since a)))"
| ack_arrives: "sendStep E a (snd (ReceiveAck (E now) now sn a))"

text \<open>
  The sender \<open>lkA\<close> and whether its loop is inside a read; the receiver \<open>lkB\<close> and where its writer
  stands. The chunks the sender has read, the number of chunks the writer has taken, the
  transmitted data packets and acknowledgements with the index of their chunk, and the indices of
  the receiver's inbound channel record the history.
\<close>

record ('p, 'q) link =
  lkA :: "'p arq"
  lkReading :: bool
  lkB :: "'q arq"
  lkWriter :: writerPc
  lkChunks :: "bytes list"
  lkTaken :: nat
  lkData :: "(nat \<times> bytes) list"
  lkAcks :: "nat list"
  lkRx :: "nat list"

text \<open>The latest of \<open>n\<close> chunks with sequence number \<open>sn\<close>.\<close>

definition lastIndex :: "u16 \<Rightarrow> nat \<Rightarrow> nat" where
  "lastIndex sn n = n - 1 - unat (of_nat (n - 1) - sn)"

text \<open>The number of chunks the writer takes from the buffer.\<close>

definition collected :: "'q arq \<Rightarrow> nat" where
  "collected a =
     (if a_closed a \<or> \<not> a_ioReady a \<or> a_localConn a = None then 0 else length (fst (collectReady (a_rcvBuf a) (a_rcvNxt a))))"

text \<open>
  A sequence number is free when no chunk, data packet or acknowledgement with it waits at either end.
\<close>

definition numberFree :: "('p \<Rightarrow> packetView set) \<Rightarrow> ('q \<Rightarrow> packetView set) \<Rightarrow> ('p, 'q) link \<Rightarrow> bool" where
  "numberFree queuedA queuedB s \<longleftrightarrow>
     (let sn = a_sndNxt (lkA s) in
      sn \<notin> fst ` set (sndData (lkA s)) \<and>
      (\<forall>t payload. isDataType t \<longrightarrow> (t, sn, payload) \<notin> queuedA (a_enqueuer (lkA s))) \<and>
      (\<forall>payload. (PACKET_STREAM_DATA_ACK, sn, payload) \<notin> queuedB (a_enqueuer (lkB s))))"

text \<open>
  The network keeps every transmitted packet and may deliver it any number of times, in any order, or
  never. It is not so slow that a sequence number comes around: a data packet is processed before
  the receiver is more than \<open>2 ^ 15\<close> chunks past it, an acknowledgement arrives before the sender
  has read \<open>2 ^ 16\<close> further chunks, and a number is reused only when it is free.
\<close>

inductive linkStep ::
  "(instant \<Rightarrow> 'p enqueuerOps) \<Rightarrow> ('p \<Rightarrow> packetView set) \<Rightarrow> ('p \<Rightarrow> packetView \<Rightarrow> 'p \<Rightarrow> bool) \<Rightarrow>
   (instant \<Rightarrow> 'q enqueuerOps) \<Rightarrow> ('q \<Rightarrow> packetView set) \<Rightarrow> ('q \<Rightarrow> packetView \<Rightarrow> 'q \<Rightarrow> bool) \<Rightarrow>
   ('p, 'q) link \<Rightarrow> ('p, 'q) link \<Rightarrow> bool"
  for EA queuedA takesA EB queuedB takesB where
  read_starts: "ioLoopCheck (lkA s) = IoRead \<Longrightarrow> linkStep EA queuedA takesA EB queuedB takesB s (s\<lparr>lkReading := True\<rparr>)"
| read_returns: "lkReading s \<Longrightarrow> raw \<noteq> [] \<Longrightarrow> numberFree queuedA queuedB s \<Longrightarrow>
    linkStep EA queuedA takesA EB queuedB takesB s
      (s\<lparr>lkReading := False, lkA := snd (snd (ioLoopRead (EA now) now raw err since (lkA s))), lkChunks := lkChunks s @ [raw]\<rparr>)"
| read_fails: "lkReading s \<Longrightarrow>
    linkStep EA queuedA takesA EB queuedB takesB s
      (s\<lparr>lkReading := False, lkA := snd (snd (ioLoopRead (EA now) now [] err since (lkA s)))\<rparr>)"
| transmit: "takesA (a_enqueuer (lkA s)) (t, sn, payload) q \<Longrightarrow>
    linkStep EA queuedA takesA EB queuedB takesB s
      (s\<lparr>lkA := NoteTXPacketDequeued now t sn f ((lkA s)\<lparr>a_enqueuer := q\<rparr>),
         lkData := (if isDataType t then (lastIndex sn (length (lkChunks s)), payload) # lkData s else lkData s)\<rparr>)"
| deliver: "(k, payload) \<in> set (lkData s) \<Longrightarrow> ReceiveData (EB now) now (of_nat k) payload (lkB s) = (ok, b) \<Longrightarrow>
    linkStep EA queuedA takesA EB queuedB takesB s (s\<lparr>lkB := b, lkRx := (if ok then lkRx s @ [k] else lkRx s)\<rparr>)"
| process: "a_rxChan (lkB s) \<noteq> [] \<Longrightarrow> lkTaken s \<le> hd (lkRx s) + 32768 \<Longrightarrow>
    linkStep EA queuedA takesA EB queuedB takesB s (s\<lparr>lkB := rxLoopReceive (EB now) now (lkB s), lkRx := tl (lkRx s)\<rparr>)"
| discard: "a_ctxDone (lkB s) \<Longrightarrow>
    linkStep EA queuedA takesA EB queuedB takesB s (s\<lparr>lkB := rxLoopDrain (lkB s), lkRx := []\<rparr>)"
| collect: "lkWriter s = Collecting \<Longrightarrow> writeLoopCollect (EB now) now (lkB s) = (pc, b) \<Longrightarrow>
    linkStep EA queuedA takesA EB queuedB takesB s (s\<lparr>lkB := b, lkWriter := pc, lkTaken := lkTaken s + collected (lkB s)\<rparr>)"
| chunk_written: "lkWriter s = Writing remaining retries \<Longrightarrow> writeLoopWrite (EB now) now n err remaining retries (lkB s) = (pc, b) \<Longrightarrow>
    linkStep EA queuedA takesA EB queuedB takesB s (s\<lparr>lkB := b, lkWriter := pc\<rparr>)"
| writer_woken: "lkWriter s = WaitFlush \<Longrightarrow> writeLoopWake (lkB s) = (pc, b) \<Longrightarrow>
    linkStep EA queuedA takesA EB queuedB takesB s (s\<lparr>lkB := b, lkWriter := pc\<rparr>)"
| connect: "connWritten conn = [] \<Longrightarrow>
    linkStep EA queuedA takesA EB queuedB takesB s (s\<lparr>lkB := SetLocalConn conn (lkB s)\<rparr>)"
| acknowledge: "takesB (a_enqueuer (lkB s)) (t, sn, payload) q \<Longrightarrow>
    linkStep EA queuedA takesA EB queuedB takesB s
      (s\<lparr>lkB := NoteTXPacketDequeued now t sn f ((lkB s)\<lparr>a_enqueuer := q\<rparr>),
         lkAcks := (if t = PACKET_STREAM_DATA_ACK then lastIndex sn (length (lkChunks s)) # lkAcks s else lkAcks s)\<rparr>)"
| deliver_ack: "k \<in> set (lkAcks s) \<Longrightarrow> length (lkChunks s) \<le> k + 65536 \<Longrightarrow>
    linkStep EA queuedA takesA EB queuedB takesB s (s\<lparr>lkA := snd (ReceiveAck (EA now) now (of_nat k) (lkA s))\<rparr>)"
| control_A: "controlStep EA (lkA s) a \<Longrightarrow> linkStep EA queuedA takesA EB queuedB takesB s (s\<lparr>lkA := a\<rparr>)"
| control_B: "controlStep EB (lkB s) b \<Longrightarrow> linkStep EA queuedA takesA EB queuedB takesB s (s\<lparr>lkB := b\<rparr>)"
| receive_A: "receiveStep EA (lkA s) a \<Longrightarrow> linkStep EA queuedA takesA EB queuedB takesB s (s\<lparr>lkA := a\<rparr>)"
| send_B: "sendStep EB (lkB s) b \<Longrightarrow> linkStep EA queuedA takesA EB queuedB takesB s (s\<lparr>lkB := b\<rparr>)"

definition linkStart :: "'p arq \<Rightarrow> 'q arq \<Rightarrow> ('p, 'q) link" where
  "linkStart a b =
     \<lparr>lkA = a, lkReading = False, lkB = b, lkWriter = WaitFlush, lkChunks = [], lkTaken = 0, lkData = [], lkAcks = [], lkRx = []\<rparr>"

text \<open>
  Runs from two new streams, neither virtual, with the given queues and a fresh connection at the
  receiver. The window sizes are within the range that the configuration loader enforces.
\<close>

definition linkInitial :: "'p \<Rightarrow> 'q \<Rightarrow> ('p, 'q) link \<Rightarrow> bool" where
  "linkInitial qA qB s \<longleftrightarrow>
     (\<exists>streamID sessionID connA mtuA cfgA tA connB mtuB cfgB tB.
        s = linkStart (NewARQ streamID sessionID qA connA mtuA cfgA tA) (NewARQ streamID sessionID qB connB mtuB cfgB tB) \<and>
        \<not> cf_IsVirtual cfgA \<and> \<not> cf_IsVirtual cfgB \<and> (\<forall>c. connB = Some c \<longrightarrow> connWritten c = []) \<and>
        cf_WindowSize cfgA \<le> 8000 \<and> cf_WindowSize cfgB \<le> 8000)"

inductive linkReachable ::
  "(instant \<Rightarrow> 'p enqueuerOps) \<Rightarrow> ('p \<Rightarrow> packetView set) \<Rightarrow> ('p \<Rightarrow> packetView \<Rightarrow> 'p \<Rightarrow> bool) \<Rightarrow>
   (instant \<Rightarrow> 'q enqueuerOps) \<Rightarrow> ('q \<Rightarrow> packetView set) \<Rightarrow> ('q \<Rightarrow> packetView \<Rightarrow> 'q \<Rightarrow> bool) \<Rightarrow> 'p \<Rightarrow> 'q \<Rightarrow>
   ('p, 'q) link \<Rightarrow> bool"
  for EA queuedA takesA EB queuedB takesB qA qB where
  link_start: "linkInitial qA qB s \<Longrightarrow> linkReachable EA queuedA takesA EB queuedB takesB qA qB s"
| link_step: "linkReachable EA queuedA takesA EB queuedB takesB qA qB s \<Longrightarrow> linkStep EA queuedA takesA EB queuedB takesB s t \<Longrightarrow>
    linkReachable EA queuedA takesA EB queuedB takesB qA qB t"

section \<open>Invariants of the two ends\<close>

definition current :: "nat \<Rightarrow> nat \<Rightarrow> u16 \<Rightarrow> bool" where
  "current n k sn \<longleftrightarrow> k < n \<and> n \<le> k + 65536 \<and> sn = of_nat k"

text \<open>The receiver has chunk \<open>k\<close>: the writer took it, or it is buffered.\<close>

definition got :: "nat \<Rightarrow> 'q arq \<Rightarrow> nat \<Rightarrow> bool" where
  "got W b k \<longleftrightarrow> k < W \<or> k \<le> W + nat (a_receiveWindowSize b) \<and> mget (a_rcvBuf b) (of_nat k) \<noteq> None"

definition buffered :: "bytes list \<Rightarrow> nat \<Rightarrow> nat \<Rightarrow> (u16, bytes) gomap \<Rightarrow> bool" where
  "buffered cs W U m \<longleftrightarrow> (\<forall>(sn, d) \<in> set m. \<exists>k. sn = of_nat k \<and> W \<le> k \<and> k \<le> U \<and> k < length cs \<and> d = cs ! k)"

lemma of_nat_u16_eq_iff: "(of_nat i = (of_nat j :: u16)) \<longleftrightarrow> i mod 65536 = j mod 65536"
  by (simp add: word_of_nat_eq_iff take_bit_eq_mod)

lemma of_nat_u16_inj:
  assumes "(of_nat i :: u16) = of_nat j" "i \<le> j" "j < i + 65536"
  shows "i = j"
proof -
  have "65536 dvd j - i"
    using mod_eq_dvd_iff_nat [OF assms(2), of 65536] assms(1) by (simp add: of_nat_u16_eq_iff)
  moreover have "j - i < 65536" using assms(2,3) by simp
  ultimately show ?thesis using assms(2) by (metis dvd_imp_le diff_is_0_eq gr0I le_antisym not_le)
qed

lemma current_unique: "current n k sn \<Longrightarrow> current n k' sn \<Longrightarrow> k = k'"
  using of_nat_u16_inj [of k k'] of_nat_u16_inj [of k' k] by (cases "k \<le> k'") (auto simp: current_def)

lemma unat_of_nat_diff:
  assumes "j \<le> i" "i < j + 65536"
  shows "unat (of_nat i - of_nat j :: u16) = i - j"
proof -
  have "(of_nat i - of_nat j :: u16) = of_nat (i - j)" using assms(1) by (simp only: of_nat_diff)
  moreover have "unat (of_nat (i - j) :: u16) = i - j" using assms by (simp add: unat_of_nat take_bit_eq_mod del: of_nat_diff)
  ultimately show ?thesis by (simp only:)
qed

lemma lastIndex_current: "current n k sn \<Longrightarrow> lastIndex sn n = k"
proof -
  assume "current n k sn"
  then have "unat (of_nat (n - 1) - sn) = n - 1 - k" "k < n"
    using unat_of_nat_diff [of k "n - 1"] by (auto simp: current_def)
  then show ?thesis by (simp add: lastIndex_def)
qed

lemma current_less: "current n k sn \<Longrightarrow> k < n"
  by (simp add: current_def)

lemma current_Suc: "current n k sn \<Longrightarrow> sn \<noteq> of_nat n \<Longrightarrow> current (Suc n) k sn"
  by (cases "n = k + 65536") (auto simp: current_def of_nat_u16_eq_iff)

lemma got_mono:
  assumes "got W b k" "W \<le> W'" "a_receiveWindowSize b' = a_receiveWindowSize b"
    and "\<And>k. W' \<le> k \<Longrightarrow> mget (a_rcvBuf b) (of_nat k) \<noteq> None \<Longrightarrow> k \<le> W + nat (a_receiveWindowSize b) \<Longrightarrow> mget (a_rcvBuf b') (of_nat k) \<noteq> None"
  shows "got W' b' k"
  using assms by (cases "k < W'") (auto simp: got_def)

lemma buffered_mono: "buffered cs W U m \<Longrightarrow> U \<le> U' \<Longrightarrow> buffered (cs @ ys) W U' m"
  unfolding buffered_def by (fastforce simp: nth_append)

context packet_queue
begin

definition receiverOk :: "bytes list \<Rightarrow> nat \<Rightarrow> 'q arq \<Rightarrow> bool" where
  "receiverOk cs W b \<longleftrightarrow>
     qinv (a_enqueuer b) \<and> controlsOnly b \<and> \<not> a_isVirtual b \<and> a_rcvNxt b = of_nat W \<and> W \<le> length cs \<and>
     gomap_wf (a_rcvBuf b) \<and> buffered cs W (W + nat (a_receiveWindowSize b)) (a_rcvBuf b) \<and>
     (\<not> receiveOver b \<longrightarrow>
      (\<forall>sn payload. (PACKET_STREAM_DATA_ACK, sn, payload) \<in> queued (a_enqueuer b) \<longrightarrow> (\<exists>k. current (length cs) k sn \<and> got W b k)))"

definition senderOk :: "bytes list \<Rightarrow> bool \<Rightarrow> 'q arq \<Rightarrow> bool" where
  "senderOk cs reading a \<longleftrightarrow>
     qinv (a_enqueuer a) \<and> controlsOnly a \<and> \<not> a_isVirtual a \<and> a_sndNxt a = of_nat (length cs) \<and>
     distinct (map fst (sndData a)) \<and> (\<forall>(sn, d) \<in> set (sndData a). \<exists>k. current (length cs) k sn \<and> d = cs ! k) \<and>
     (\<forall>t sn payload. (t, sn, payload) \<in> queued (a_enqueuer a) \<longrightarrow> isDataType t \<longrightarrow> (\<exists>k. current (length cs) k sn \<and> payload = cs ! k)) \<and>
     (sendOver a \<longrightarrow> a_closed a \<or> a_stopLocalRead a) \<and>
     1 \<le> a_limit a \<and> int (length (sndData a)) + (if reading then 1 else 0) \<le> a_limit a"

lemma receiverOk_kept:
  assumes ok: "receiverOk cs W b" and kept: "receiveKept b b'" and room: "\<not> receiveOver b \<Longrightarrow> length cs \<le> W + 32768"
  shows "receiverOk cs W b'"
proof -
  have buf: "a_rcvBuf b' = a_rcvBuf b \<or> a_rcvBuf b' = []" and "a_receiveWindowSize b' = a_receiveWindowSize b"
    using kept by (auto simp: receiveKept_def keptOrDropped_def)
  moreover have "gomap_wf ([] :: (u16, bytes) gomap)" "buffered cs W U []" for U by (simp_all add: gomap_wf_def buffered_def)
  ultimately have "gomap_wf (a_rcvBuf b')" "buffered cs W (W + nat (a_receiveWindowSize b')) (a_rcvBuf b')"
    using ok unfolding receiverOk_def by auto
  moreover have "\<exists>k. current (length cs) k sn \<and> got W b' k"
    if alive: "\<not> receiveOver b'" and ack: "(PACKET_STREAM_DATA_ACK, sn, payload) \<in> queued (a_enqueuer b')" for sn payload
  proof -
    have same: "\<not> receiveOver b" "a_rcvBuf b' = a_rcvBuf b" "got W b' = got W b"
      using kept alive by (auto simp: receiveKept_def keptOrDropped_def got_def fun_eq_iff)
    have "(PACKET_STREAM_DATA_ACK, sn, payload) \<in> queued (a_enqueuer b) \<or> sn = a_rcvNxt b - 1 \<and> 0 < a_rcvNxt b"
      using kept ack ok by (auto simp: receiveKept_def receiverOk_def)
    then show ?thesis
    proof
      assume "(PACKET_STREAM_DATA_ACK, sn, payload) \<in> queued (a_enqueuer b)"
      then show ?thesis using ok same by (auto simp: receiverOk_def)
    next
      assume w: "sn = a_rcvNxt b - 1 \<and> 0 < a_rcvNxt b"
      then have "0 < W" using ok by (auto simp: receiverOk_def intro: gr0I)
      moreover from this have "(of_nat W :: u16) - 1 = of_nat (W - 1)" by (cases W) simp_all
      ultimately have "0 < W" "sn = of_nat (W - 1)" using ok w by (auto simp: receiverOk_def)
      then have "current (length cs) (W - 1) sn" "got W b (W - 1)"
        using ok room [OF same(1)] by (auto simp: receiverOk_def current_def got_def)
      then show ?thesis using same by auto
    qed
  qed
  ultimately show ?thesis
    using ok kept by (auto simp: receiverOk_def receiveKept_def)
qed

lemma senderOk_kept:
  assumes ok: "senderOk cs r a" and kept: "sendKept a a'"
  shows "senderOk cs r a'"
proof -
  have d: "sndData a' = sndData a \<or> sndData a' = []" using kept by (auto simp: sendKept_def keptOrDropped_def)
  have "\<exists>k. current (length cs) k sn \<and> payload = cs ! k"
    if "(t, sn, payload) \<in> queued (a_enqueuer a')" "isDataType t" for t sn payload
    using kept ok that unfolding sendKept_def senderOk_def by blast
  moreover have "sendOver a' \<longrightarrow> a_closed a' \<or> a_stopLocalRead a'"
    using kept ok by (auto simp: sendKept_def senderOk_def stopsReading_def)
  ultimately show ?thesis
    using ok kept d by (auto simp: senderOk_def sendKept_def stopsReading_def)
qed

end

context packet_queue
begin

lemma controlStep_framed:
  assumes "controlStep E a b" "qinv (a_enqueuer a)" "controlsOnly a" "\<not> a_isVirtual a"
  shows "framed a b"
  using assms
  by (cases rule: controlStep.cases)
    (simp_all add: framed_MarkCloseReadReceived framed_MarkCloseWriteReceived framed_MarkRstReceived framed_ReceiveControlAck
      framed_HandleDataNack framed_checkRetransmits framed_Close framed_SendControl framed_workers)

lemma receiveStep_sendKept: "receiveStep E a b \<Longrightarrow> sendKept a b"
  by (cases rule: receiveStep.cases)
    (auto simp: sendKept_ReceiveData sendKept_rxLoop sendKept_SetLocalConn sendKept_writeLoopCollect sendKept_writeLoopWrite
      framed_sendKept framed_writeLoopWake)

lemma sendStep_receiveKept: "sendStep E a b \<Longrightarrow> receiveKept a b"
  by (cases rule: sendStep.cases) (auto simp: receiveKept_ioLoopRead receiveKept_ReceiveAck)

subsection \<open>The sender\<close>

lemma sndData_mdel: "sndData (a\<lparr>a_sndBuf := mdel (a_sndBuf a) sn\<rparr>) = filter (\<lambda>p. fst p \<noteq> sn) (sndData a)"
proof -
  have "map (\<lambda>(sn, i). (sn, d_Data i)) (mdel m sn) = filter (\<lambda>p. fst p \<noteq> sn) (map (\<lambda>(sn, i). (sn, d_Data i)) m)" for m
    by (induction m) auto
  then show ?thesis by (simp add: sndData_def)
qed

lemma senderOk_ack:
  assumes ok: "senderOk cs r a"
  shows "senderOk cs r (snd (ReceiveAck (E now') now sn a))"
    and "\<not> sendOver (snd (ReceiveAck (E now') now sn a)) \<Longrightarrow> \<not> sendOver a \<and>
         sndData (snd (ReceiveAck (E now') now sn a)) = filter (\<lambda>p. fst p \<noteq> sn) (sndData a)"
proof -
  show "senderOk cs r (snd (ReceiveAck (E now') now sn a))"
  proof (cases "mget (a_sndBuf a) sn")
    case None
    then have "sendKept a (snd (ReceiveAck (E now') now sn a))" by (simp add: ReceiveAck_def framed_sendKept)
    then show ?thesis by (rule senderOk_kept [OF ok])
  next
    case (Some info)
    have "senderOk cs r (a\<lparr>a_sndBuf := mdel (a_sndBuf a) sn\<rparr>)"
    proof -
      have "length (filter (\<lambda>p. fst p \<noteq> sn) (sndData a)) \<le> length (sndData a)" by (rule length_filter_le)
      moreover have "int (length (sndData a)) + (if r then 1 else 0) \<le> a_limit a" using ok by (simp add: senderOk_def)
      ultimately have "int (length (filter (\<lambda>p. fst p \<noteq> sn) (sndData a))) + (if r then 1 else 0) \<le> a_limit a" by linarith
      moreover have "controlsOnly (a\<lparr>a_sndBuf := m\<rparr>) = controlsOnly a" "sendOver (a\<lparr>a_sndBuf := m\<rparr>) = sendOver a" for m
        by (simp_all add: controlsOnly_def sendOver_def)
      moreover have "distinct (map fst (filter (\<lambda>p. fst p \<noteq> sn) (sndData a)))"
        using ok by (simp add: senderOk_def distinct_map_filter)
      ultimately show ?thesis using ok unfolding senderOk_def sndData_mdel by simp
    qed
    then show ?thesis using framed_sendKept [OF ReceiveAck_framed [OF Some]] by (rule senderOk_kept)
  qed
  assume alive: "\<not> sendOver (snd (ReceiveAck (E now') now sn a))"
  show "\<not> sendOver a \<and> sndData (snd (ReceiveAck (E now') now sn a)) = filter (\<lambda>p. fst p \<noteq> sn) (sndData a)"
  proof (cases "mget (a_sndBuf a) sn")
    case None
    then have "sn \<notin> fst ` set (sndData a)"
      by (force simp: sndData_def map_of_eq_None_iff)
    then have "filter (\<lambda>p. fst p \<noteq> sn) (sndData a) = sndData a" by (force simp: filter_id_conv)
    with None alive show ?thesis by (simp add: ReceiveAck_def sndData_def sendOver_def)
  next
    case (Some info)
    let ?c = "a\<lparr>a_sndBuf := mdel (a_sndBuf a) sn\<rparr>"
    have "keptOrDropped (sndData ?c) (sndData (snd (ReceiveAck (E now') now sn a))) (sendOver ?c) (sendOver (snd (ReceiveAck (E now') now sn a)))"
      using framed_sendKept [OF ReceiveAck_framed [OF Some]] by (auto simp: sendKept_def)
    with alive show ?thesis by (simp add: keptOrDropped_def sndData_mdel) (simp add: sendOver_def)
  qed
qed

lemma senderOk_read:
  assumes ok: "senderOk cs True a" and raw: "raw \<noteq> []"
    and free: "a_sndNxt a \<notin> fst ` set (sndData a)" "\<And>t payload. isDataType t \<Longrightarrow> (t, a_sndNxt a, payload) \<notin> queued (a_enqueuer a)"
    and b_def: "b = snd (snd (ioLoopRead (E now') now raw err since a))"
  shows "senderOk (cs @ [raw]) False b"
    and "\<not> sendOver b \<Longrightarrow> \<not> sendOver a \<and> sndData b = sndData a @ [(a_sndNxt a, raw)]"
proof -
  obtain item where item: "d_Data item = raw"
      "framed (a\<lparr>a_sndNxt := a_sndNxt a + 1, a_sndBuf := mput (a_sndBuf a) (a_sndNxt a) item\<rparr>) (sendChunk (E now') now raw a)"
    using sendChunk_framed by blast
  define c where "c = a\<lparr>a_sndNxt := a_sndNxt a + 1, a_sndBuf := mput (a_sndBuf a) (a_sndNxt a) item\<rparr>"
  have kept: "sendKept c b"
    using sendKept_trans [OF framed_sendKept framed_sendKept, OF item(2) ioLoopRead_framed [OF raw]] by (simp add: b_def c_def)
  have put: "mput m k v = m @ [(k, v)]" if "k \<notin> fst ` set m" for m :: "(u16, arqDataItem) gomap" and k v
    using that by (induction m) auto
  have "a_sndNxt a \<notin> fst ` set (a_sndBuf a)" using free(1) by (force simp: sndData_def)
  then have data: "sndData c = sndData a @ [(a_sndNxt a, raw)]" using item(1) by (simp add: c_def sndData_def put)
  have n: "a_sndNxt a = of_nat (length cs)" using ok by (simp add: senderOk_def)
  have cur: "\<exists>k. current (length (cs @ [raw])) k sn \<and> d = (cs @ [raw]) ! k"
    if k: "\<exists>k. current (length cs) k sn \<and> d = cs ! k" and "sn \<noteq> a_sndNxt a" for sn d
  proof -
    obtain k where "current (length cs) k sn" "d = cs ! k" using k by blast
    moreover from this have "current (Suc (length cs)) k sn" "k < length cs"
      using current_Suc that(2) n by (auto simp: current_def)
    ultimately show ?thesis by (intro exI [of _ k]) (simp add: nth_append)
  qed
  have new: "current (length (cs @ [raw])) (length cs) (a_sndNxt a)" by (simp add: n current_def)
  have inBuf: "\<forall>(sn, d) \<in> set (sndData c). \<exists>k. current (length (cs @ [raw])) k sn \<and> d = (cs @ [raw]) ! k"
  proof clarify
    fix sn d assume "(sn, d) \<in> set (sndData c)"
    then consider "(sn, d) \<in> set (sndData a)" | "sn = a_sndNxt a" "d = raw" by (auto simp: data)
    then show "\<exists>k. current (length (cs @ [raw])) k sn \<and> d = (cs @ [raw]) ! k"
    proof cases
      case 1
      then show ?thesis using ok free(1) by (intro cur) (force simp: senderOk_def)+
    next
      case 2
      then show ?thesis using new by (intro exI [of _ "length cs"]) simp
    qed
  qed
  have same: "a_enqueuer c = a_enqueuer a" "controlsOnly c = controlsOnly a" "a_isVirtual c = a_isVirtual a" "sendOver c = sendOver a"
    "a_closed c = a_closed a" "a_stopLocalRead c = a_stopLocalRead a" "a_limit c = a_limit a" "a_sndNxt c = of_nat (length (cs @ [raw]))"
    by (simp_all add: c_def controlsOnly_def sendOver_def n)
  have inQueue: "\<exists>k. current (length (cs @ [raw])) k sn \<and> payload = (cs @ [raw]) ! k"
    if "(t, sn, payload) \<in> queued (a_enqueuer c)" "isDataType t" for t sn payload
    using that ok free(2) [OF that(2)] by (intro cur) (auto simp: senderOk_def same)
  have "int (length (sndData a)) + 1 \<le> a_limit a" "distinct (map fst (sndData a))" using ok by (simp_all add: senderOk_def)
  then have "distinct (map fst (sndData c))" "int (length (sndData c)) \<le> a_limit a" using free(1) by (simp_all add: data)
  then have "senderOk (cs @ [raw]) False c"
    using ok inBuf inQueue unfolding senderOk_def same by simp
  then show "senderOk (cs @ [raw]) False b" using kept by (rule senderOk_kept)
  assume "\<not> sendOver b"
  then show "\<not> sendOver a \<and> sndData b = sndData a @ [(a_sndNxt a, raw)]"
    using kept data same(4) by (auto simp: sendKept_def keptOrDropped_def)
qed

end

text \<open>The receive buffer only grows while it is in use, and nothing else of the receiving side changes.\<close>

definition recvMono :: "'q arq \<Rightarrow> 'q arq \<Rightarrow> bool" where
  "recvMono a b \<longleftrightarrow>
     a_rcvNxt b = a_rcvNxt a \<and> a_receiveWindowSize b = a_receiveWindowSize a \<and> a_rxChan b = a_rxChan a \<and>
     (a_localConn b = None \<longleftrightarrow> a_localConn a = None) \<and> written b = written a \<and> (receiveOver a \<longrightarrow> receiveOver b) \<and>
     (\<not> receiveOver b \<longrightarrow> (\<forall>k. mget (a_rcvBuf a) k \<noteq> None \<longrightarrow> mget (a_rcvBuf b) k \<noteq> None))"

lemma recvMono_trans: "recvMono a b \<Longrightarrow> recvMono b c \<Longrightarrow> recvMono a c"
  unfolding recvMono_def by auto

lemma recvMono_got: "recvMono a b \<Longrightarrow> \<not> receiveOver b \<Longrightarrow> got W a k \<Longrightarrow> got W b k"
  by (auto simp: recvMono_def got_def)

lemma buffered_mput:
  "buffered cs W U m \<Longrightarrow> W \<le> k \<Longrightarrow> k \<le> U \<Longrightarrow> k < length cs \<Longrightarrow> buffered cs W U (mput m (of_nat k) (cs ! k))"
  using set_mput [of "of_nat k" "cs ! k" m] by (fastforce simp: buffered_def)

context packet_queue
begin

lemma receiveKept_recvMono: "receiveKept a b \<Longrightarrow> recvMono a b"
  by (auto simp: receiveKept_def recvMono_def keptOrDropped_def)

lemma receiverOk_irrelevant [simp]:
  "receiverOk cs W (b\<lparr>a_rxChan := x1\<rparr>) = receiverOk cs W b" "receiverOk cs W (b\<lparr>a_localConn := x2\<rparr>) = receiverOk cs W b"
  "receiverOk cs W (b\<lparr>a_lastActivity := x3\<rparr>) = receiverOk cs W b" "receiverOk cs W (b\<lparr>a_pendingInbound := x4\<rparr>) = receiverOk cs W b"
  "receiverOk cs W (b\<lparr>a_localWritePending := x5\<rparr>) = receiverOk cs W b"
  by (simp_all add: receiverOk_def controlsOnly_def receiveOver_def got_def)

lemma pushDataAck_eq:
  "pushDataAck (E now) sn b = b\<lparr>a_enqueuer := snd (pushTX (E now) (DefaultPacketPriority PACKET_STREAM_DATA_ACK) PACKET_STREAM_DATA_ACK sn 0 0 0 0 [] (a_enqueuer b))\<rparr>"
  by (simp add: pushDataAck_def arqPush_def split_beta)

lemma recvMono_pushDataAck: "recvMono b (pushDataAck (E now) sn b)"
  by (simp add: pushDataAck_eq recvMono_def written_def receiveOver_def)

lemma receiverOk_pushDataAck:
  assumes "receiverOk cs W b" "\<not> receiveOver b \<Longrightarrow> current (length cs) k sn \<and> got W b k"
  shows "receiverOk cs W (pushDataAck (E now) sn b)"
proof -
  let ?q = "snd (pushTX (E now) (DefaultPacketPriority PACKET_STREAM_DATA_ACK) PACKET_STREAM_DATA_ACK sn 0 0 0 0 [] (a_enqueuer b))"
  have "queued ?q \<subseteq> insert (PACKET_STREAM_DATA_ACK, sn, []) (queued (a_enqueuer b))" "qinv ?q"
    using assms(1) by (simp_all add: receiverOk_def queued_push inv_push)
  moreover have "receiveOver (b\<lparr>a_enqueuer := ?q\<rparr>) = receiveOver b" "got W (b\<lparr>a_enqueuer := ?q\<rparr>) = got W b"
    by (simp_all add: receiveOver_def got_def fun_eq_iff)
  ultimately show ?thesis
    using assms unfolding pushDataAck_eq receiverOk_def by (simp; blast)
qed

lemma receiverOk_store:
  assumes "receiverOk cs W b" "W \<le> k" "k \<le> W + nat (a_receiveWindowSize b)" "k < length cs" "mget (a_rcvBuf b) (of_nat k) = None"
  defines "b' \<equiv> b\<lparr>a_rcvBuf := mput (a_rcvBuf b) (of_nat k) (cs ! k)\<rparr>"
  shows "receiverOk cs W b'" and "recvMono b b'" and "got W b' k"
proof -
  show "recvMono b b'" by (simp add: b'_def recvMono_def written_def receiveOver_def)
  show "got W b' k" using assms(3) by (simp add: b'_def got_def)
  have mono: "got W b j \<Longrightarrow> got W b' j" for j by (auto simp: b'_def got_def)
  have "receiveOver b' = receiveOver b" "controlsOnly b' = controlsOnly b" by (simp_all add: b'_def receiveOver_def controlsOnly_def)
  moreover have "buffered cs W (W + nat (a_receiveWindowSize b)) (a_rcvBuf b')"
    using assms(1-4) by (simp add: b'_def receiverOk_def buffered_mput)
  moreover have "gomap_wf (a_rcvBuf b')" using assms(1) by (simp add: b'_def receiverOk_def)
  moreover have "a_enqueuer b' = a_enqueuer b" "a_isVirtual b' = a_isVirtual b" "a_rcvNxt b' = a_rcvNxt b" "a_receiveWindowSize b' = a_receiveWindowSize b"
    by (simp_all add: b'_def)
  ultimately show "receiverOk cs W b'"
    using assms(1) mono unfolding receiverOk_def by (simp; blast)
qed

lemma receiverOk_framed:
  assumes "receiverOk cs W b" "framed b c" "\<not> receiveOver b \<Longrightarrow> length cs \<le> W + 32768"
  shows "receiverOk cs W c" "recvMono b c"
  using receiverOk_kept [OF assms(1) framed_receiveKept [OF assms(2)]] assms(3) receiveKept_recvMono [OF framed_receiveKept [OF assms(2)]]
  by blast+

lemma acceptReceived_ok:
  assumes ok: "receiverOk cs W b" and k: "W \<le> k" "k \<le> W + nat (a_receiveWindowSize b)" "k < length cs"
    and room: "\<not> receiveOver b \<Longrightarrow> length cs \<le> W + 32768"
  shows "receiverOk cs W (acceptReceived (E now') now (of_nat k) (cs ! k) b) \<and> recvMono b (acceptReceived (E now') now (of_nat k) (cs ! k) b)"
proof -
  define c where "c = (if mget (a_rcvBuf b) (of_nat k) = None then b\<lparr>a_rcvBuf := mput (a_rcvBuf b) (of_nat k) (cs ! k)\<rparr> else b)"
  have c: "receiverOk cs W c" "recvMono b c" "got W c k"
    using receiverOk_store [OF ok k] ok k by (auto simp: c_def got_def recvMono_def)
  have over: "receiveOver c = receiveOver b" by (simp add: c_def receiveOver_def)
  define d where "d = pushDataAck (E now') (of_nat k) c"
  have d: "receiverOk cs W d" "recvMono b d"
    using receiverOk_pushDataAck [OF c(1), of k] c(3) k room over recvMono_trans [OF c(2) recvMono_pushDataAck]
    by (auto simp: d_def current_def)
  have alive: "\<not> receiveOver d \<Longrightarrow> length cs \<le> W + 32768" using d(2) room by (auto simp: recvMono_def)
  have "framed d (signalFlushReady (maybeSendDataNacks (E now') now (of_nat k) (if P then clearSentDataNack (E now') (of_nat k) d else d)))" for P
    by (simp add: framed_nacks framed_clearSentDataNack)
  from receiverOk_framed [OF d(1) this alive] show ?thesis
    unfolding acceptReceived_def Let_def c_def [symmetric] d_def [symmetric] using recvMono_trans [OF d(2)] by simp
qed

lemma processReceivedData_ok:
  assumes ok: "receiverOk cs W b" and k: "k < length cs" "k < W + 32768" "W \<le> k + 32768" and win: "nat (a_receiveWindowSize b) < 32768"
    and room: "\<not> receiveOver b \<Longrightarrow> length cs \<le> W + 32768"
  shows "receiverOk cs W (processReceivedData (E now') now (of_nat k) (cs ! k) b) \<and> recvMono b (processReceivedData (E now') now (of_nat k) (cs ! k) b)"
proof -
  define c where "c = (if 0 < a_pendingInbound b then b\<lparr>a_pendingInbound := a_pendingInbound b - 1\<rparr> else b)"
  have c: "framed b c" by (simp add: c_def)
  define d where "d = c\<lparr>a_lastActivity := now\<rparr>"
  have d: "framed b d" using c by (simp add: d_def)
  note dok = receiverOk_framed [OF ok d room]
  have nx: "a_rcvNxt d = of_nat W" and w: "a_receiveWindowSize d = a_receiveWindowSize b" and ov: "receiveOver d = receiveOver b"
    using ok by (simp_all add: receiverOk_def c_def d_def receiveOver_def)
  have late: "32768 \<le> (of_nat k - of_nat W :: u16) \<longleftrightarrow> k < W"
  proof (cases "k < W")
    case True
    have "(of_nat k - of_nat W :: u16) = - of_nat (W - k)" using True by (simp add: of_nat_diff)
    also have "\<dots> = of_nat (65536 - (W - k))" using True k(3) by (simp add: of_nat_diff)
    finally have "(of_nat k - of_nat W :: u16) = of_nat (65536 - (W - k))" .
    moreover have "unat (of_nat (65536 - (W - k)) :: u16) = 65536 - (W - k)"
      using True k(3) by (simp add: unat_of_nat take_bit_eq_mod del: of_nat_diff)
    ultimately have "unat (of_nat k - of_nat W :: u16) = 65536 - (W - k)" by (simp only:)
    then show ?thesis using True k(3) by (simp add: word_le_nat_alt)
  next
    case False
    then have "unat (of_nat k - of_nat W :: u16) = k - W" using k(2) by (intro unat_of_nat_diff) simp_all
    then show ?thesis using False k(2) by (simp add: word_le_nat_alt)
  qed
  have diff: "uint (of_nat k - of_nat W :: u16) = int (k - W)" if "\<not> k < W"
    using unat_of_nat_diff [of W k] that k(2) unfolding uint_nat by simp
  consider (broken) "a_localWriterBroken c \<or> a_closeWriteSent c \<or> a_closeWriteAcked c"
    | (old) "\<not> (a_localWriterBroken c \<or> a_closeWriteSent c \<or> a_closeWriteAcked c)" "k < W"
    | (new) "\<not> (a_localWriterBroken c \<or> a_closeWriteSent c \<or> a_closeWriteAcked c)" "\<not> k < W" by blast
  then show ?thesis
  proof cases
    case broken
    then show ?thesis
      using receiverOk_framed [OF ok framed_closeWriteAfterBreak [OF c] room]
      by (simp add: processReceivedData_def c_def [symmetric] Let_def)
  next
    case old
    have "receiverOk cs W (pushDataAck (E now') (of_nat k) d)"
      using receiverOk_pushDataAck [OF dok(1), of k "of_nat k"] old(2) k room ov by (auto simp: current_def got_def)
    then show ?thesis
      using old late recvMono_trans [OF dok(2) recvMono_pushDataAck]
      by (simp add: processReceivedData_def c_def [symmetric] d_def [symmetric] nx Let_def)
  next
    case new
    have "receiverOk cs W (acceptReceived (E now') now (of_nat k) (cs ! k) d) \<and> recvMono d (acceptReceived (E now') now (of_nat k) (cs ! k) d)"
      if "\<not> a_receiveWindowSize b < int (k - W)"
      using acceptReceived_ok [OF dok(1), of k] new that k room w ov by auto
    then show ?thesis
      using new late diff dok recvMono_trans [OF dok(2)]
      by (simp add: processReceivedData_def c_def [symmetric] d_def [symmetric] nx w Let_def)
  qed
qed

end

section \<open>The writer\<close>

lemma buffered_mdel:
  assumes "buffered cs W U m" "gomap_wf m"
  shows "buffered cs (Suc W) U (mdel m (of_nat W))"
proof -
  have "\<exists>k. sn = of_nat k \<and> Suc W \<le> k \<and> k \<le> U \<and> k < length cs \<and> d = cs ! k" if "(sn, d) \<in> set (mdel m (of_nat W))" for sn d
  proof -
    have "sn \<noteq> of_nat W" "(sn, d) \<in> set m" using that by (auto simp: AList.delete_eq)
    then obtain k where "sn = of_nat k" "W \<le> k" "k \<le> U" "k < length cs" "d = cs ! k" using assms(1) by (auto simp: buffered_def)
    with \<open>sn \<noteq> of_nat W\<close> show ?thesis by (intro exI [of _ k]) (auto simp: Suc_le_eq le_less)
  qed
  then show ?thesis by (auto simp: buffered_def)
qed

lemma collectReady_spec:
  assumes "collectReady m nxt = (chunks, m', nxt')" "nxt = of_nat W" "buffered cs W U m" "gomap_wf m" "W \<le> length cs" "U < W + 65536"
  shows "chunks = take (length chunks) (drop W cs) \<and> nxt' = of_nat (W + length chunks) \<and> W + length chunks \<le> length cs \<and>
    buffered cs (W + length chunks) U m' \<and> gomap_wf m' \<and> mget m' nxt' = None \<and>
    (\<forall>k. W + length chunks \<le> k \<longrightarrow> k \<le> U \<longrightarrow> mget m' (of_nat k) = mget m (of_nat k))"
  using assms
proof (induction m nxt arbitrary: W chunks m' nxt' rule: collectReady.induct)
  case (1 m nxt)
  show ?case
  proof (cases "mget m nxt")
    case None
    then have "chunks = []" "m' = m" "nxt' = nxt" using "1.prems"(1) by (simp_all add: collectReady.simps [of m nxt])
    then show ?thesis using None "1.prems" by simp
  next
    case (Some d)
    obtain chunks2 where rec: "collectReady (mdel m nxt) (nxt + 1) = (chunks2, m', nxt')" "chunks = d # chunks2"
      using "1.prems"(1) Some by (auto simp: collectReady.simps [of m nxt] split: prod.splits)
    obtain k where k: "nxt = of_nat k" "W \<le> k" "k \<le> U" "k < length cs" "d = cs ! k"
      using map_of_SomeD [OF Some] "1.prems"(3) by (auto simp: buffered_def)
    then have "k = W" using "1.prems"(2,6) of_nat_u16_inj [of W k] by simp
    have other: "(of_nat j :: u16) \<noteq> of_nat W" if "W < j" "j \<le> U" for j
      using of_nat_u16_inj [of W j] that "1.prems"(6) by auto
    have ih: "chunks2 = take (length chunks2) (drop (Suc W) cs) \<and> nxt' = of_nat (Suc W + length chunks2) \<and> Suc W + length chunks2 \<le> length cs \<and>
        buffered cs (Suc W + length chunks2) U m' \<and> gomap_wf m' \<and> mget m' nxt' = None \<and>
        (\<forall>j. Suc W + length chunks2 \<le> j \<longrightarrow> j \<le> U \<longrightarrow> mget m' (of_nat j) = mget (mdel m nxt) (of_nat j))"
      using "1.prems" k \<open>k = W\<close> buffered_mdel [OF "1.prems"(3,4)]
      by (intro "1.IH" [OF Some rec(1)]) (auto simp: add.commute)
    have "d # take n (drop (Suc W) cs) = take (Suc n) (drop W cs)" for n
      using k \<open>k = W\<close> by (simp add: Cons_nth_drop_Suc [symmetric])
    from this [of "length chunks2"] have "d # chunks2 = take (Suc (length chunks2)) (drop W cs)" using ih by simp
    then show ?thesis
      using ih rec(2) "1.prems"(2) other by auto
  qed
qed

definition writerOk :: "bytes list \<Rightarrow> nat \<Rightarrow> writerPc \<Rightarrow> 'q arq \<Rightarrow> bool" where
  "writerOk cs W pc b \<longleftrightarrow>
     (a_localConn b = None \<longrightarrow> W = 0) \<and>
     (case pc of
        Writing remaining _ \<Rightarrow> a_localConn b \<noteq> None \<and> written b @ remaining = concat (take W cs)
      | WriterDone \<Rightarrow> prefix (written b) (concat (take W cs))
      | _ \<Rightarrow> written b = concat (take W cs))"

lemma writerOk_recvMono: "recvMono b b' \<Longrightarrow> writerOk cs W pc b' = writerOk cs W pc b"
  by (simp add: writerOk_def recvMono_def split: writerPc.split)

lemma writerOk_conn: "a_localConn b' = a_localConn b \<Longrightarrow> writerOk cs W pc b' = writerOk cs W pc b"
  by (simp add: writerOk_def written_def split: writerPc.split)

lemma writerOk_done: "writerOk cs W Collecting b \<Longrightarrow> writerOk cs W WriterDone b"
  "writerOk cs W WaitFlush b \<Longrightarrow> writerOk cs W WriterDone b" "writerOk cs W WaitFlush b = writerOk cs W Collecting b"
  by (simp_all add: writerOk_def)

context packet_queue
begin

lemma writeLoopNext_ok:
  assumes "written b @ remaining = concat (take W cs)" "a_localConn b \<noteq> None"
  shows "writerOk cs W (fst (writeLoopNext (E now') remaining n b)) (snd (writeLoopNext (E now') remaining n b))"
proof -
  have "recvMono b (snd (writeLoopNext (E now') remaining n b))"
    by (intro receiveKept_recvMono framed_receiveKept framed_writeLoopNext framed_refl)
  moreover have "writerOk cs W (fst (writeLoopNext (E now') remaining n b)) b"
    using assms by (auto simp: writerOk_def writeLoopNext_def writeLoopFinish_def Let_def split_beta)
  ultimately show ?thesis by (simp add: writerOk_recvMono)
qed

lemma writeLoopWrite_ok:
  assumes ok: "writerOk cs W (Writing remaining retries) b" and step: "writeLoopWrite (E now') now n err remaining retries b = (pc, b')"
  shows "writerOk cs W pc b'" and "\<exists>c. framed (b\<lparr>a_localConn := c\<rparr>) b'"
proof -
  let ?conn = "map_option (\<lambda>c. c\<lparr>connWritten := connWritten c @ take n remaining\<rparr>) (a_localConn b)"
  let ?b = "b\<lparr>a_localConn := ?conn\<rparr>"
  have w: "written ?b = written b @ take n remaining" "a_localConn ?b \<noteq> None"
    using ok by (auto simp: written_def writerOk_def split: option.split)
  then have rest: "written ?b @ drop n remaining = concat (take W cs)" using ok by (simp add: writerOk_def)
  have broken: "fst (writerBroken (E now') now g p ?b) = WriterDone" for g p by (simp add: writerBroken_def Let_def)
  have "recvMono ?b (snd (writerBroken (E now') now g p ?b))" for g p
    by (intro receiveKept_recvMono framed_receiveKept framed_writerBroken framed_refl)
  moreover have "writerOk cs W WriterDone ?b"
    using prefixI [OF rest [symmetric]] w(2) by (auto simp: writerOk_def)
  ultimately have "writerOk cs W (fst (writerBroken (E now') now g p ?b)) (snd (writerBroken (E now') now g p ?b))" for g p
    unfolding broken using writerOk_recvMono by blast
  note all = this writeLoopNext_ok [OF rest w(2)]
  then have "writerOk cs W (fst (writeLoopWrite (E now') now n err remaining retries b)) (snd (writeLoopWrite (E now') now n err remaining retries b))"
    unfolding writeLoopWrite_def Let_def by (simp split: option.split)
  then show "writerOk cs W pc b'" using step by simp
  have "framed ?b (snd (writeLoopWrite (E now') now n err remaining retries b))"
    by (simp add: writeLoopWrite_def Let_def framed_writeLoopNext framed_writerBroken split: option.split)
  then show "\<exists>c. framed (b\<lparr>a_localConn := c\<rparr>) b'" using step by auto
qed

lemma writeLoopCollect_ok:
  assumes ok: "receiverOk cs W b" and wr: "writerOk cs W Collecting b" and win: "nat (a_receiveWindowSize b) < 32768"
    and room: "\<not> receiveOver b \<Longrightarrow> length cs \<le> W + 32768" and step: "writeLoopCollect (E now') now b = (pc, b')"
  defines "W' \<equiv> W + collected b"
  shows "receiverOk cs W' b' \<and> writerOk cs W' pc b' \<and> a_rxChan b' = a_rxChan b \<and> a_receiveWindowSize b' = a_receiveWindowSize b \<and>
    (receiveOver b \<longrightarrow> receiveOver b') \<and> (\<forall>k. \<not> receiveOver b' \<longrightarrow> got W b k \<longrightarrow> got W' b' k)"
proof (cases "a_closed b \<or> \<not> a_ioReady b \<or> a_localConn b = None")
  case True
  then have W': "W' = W" by (simp add: W'_def collected_def)
  have "framed b (snd (writeLoopCollect (E now') now b))" using True by (auto simp: writeLoopCollect_def framed_Close)
  then have f: "framed b b'" using step by simp
  have "pc = WriterDone \<or> pc = WaitFlush" using True step by (auto simp: writeLoopCollect_def split: if_splits)
  then have "writerOk cs W pc b" using wr by (auto simp: writerOk_done)
  moreover note receiverOk_framed [OF ok f room]
  ultimately show ?thesis
    unfolding W' using recvMono_got [of b b'] writerOk_recvMono [of b b'] by (auto simp: recvMono_def)
next
  case False
  obtain chunks m nxt where c: "collectReady (a_rcvBuf b) (a_rcvNxt b) = (chunks, m, nxt)" by (metis prod_cases3)
  let ?U = "W + nat (a_receiveWindowSize b)"
  have spec: "chunks = take (length chunks) (drop W cs)" "nxt = of_nat (W + length chunks)" "W + length chunks \<le> length cs"
      "buffered cs (W + length chunks) ?U m" "gomap_wf m" "\<forall>k. W + length chunks \<le> k \<longrightarrow> k \<le> ?U \<longrightarrow> mget m (of_nat k) = mget (a_rcvBuf b) (of_nat k)"
    using collectReady_spec [OF c, of W cs ?U] ok win by (auto simp: receiverOk_def)
  have W': "W' = W + length chunks" using False c by (auto simp: W'_def collected_def)
  define d where "d = b\<lparr>a_rcvBuf := m, a_rcvNxt := nxt, a_localWritePending := chunks \<noteq> []\<rparr>"
  have got: "got W b k \<Longrightarrow> got W' d k" for k
    using spec(6) by (cases "k < W'") (auto simp: got_def d_def W')
  have "receiveOver d = receiveOver b" "controlsOnly d = controlsOnly b" by (simp_all add: d_def receiveOver_def controlsOnly_def)
  moreover have "buffered cs W' (W' + nat (a_receiveWindowSize b)) m"
    using buffered_mono [OF spec(4), of "W' + nat (a_receiveWindowSize b)" "[]"] by (simp add: W')
  ultimately have d: "receiverOk cs W' d"
    using ok got spec(2,3,5) unfolding receiverOk_def by (simp add: d_def W') blast
  have conn: "a_localConn d \<noteq> None" and wd: "written d = concat (take W cs)"
    using False wr by (auto simp: d_def written_def writerOk_def)
  have cat: "concat (take W' cs) = concat (take W cs) @ concat chunks"
    using spec(1) by (simp add: W' take_add)
  have f: "framed d b'" and w: "writerOk cs W' pc b'"
  proof -
    have "(pc, b') = (if chunks = [] then writeLoopIdle (E now') d else writeLoopNext (E now') (concat chunks) 0 d)"
      using step False c by (auto simp: writeLoopCollect_def d_def)
    moreover have "framed d (snd (writeLoopIdle (E now') d))" "framed d (snd (writeLoopNext (E now') (concat chunks) 0 d))"
      by (simp_all add: framed_writeLoopIdle framed_writeLoopNext)
    moreover have "fst (writeLoopIdle (E now') d) \<in> {WriterDone, WaitFlush}" by (simp add: writeLoopIdle_def Let_def split_beta)
    moreover have "chunks = [] \<Longrightarrow> writerOk cs W' WriterDone d \<and> writerOk cs W' WaitFlush d"
      using wd conn W' by (auto simp: writerOk_def)
    moreover have "writerOk cs W' (fst (writeLoopNext (E now') (concat chunks) 0 d)) (snd (writeLoopNext (E now') (concat chunks) 0 d))"
      using wd conn cat by (intro writeLoopNext_ok) simp_all
    ultimately show "framed d b'" "writerOk cs W' pc b'"
      using writerOk_recvMono [OF receiveKept_recvMono [OF framed_receiveKept]]
      by (cases "chunks = []"; metis fst_conv snd_conv insertE singletonD)+
  qed
  have "\<not> receiveOver d \<Longrightarrow> length cs \<le> W' + 32768" using room by (auto simp: d_def receiveOver_def W')
  note r = receiverOk_framed [OF d f this]
  have "a_rxChan d = a_rxChan b" "a_receiveWindowSize d = a_receiveWindowSize b" "receiveOver d = receiveOver b"
    by (simp_all add: d_def receiveOver_def)
  then show ?thesis using r w got recvMono_got [OF r(2)] by (auto simp: recvMono_def)
qed

end

section \<open>The invariant of the link\<close>

text \<open>A queue from which packets are taken for transmission.\<close>

locale packet_source = packet_queue E qinv queued
  for E :: "instant \<Rightarrow> 'q enqueuerOps" and qinv :: "'q \<Rightarrow> bool" and queued :: "'q \<Rightarrow> packetView set" +
  fixes takes :: "'q \<Rightarrow> packetView \<Rightarrow> 'q \<Rightarrow> bool"
  assumes takes_queued: "takes q p q' \<Longrightarrow> qinv q \<Longrightarrow> qinv q' \<and> p \<in> queued q \<and> queued q' \<subseteq> queued q"
begin

lemma takes_kept:
  assumes "takes (a_enqueuer a) p q" "qinv (a_enqueuer a)"
  shows "sendKept a (NoteTXPacketDequeued now t sn f (a\<lparr>a_enqueuer := q\<rparr>))"
    and "receiveKept a (NoteTXPacketDequeued now t sn f (a\<lparr>a_enqueuer := q\<rparr>))"
proof -
  note q = takes_queued [OF assms]
  have "framed a (a\<lparr>a_enqueuer := q\<rparr>)" using q by (intro framed_queue framed_refl) blast
  then have "framed a (NoteTXPacketDequeued now t sn f (a\<lparr>a_enqueuer := q\<rparr>))" by (rule framed_NoteTXPacketDequeued)
  then show "sendKept a (NoteTXPacketDequeued now t sn f (a\<lparr>a_enqueuer := q\<rparr>))"
    "receiveKept a (NoteTXPacketDequeued now t sn f (a\<lparr>a_enqueuer := q\<rparr>))"
    by (simp_all add: framed_sendKept framed_receiveKept)
qed

end

definition windowsFit :: "'p arq \<Rightarrow> 'q arq \<Rightarrow> bool" where
  "windowsFit a b \<longleftrightarrow> nat (a_receiveWindowSize b) + nat (a_limit a) + 2 \<le> 32768"

text \<open>
  While the receiver accepts data: what it acknowledged it has, the sender is not too far ahead, and
  every chunk is with the receiver or still in the send buffer.
\<close>

definition linkComplete :: "bytes list \<Rightarrow> bool \<Rightarrow> nat \<Rightarrow> nat list \<Rightarrow> 'p arq \<Rightarrow> 'q arq \<Rightarrow> bool" where
  "linkComplete cs reading W acks a b \<longleftrightarrow>
     (\<not> receiveOver b \<longrightarrow>
        (\<forall>k \<in> set acks. k < length cs \<and> got W b k) \<and>
        length cs + (if reading then 1 else 0) \<le> W + nat (a_receiveWindowSize b) + nat (a_limit a) + 1 \<and>
        (\<not> sendOver a \<longrightarrow> (\<forall>k < length cs. got W b k \<or> length cs \<le> k + 65536 \<and> of_nat k \<in> fst ` set (sndData a))))"

definition linkHistory :: "bytes list \<Rightarrow> nat \<Rightarrow> (nat \<times> bytes) list \<Rightarrow> nat list \<Rightarrow> 'q arq \<Rightarrow> bool" where
  "linkHistory cs W data rx b \<longleftrightarrow>
     (\<forall>(k, payload) \<in> set data. k < length cs \<and> payload = cs ! k) \<and>
     a_rxChan b = map (\<lambda>k. (of_nat k, cs ! k)) rx \<and> (\<forall>k \<in> set rx. k < length cs \<and> k < W + 32768)"

lemma linkComplete_room:
  "linkComplete cs r W acks a b \<Longrightarrow> windowsFit a b \<Longrightarrow> \<not> receiveOver b \<Longrightarrow> length cs \<le> W + 32768"
  by (auto simp: linkComplete_def windowsFit_def)

lemma linkComplete_receiver:
  assumes "linkComplete cs r W acks a b" "a_receiveWindowSize b' = a_receiveWindowSize b" "W \<le> W'"
    and "\<not> receiveOver b' \<Longrightarrow> \<not> receiveOver b \<and> (\<forall>k. got W b k \<longrightarrow> got W' b' k)"
  shows "linkComplete cs r W' acks a b'"
proof (cases "receiveOver b'")
  case False
  then have "\<not> receiveOver b" "\<And>k. got W b k \<Longrightarrow> got W' b' k" using assms(4) by blast+
  then show ?thesis using assms(1-3) False unfolding linkComplete_def by (simp; blast intro: order_trans)
qed (simp add: linkComplete_def)

lemma linkComplete_sender:
  assumes "linkComplete cs r W acks a b" "a_limit a' = a_limit a" "r' \<longrightarrow> r"
    and "\<not> sendOver a' \<Longrightarrow> \<not> sendOver a \<and> (\<forall>k < length cs. of_nat k \<in> fst ` set (sndData a) \<longrightarrow>
           length cs \<le> k + 65536 \<longrightarrow> \<not> receiveOver b \<longrightarrow> of_nat k \<in> fst ` set (sndData a') \<or> got W b k)"
  shows "linkComplete cs r' W acks a' b"
proof (cases "receiveOver b")
  case False
  have "length cs + (if r' then 1 else 0) \<le> W + nat (a_receiveWindowSize b) + nat (a_limit a) + 1"
    using assms(1,3) False by (auto simp: linkComplete_def split: if_splits)
  moreover have "got W b k \<or> length cs \<le> k + 65536 \<and> of_nat k \<in> fst ` set (sndData a')" if "\<not> sendOver a'" "k < length cs" for k
    using assms(1) assms(4) [OF that(1)] that(2) False unfolding linkComplete_def by blast
  ultimately show ?thesis using assms(1,2) False by (simp add: linkComplete_def)
qed (simp add: linkComplete_def)

lemma linkHistory_receiver: "linkHistory cs W data rx b \<Longrightarrow> a_rxChan b' = a_rxChan b \<Longrightarrow> W \<le> W' \<Longrightarrow> linkHistory cs W' data rx b'"
  by (fastforce simp: linkHistory_def)

lemma linkHistory_append: "linkHistory cs W data rx b \<Longrightarrow> linkHistory (cs @ [raw]) W data rx b"
  by (fastforce simp: linkHistory_def nth_append)

text \<open>The sender reads on only while the send buffer has room, so it is never too far ahead.\<close>

lemma linkComplete_reading:
  assumes "linkComplete cs r W acks a b" "int (length (sndData a)) < a_limit a" "\<not> sendOver a"
  shows "linkComplete cs True W acks a b"
proof (cases "receiveOver b")
  case False
  let ?lo = "Suc (W + nat (a_receiveWindowSize b))"
  have all: "\<forall>k < length cs. got W b k \<or> length cs \<le> k + 65536 \<and> of_nat k \<in> fst ` set (sndData a)"
    using assms False by (auto simp: linkComplete_def)
  have out: "length cs \<le> k + 65536 \<and> (of_nat k :: u16) \<in> fst ` set (sndData a)" if "k \<in> {?lo..<length cs}" for k
    using all that by (force simp: got_def)
  have "inj_on (of_nat :: nat \<Rightarrow> u16) {?lo..<length cs}"
  proof (rule inj_onI)
    fix i j assume ij: "i \<in> {?lo..<length cs}" "j \<in> {?lo..<length cs}" "(of_nat i :: u16) = of_nat j"
    then have "i < j + 65536" "j < i + 65536" using out [of i] out [of j] by auto
    then show "i = j" using of_nat_u16_inj [of i j] of_nat_u16_inj [of j i] ij(3) by (cases "i \<le> j") auto
  qed
  moreover have "(of_nat :: nat \<Rightarrow> u16) ` {?lo..<length cs} \<subseteq> fst ` set (sndData a)" using out by auto
  ultimately have "card {?lo..<length cs} \<le> card (fst ` set (sndData a))" by (metis card_inj_on_le finite_imageI List.finite_set)
  also have "\<dots> \<le> length (sndData a)" by (metis card_length length_map set_map)
  finally have "length cs + 1 \<le> W + nat (a_receiveWindowSize b) + nat (a_limit a) + 1" using assms(2) by simp
  then show ?thesis using assms False by (simp add: linkComplete_def)
qed (simp add: linkComplete_def)

locale arq_link =
  sender: packet_source EA qinvA queuedA takesA + receiver: packet_source EB qinvB queuedB takesB
  for EA :: "instant \<Rightarrow> 'p enqueuerOps" and qinvA queuedA takesA and EB :: "instant \<Rightarrow> 'q enqueuerOps" and qinvB queuedB takesB
begin

definition linkInv :: "('p, 'q) link \<Rightarrow> bool" where
  "linkInv s \<longleftrightarrow>
     sender.senderOk (lkChunks s) (lkReading s) (lkA s) \<and> receiver.receiverOk (lkChunks s) (lkTaken s) (lkB s) \<and>
     writerOk (lkChunks s) (lkTaken s) (lkWriter s) (lkB s) \<and> windowsFit (lkA s) (lkB s) \<and>
     linkHistory (lkChunks s) (lkTaken s) (lkData s) (lkRx s) (lkB s) \<and>
     linkComplete (lkChunks s) (lkReading s) (lkTaken s) (lkAcks s) (lkA s) (lkB s)"

lemma linkInvD:
  assumes "linkInv s"
  shows "sender.senderOk (lkChunks s) (lkReading s) (lkA s)" "receiver.receiverOk (lkChunks s) (lkTaken s) (lkB s)"
    "writerOk (lkChunks s) (lkTaken s) (lkWriter s) (lkB s)" "windowsFit (lkA s) (lkB s)"
    "linkHistory (lkChunks s) (lkTaken s) (lkData s) (lkRx s) (lkB s)"
    "linkComplete (lkChunks s) (lkReading s) (lkTaken s) (lkAcks s) (lkA s) (lkB s)"
    "\<not> receiveOver (lkB s) \<Longrightarrow> length (lkChunks s) \<le> lkTaken s + 32768"
  using assms linkComplete_room by (auto simp: linkInv_def)

text \<open>Steps of the sender alone.\<close>

lemma linkInv_sendKept:
  assumes inv: "linkInv s" and kept: "sender.sendKept (lkA s) a" and data: "\<forall>(k, payload) \<in> set data. k < length (lkChunks s) \<and> payload = lkChunks s ! k"
  shows "linkInv (s\<lparr>lkA := a, lkData := data\<rparr>)"
proof -
  note D = linkInvD [OF inv]
  have lim: "a_limit a = a_limit (lkA s)" using kept by (simp add: sender.sendKept_def)
  have "linkComplete (lkChunks s) (lkReading s) (lkTaken s) (lkAcks s) a (lkB s)"
    using D(6) lim by (rule linkComplete_sender) (use kept in \<open>auto simp: sender.sendKept_def keptOrDropped_def\<close>)
  then show ?thesis
    using D sender.senderOk_kept [OF D(1) kept] data lim by (simp add: linkInv_def windowsFit_def linkHistory_def)
qed

lemma linkInv_sendKept_plain: "linkInv s \<Longrightarrow> sender.sendKept (lkA s) a \<Longrightarrow> linkInv (s\<lparr>lkA := a\<rparr>)"
  using linkInv_sendKept [of s a "lkData s"] by (auto simp: linkInv_def linkHistory_def)

text \<open>Steps of the receiver that leave the stream position alone.\<close>

lemma linkInv_receiver:
  assumes inv: "linkInv s" and ok: "receiver.receiverOk (lkChunks s) (lkTaken s) b" and mono: "recvMono (lkB s) b"
    and acks: "\<not> receiveOver b \<Longrightarrow> \<forall>k \<in> set acks. k < length (lkChunks s) \<and> got (lkTaken s) (lkB s) k"
  shows "linkInv (s\<lparr>lkB := b, lkAcks := acks\<rparr>)"
proof -
  note D = linkInvD [OF inv]
  have "linkComplete (lkChunks s) (lkReading s) (lkTaken s) (lkAcks s) (lkA s) b"
    using D(6) by (rule linkComplete_receiver) (use mono recvMono_got [OF mono] in \<open>auto simp: recvMono_def\<close>)
  then have "linkComplete (lkChunks s) (lkReading s) (lkTaken s) acks (lkA s) b"
    using acks recvMono_got [OF mono] by (auto simp: linkComplete_def)
  moreover have "linkHistory (lkChunks s) (lkTaken s) (lkData s) (lkRx s) b"
    using D(5) by (rule linkHistory_receiver) (use mono in \<open>simp_all add: recvMono_def\<close>)
  ultimately show ?thesis
    using D ok writerOk_recvMono [OF mono] mono by (simp add: linkInv_def windowsFit_def recvMono_def)
qed

lemma linkInv_receiveKept:
  assumes "linkInv s" "receiver.receiveKept (lkB s) b"
    and "\<not> receiveOver b \<Longrightarrow> \<forall>k \<in> set acks. k < length (lkChunks s) \<and> got (lkTaken s) (lkB s) k"
  shows "linkInv (s\<lparr>lkB := b, lkAcks := acks\<rparr>)"
  using assms(1) receiver.receiverOk_kept [OF linkInvD(2) [OF assms(1)] assms(2) linkInvD(7) [OF assms(1)]]
    receiver.receiveKept_recvMono [OF assms(2)] assms(3)
  by (rule linkInv_receiver)

lemma linkInv_receiveKept_plain: "linkInv s \<Longrightarrow> receiver.receiveKept (lkB s) b \<Longrightarrow> linkInv (s\<lparr>lkB := b\<rparr>)"
  using linkInv_receiveKept [of s b "lkAcks s"] linkInvD(6) [of s]
  by (auto simp: linkComplete_def receiver.receiveKept_def keptOrDropped_def)

lemma linkInv_control_A: "linkInv s \<Longrightarrow> controlStep EA (lkA s) a \<Longrightarrow> linkInv (s\<lparr>lkA := a\<rparr>)"
  by (intro linkInv_sendKept_plain sender.framed_sendKept sender.controlStep_framed)
    (auto simp: linkInv_def sender.senderOk_def)

lemma linkInv_control_B: "linkInv s \<Longrightarrow> controlStep EB (lkB s) b \<Longrightarrow> linkInv (s\<lparr>lkB := b\<rparr>)"
  by (intro linkInv_receiveKept_plain receiver.framed_receiveKept receiver.controlStep_framed)
    (auto simp: linkInv_def receiver.receiverOk_def)

lemma linkInv_transmit:
  assumes inv: "linkInv s" and takes: "takesA (a_enqueuer (lkA s)) (t, sn, payload) q"
  shows "linkInv (s\<lparr>lkA := NoteTXPacketDequeued now t sn f ((lkA s)\<lparr>a_enqueuer := q\<rparr>),
    lkData := (if isDataType t then (lastIndex sn (length (lkChunks s)), payload) # lkData s else lkData s)\<rparr>)"
proof (rule linkInv_sendKept [OF inv])
  have q: "qinvA (a_enqueuer (lkA s))" using inv by (simp add: linkInv_def sender.senderOk_def)
  show "sender.sendKept (lkA s) (NoteTXPacketDequeued now t sn f ((lkA s)\<lparr>a_enqueuer := q\<rparr>))"
    using takes q by (rule sender.takes_kept)
  have "isDataType t \<Longrightarrow> \<exists>k. current (length (lkChunks s)) k sn \<and> payload = lkChunks s ! k"
    using sender.takes_queued [OF takes q] inv by (auto simp: linkInv_def sender.senderOk_def)
  then show "\<forall>(k, payload) \<in> set (if isDataType t then (lastIndex sn (length (lkChunks s)), payload) # lkData s else lkData s).
      k < length (lkChunks s) \<and> payload = lkChunks s ! k"
    using linkInvD(5) [OF inv] by (auto simp: linkHistory_def lastIndex_current current_def)
qed

lemma linkInv_acknowledge:
  assumes inv: "linkInv s" and takes: "takesB (a_enqueuer (lkB s)) (t, sn, payload) q"
  shows "linkInv (s\<lparr>lkB := NoteTXPacketDequeued now t sn f ((lkB s)\<lparr>a_enqueuer := q\<rparr>),
    lkAcks := (if t = PACKET_STREAM_DATA_ACK then lastIndex sn (length (lkChunks s)) # lkAcks s else lkAcks s)\<rparr>)"
proof (rule linkInv_receiveKept [OF inv])
  have q: "qinvB (a_enqueuer (lkB s))" using inv by (simp add: linkInv_def receiver.receiverOk_def)
  show kept: "receiver.receiveKept (lkB s) (NoteTXPacketDequeued now t sn f ((lkB s)\<lparr>a_enqueuer := q\<rparr>))"
    using takes q by (rule receiver.takes_kept)
  assume "\<not> receiveOver (NoteTXPacketDequeued now t sn f ((lkB s)\<lparr>a_enqueuer := q\<rparr>))"
  then have alive: "\<not> receiveOver (lkB s)" using kept by (auto simp: receiver.receiveKept_def keptOrDropped_def)
  have "lastIndex sn (length (lkChunks s)) < length (lkChunks s) \<and> got (lkTaken s) (lkB s) (lastIndex sn (length (lkChunks s)))"
    if "t = PACKET_STREAM_DATA_ACK"
  proof -
    obtain k where "current (length (lkChunks s)) k sn" "got (lkTaken s) (lkB s) k"
      using receiver.takes_queued [OF takes q] inv alive \<open>t = PACKET_STREAM_DATA_ACK\<close> unfolding linkInv_def receiver.receiverOk_def by blast
    then show ?thesis using lastIndex_current current_less by metis
  qed
  then show "\<forall>k \<in> set (if t = PACKET_STREAM_DATA_ACK then lastIndex sn (length (lkChunks s)) # lkAcks s else lkAcks s).
      k < length (lkChunks s) \<and> got (lkTaken s) (lkB s) k"
    using linkInvD(6) [OF inv] alive by (auto simp: linkComplete_def)
qed

end

context arq_link
begin

lemma linkInv_read_starts:
  assumes inv: "linkInv s" and check: "ioLoopCheck (lkA s) = IoRead"
  shows "linkInv (s\<lparr>lkReading := True\<rparr>)"
proof -
  note D = linkInvD [OF inv]
  have free: "\<not> a_closed (lkA s)" "\<not> a_stopLocalRead (lkA s)"
    using check by (auto simp: ioLoopCheck_def split: if_splits)
  then have alive: "\<not> sendOver (lkA s)" using D(1) by (auto simp: sender.senderOk_def)
  show ?thesis
  proof (cases "lkReading s")
    case True
    then show ?thesis using inv by (simp add: linkInv_def)
  next
    case False
    have "int (length (sndData (lkA s))) < a_limit (lkA s)"
      using check False D(1) by (auto simp: ioLoopCheck_def sndData_def split: if_splits)
    then show ?thesis
      using D linkComplete_reading [OF D(6) _ alive] by (auto simp: linkInv_def sender.senderOk_def)
  qed
qed

lemma linkInv_read_returns:
  assumes inv: "linkInv s" and "lkReading s" "raw \<noteq> []" and free: "numberFree queuedA queuedB s"
  shows "linkInv (s\<lparr>lkReading := False, lkA := snd (snd (ioLoopRead (EA now) now raw err since (lkA s))), lkChunks := lkChunks s @ [raw]\<rparr>)"
proof -
  note D = linkInvD [OF inv]
  let ?a = "snd (snd (ioLoopRead (EA now) now raw err since (lkA s)))"
  let ?cs = "lkChunks s @ [raw]"
  have nx: "a_sndNxt (lkA s) = of_nat (length (lkChunks s))" using D(1) by (simp add: sender.senderOk_def)
  have snd: "sender.senderOk ?cs False ?a" "\<not> sendOver ?a \<Longrightarrow> \<not> sendOver (lkA s) \<and> sndData ?a = sndData (lkA s) @ [(a_sndNxt (lkA s), raw)]"
    using sender.senderOk_read [of "lkChunks s" "lkA s" raw ?a now now err since] D(1) assms(2,3) free by (auto simp: numberFree_def Let_def)
  have lim: "a_limit ?a = a_limit (lkA s)"
  proof -
    obtain item where "sender.framed ((lkA s)\<lparr>a_sndNxt := a_sndNxt (lkA s) + 1, a_sndBuf := mput (a_sndBuf (lkA s)) (a_sndNxt (lkA s)) item\<rparr>) (sendChunk (EA now) now raw (lkA s))"
      using sender.sendChunk_framed by blast
    then have "a_limit (sendChunk (EA now) now raw (lkA s)) = a_limit (lkA s)" by (auto simp: sender.framed_def keeps_def fixedPart_def)
    moreover have "a_limit ?a = a_limit (sendChunk (EA now) now raw (lkA s))"
      using sender.ioLoopRead_framed [OF assms(3), of now now "lkA s" err since] by (auto simp: sender.framed_def keeps_def fixedPart_def)
    ultimately show ?thesis by simp
  qed
  have "receiver.receiverOk ?cs (lkTaken s) (lkB s)"
  proof -
    have "\<exists>k. current (length ?cs) k sn \<and> got (lkTaken s) (lkB s) k"
      if ack: "\<not> receiveOver (lkB s)" "(PACKET_STREAM_DATA_ACK, sn, payload) \<in> queuedB (a_enqueuer (lkB s))" for sn payload
    proof -
      obtain k where k: "current (length (lkChunks s)) k sn" "got (lkTaken s) (lkB s) k"
        using D(2) ack unfolding receiver.receiverOk_def by blast
      moreover have "sn \<noteq> of_nat (length (lkChunks s))" using free ack nx by (auto simp: numberFree_def Let_def)
      ultimately show ?thesis using current_Suc by auto
    qed
    moreover have "buffered ?cs (lkTaken s) (lkTaken s + nat (a_receiveWindowSize (lkB s))) (a_rcvBuf (lkB s))"
      using D(2) by (intro buffered_mono) (auto simp: receiver.receiverOk_def)
    ultimately show ?thesis using D(2) by (auto simp: receiver.receiverOk_def)
  qed
  moreover have "linkComplete ?cs False (lkTaken s) (lkAcks s) ?a (lkB s)"
  proof (cases "receiveOver (lkB s)")
    case False
    have "got (lkTaken s) (lkB s) k \<or> length ?cs \<le> k + 65536 \<and> of_nat k \<in> fst ` set (sndData ?a)"
      if over: "\<not> sendOver ?a" and k: "k < length ?cs" for k
    proof (cases "k = length (lkChunks s)")
      case True
      then show ?thesis using snd(2) [OF over] nx by simp
    next
      case neq: False
      then have "got (lkTaken s) (lkB s) k \<or> length (lkChunks s) \<le> k + 65536 \<and> of_nat k \<in> fst ` set (sndData (lkA s))"
        using D(6) False snd(2) [OF over] k by (auto simp: linkComplete_def)
      then show ?thesis
      proof
        assume old: "length (lkChunks s) \<le> k + 65536 \<and> of_nat k \<in> fst ` set (sndData (lkA s))"
        then have "current (length (lkChunks s)) k (of_nat k)" using neq k by (simp add: current_def)
        moreover have "(of_nat k :: u16) \<noteq> of_nat (length (lkChunks s))" using old free nx by (metis numberFree_def)
        ultimately have "length ?cs \<le> k + 65536" using current_Suc by (auto simp: current_def)
        then show ?thesis using old snd(2) [OF over] by auto
      qed simp
    qed
    then show ?thesis
      using D(6) False assms(2) lim by (auto simp: linkComplete_def less_Suc_eq)
  qed (simp add: linkComplete_def)
  moreover have "writerOk ?cs (lkTaken s) (lkWriter s) (lkB s)"
    using D(2,3) by (auto simp: writerOk_def receiver.receiverOk_def split: writerPc.splits)
  ultimately show ?thesis
    using D snd(1) lim linkHistory_append [OF D(5)] by (simp add: linkInv_def windowsFit_def)
qed

end

context arq_link
begin

lemma linkInv_read_fails:
  assumes inv: "linkInv s"
  shows "linkInv (s\<lparr>lkReading := False, lkA := snd (snd (ioLoopRead (EA now) now [] err since (lkA s)))\<rparr>)"
proof -
  note D = linkInvD [OF inv]
  have "linkInv (s\<lparr>lkReading := False\<rparr>)"
    using D linkComplete_sender [OF D(6), of "lkA s" False] by (auto simp: linkInv_def sender.senderOk_def split: if_splits)
  then have "linkInv ((s\<lparr>lkReading := False\<rparr>)\<lparr>lkA := snd (snd (ioLoopRead (EA now) now [] err since (lkA s)))\<rparr>)"
    by (rule linkInv_sendKept_plain) (simp add: sender.framed_sendKept sender.framed_ioLoopRead_idle)
  then show ?thesis by simp
qed

lemma linkInv_deliver:
  assumes inv: "linkInv s" and pkt: "(k, payload) \<in> set (lkData s)" and step: "ReceiveData (EB now) now (of_nat k) payload (lkB s) = (ok, b)"
  shows "linkInv (s\<lparr>lkB := b, lkRx := (if ok then lkRx s @ [k] else lkRx s)\<rparr>)"
proof -
  note D = linkInvD [OF inv]
  have k: "k < length (lkChunks s)" "payload = lkChunks s ! k" using D(5) pkt by (auto simp: linkHistory_def)
  show ?thesis
  proof (cases ok)
    case True
    then have alive: "\<not> receiveOver (lkB s)"
      and b: "b = (lkB s)\<lparr>a_pendingInbound := a_pendingInbound (lkB s) + 1, a_rxChan := a_rxChan (lkB s) @ [(of_nat k, payload)]\<rparr>"
      using step by (auto simp: ReceiveData_def receiveOver_def split: if_splits)
    have "linkHistory (lkChunks s) (lkTaken s) (lkData s) (lkRx s @ [k]) b"
      using D(5) D(7) [OF alive] k by (auto simp: linkHistory_def b)
    moreover have "writerOk (lkChunks s) (lkTaken s) (lkWriter s) b" using D(3) writerOk_conn [of b "lkB s"] by (simp add: b)
    moreover have "linkComplete (lkChunks s) (lkReading s) (lkTaken s) (lkAcks s) (lkA s) b"
      using D(6) by (simp add: b linkComplete_def receiveOver_def got_def)
    ultimately show ?thesis using D True by (simp add: linkInv_def windowsFit_def b)
  next
    case False
    have "receiver.framed (lkB s) b"
      using step False by (auto simp: ReceiveData_def receiver.framed_closeWriteAfterBreak split: if_splits)
    then show ?thesis using False linkInv_receiveKept_plain [OF inv] receiver.framed_receiveKept by simp
  qed
qed

lemma linkInv_process:
  assumes inv: "linkInv s" and ne: "a_rxChan (lkB s) \<noteq> []" and fresh: "lkTaken s \<le> hd (lkRx s) + 32768"
  shows "linkInv (s\<lparr>lkB := rxLoopReceive (EB now) now (lkB s), lkRx := tl (lkRx s)\<rparr>)"
proof -
  note D = linkInvD [OF inv]
  obtain k rx where rx: "lkRx s = k # rx" using D(5) ne by (cases "lkRx s") (auto simp: linkHistory_def)
  define b where "b = (lkB s)\<lparr>a_rxChan := map (\<lambda>k. (of_nat k, lkChunks s ! k)) rx\<rparr>"
  have k: "k < length (lkChunks s)" "k < lkTaken s + 32768" "lkTaken s \<le> k + 32768"
    and eq: "rxLoopReceive (EB now) now (lkB s) = processReceivedData (EB now) now (of_nat k) (lkChunks s ! k) b"
    using D(5) fresh rx by (auto simp: linkHistory_def rxLoopReceive_def b_def)
  have b: "receiver.receiverOk (lkChunks s) (lkTaken s) b" "nat (a_receiveWindowSize b) < 32768"
    "\<not> receiveOver b \<Longrightarrow> length (lkChunks s) \<le> lkTaken s + 32768"
    using D(2,4,7) by (auto simp: b_def windowsFit_def receiveOver_def)
  have inv1: "linkInv (s\<lparr>lkB := b, lkRx := rx\<rparr>)"
  proof -
    have "linkHistory (lkChunks s) (lkTaken s) (lkData s) rx b" using D(5) rx by (auto simp: linkHistory_def b_def)
    moreover have "writerOk (lkChunks s) (lkTaken s) (lkWriter s) b" using D(3) writerOk_conn [of b "lkB s"] by (simp add: b_def)
    moreover have "linkComplete (lkChunks s) (lkReading s) (lkTaken s) (lkAcks s) (lkA s) b"
      using D(6) by (simp add: b_def linkComplete_def receiveOver_def got_def)
    ultimately show ?thesis using D b by (simp add: linkInv_def windowsFit_def b_def)
  qed
  have r: "receiver.receiverOk (lkChunks s) (lkTaken s) (rxLoopReceive (EB now) now (lkB s))" "recvMono b (rxLoopReceive (EB now) now (lkB s))"
    using receiver.processReceivedData_ok [OF b(1) k b(2,3)] by (simp_all add: eq)
  have "linkInv ((s\<lparr>lkB := b, lkRx := rx\<rparr>)\<lparr>lkB := rxLoopReceive (EB now) now (lkB s), lkAcks := lkAcks s\<rparr>)"
    using inv1 by (rule linkInv_receiver)
      (use r linkInvD(6) [OF inv1] in \<open>auto simp: linkComplete_def recvMono_def\<close>)
  then show ?thesis by (simp add: rx linkInv_def)
qed

lemma linkInv_discard:
  assumes inv: "linkInv s" and "a_ctxDone (lkB s)"
  shows "linkInv (s\<lparr>lkB := rxLoopDrain (lkB s), lkRx := []\<rparr>)"
proof -
  note D = linkInvD [OF inv]
  let ?b = "rxLoopDrain (lkB s)"
  have eq: "a_rxChan ?b = []" "receiver.receiverOk (lkChunks s) (lkTaken s) ?b" "written ?b = written (lkB s)"
    "a_localConn ?b = a_localConn (lkB s)" "receiveOver ?b = receiveOver (lkB s)" "a_rcvBuf ?b = a_rcvBuf (lkB s)"
    "a_receiveWindowSize ?b = a_receiveWindowSize (lkB s)"
    using assms(2) D(2) by (auto simp: rxLoopDrain_def written_def receiveOver_def)
  then show ?thesis
    using D writerOk_conn [OF eq(4)] by (simp add: linkInv_def windowsFit_def linkHistory_def linkComplete_def got_def)
qed

lemma linkInv_collect:
  assumes inv: "linkInv s" and pc: "lkWriter s = Collecting" and step: "writeLoopCollect (EB now) now (lkB s) = (pc, b)"
  shows "linkInv (s\<lparr>lkB := b, lkWriter := pc, lkTaken := lkTaken s + collected (lkB s)\<rparr>)"
proof -
  note D = linkInvD [OF inv]
  let ?W = "lkTaken s + collected (lkB s)"
  have win: "nat (a_receiveWindowSize (lkB s)) < 32768" using D(4) by (auto simp: windowsFit_def)
  note r = receiver.writeLoopCollect_ok [OF D(2) D(3) [unfolded pc] win D(7) step]
  have "linkComplete (lkChunks s) (lkReading s) ?W (lkAcks s) (lkA s) b"
    using D(6) by (rule linkComplete_receiver) (use r in auto)
  moreover have "linkHistory (lkChunks s) ?W (lkData s) (lkRx s) b"
    using D(5) by (rule linkHistory_receiver) (use r in auto)
  ultimately show ?thesis using D r by (simp add: linkInv_def windowsFit_def)
qed

lemma linkInv_written:
  assumes inv: "linkInv s" and pc: "lkWriter s = Writing remaining retries"
    and step: "writeLoopWrite (EB now) now n err remaining retries (lkB s) = (pc, b)"
  shows "linkInv (s\<lparr>lkB := b, lkWriter := pc\<rparr>)"
proof -
  note D = linkInvD [OF inv]
  note w = receiver.writeLoopWrite_ok [OF D(3) [unfolded pc] step]
  obtain c where c: "receiver.framed ((lkB s)\<lparr>a_localConn := c\<rparr>) b" using w(2) by blast
  let ?b = "(lkB s)\<lparr>a_localConn := c\<rparr>"
  have "receiver.receiverOk (lkChunks s) (lkTaken s) ?b" using D(2) by simp
  note r = receiver.receiverOk_framed [OF this c]
  have over: "receiveOver ?b = receiveOver (lkB s)" "got (lkTaken s) ?b = got (lkTaken s) (lkB s)" by (simp_all add: receiveOver_def got_def fun_eq_iff)
  have "linkComplete (lkChunks s) (lkReading s) (lkTaken s) (lkAcks s) (lkA s) b"
    using D(6) by (rule linkComplete_receiver)
      (use r(2) recvMono_got [OF r(2)] D(7) over in \<open>auto simp: recvMono_def\<close>)
  moreover have "linkHistory (lkChunks s) (lkTaken s) (lkData s) (lkRx s) b"
    using D(5) by (rule linkHistory_receiver) (use r(2) D(7) over in \<open>auto simp: recvMono_def\<close>)
  ultimately show ?thesis using D r w(1) over by (auto simp: linkInv_def windowsFit_def recvMono_def)
qed

lemma linkInv_woken:
  assumes inv: "linkInv s" and pc: "lkWriter s = WaitFlush" and step: "writeLoopWake (lkB s) = (pc, b)"
  shows "linkInv (s\<lparr>lkB := b, lkWriter := pc\<rparr>)"
proof -
  have "receiver.framed (lkB s) b" using receiver.framed_writeLoopWake [OF receiver.framed_refl, of "lkB s"] step by simp
  then have i: "linkInv (s\<lparr>lkB := b\<rparr>)" by (intro linkInv_receiveKept_plain inv receiver.framed_receiveKept)
  have "pc = Collecting \<or> pc = WriterDone \<or> pc = WaitFlush" using step by (auto simp: writeLoopWake_def split: if_splits)
  then have "writerOk (lkChunks s) (lkTaken s) pc b" using linkInvD(3) [OF i] pc by (auto simp: writerOk_done)
  then show ?thesis using i by (simp add: linkInv_def)
qed

lemma linkInv_connect:
  assumes inv: "linkInv s" and fresh: "connWritten conn = []"
  shows "linkInv (s\<lparr>lkB := SetLocalConn conn (lkB s)\<rparr>)"
proof (cases "a_localConn (lkB s)")
  case None
  note D = linkInvD [OF inv]
  let ?b = "(lkB s)\<lparr>a_localConn := Some conn\<rparr>"
  have pos: "lkTaken s = 0" "written (lkB s) = []" using D(3) None by (simp_all add: writerOk_def written_def)
  have "writerOk (lkChunks s) (lkTaken s) (lkWriter s) ?b"
    using D(3) pos fresh None by (auto simp: writerOk_def written_def split: writerPc.splits)
  moreover have "linkComplete (lkChunks s) (lkReading s) (lkTaken s) (lkAcks s) (lkA s) ?b"
    using D(6) by (simp add: linkComplete_def receiveOver_def got_def)
  ultimately have "linkInv (s\<lparr>lkB := ?b\<rparr>)" using D by (simp add: linkInv_def windowsFit_def linkHistory_def)
  moreover have "receiver.framed ?b (SetLocalConn conn (lkB s))"
    using None by (simp add: SetLocalConn_def Let_def receiver.framed_workers)
  ultimately show ?thesis
    using linkInv_receiveKept_plain [of "s\<lparr>lkB := ?b\<rparr>" "SetLocalConn conn (lkB s)"] receiver.framed_receiveKept by simp
next
  case (Some c)
  then show ?thesis using inv by (simp add: SetLocalConn_def)
qed

lemma linkInv_deliver_ack:
  assumes inv: "linkInv s" and k: "k \<in> set (lkAcks s)" "length (lkChunks s) \<le> k + 65536"
  shows "linkInv (s\<lparr>lkA := snd (ReceiveAck (EA now) now (of_nat k) (lkA s))\<rparr>)"
proof -
  note D = linkInvD [OF inv]
  let ?a = "snd (ReceiveAck (EA now) now (of_nat k) (lkA s))"
  note ack = sender.senderOk_ack [OF D(1), of now now "of_nat k"]
  have lim: "a_limit ?a = a_limit (lkA s)"
  proof (cases "mget (a_sndBuf (lkA s)) (of_nat k)")
    case (Some info)
    then show ?thesis using sender.ReceiveAck_framed [OF Some, of now now] by (auto simp: sender.framed_def keeps_def fixedPart_def)
  qed (simp add: ReceiveAck_def)
  have "linkComplete (lkChunks s) (lkReading s) (lkTaken s) (lkAcks s) ?a (lkB s)"
    using D(6) lim
  proof (rule linkComplete_sender)
    assume "\<not> sendOver ?a"
    note f = ack(2) [OF this]
    have "of_nat j \<in> fst ` set (sndData ?a) \<or> got (lkTaken s) (lkB s) j"
      if "j < length (lkChunks s)" "(of_nat j :: u16) \<in> fst ` set (sndData (lkA s))" "length (lkChunks s) \<le> j + 65536" "\<not> receiveOver (lkB s)" for j
    proof (cases "(of_nat j :: u16) = of_nat k")
      case True
      have "k < length (lkChunks s)" "got (lkTaken s) (lkB s) k" using D(6) k that(4) by (auto simp: linkComplete_def)
      moreover from this have "j = k" using current_unique [of "length (lkChunks s)" j "of_nat k" k] that k(2) True by (simp add: current_def)
      ultimately show ?thesis by simp
    next
      case False
      then show ?thesis using f that(2) by force
    qed
    then show "\<not> sendOver (lkA s) \<and> (\<forall>k < length (lkChunks s). of_nat k \<in> fst ` set (sndData (lkA s)) \<longrightarrow>
        length (lkChunks s) \<le> k + 65536 \<longrightarrow> \<not> receiveOver (lkB s) \<longrightarrow> of_nat k \<in> fst ` set (sndData ?a) \<or> got (lkTaken s) (lkB s) k)"
      using f by blast
  qed simp
  then show ?thesis using D ack(1) lim by (simp add: linkInv_def windowsFit_def)
qed

lemma linkInv_step: "linkStep EA queuedA takesA EB queuedB takesB s t \<Longrightarrow> linkInv s \<Longrightarrow> linkInv t"
  by (induction rule: linkStep.induct)
    (simp_all add: linkInv_read_starts linkInv_read_returns linkInv_read_fails linkInv_transmit linkInv_deliver linkInv_process
      linkInv_discard linkInv_collect linkInv_written linkInv_woken linkInv_connect linkInv_acknowledge linkInv_deliver_ack
      linkInv_control_A linkInv_control_B linkInv_sendKept_plain sender.receiveStep_sendKept
      linkInv_receiveKept_plain receiver.sendStep_receiveKept)

end

section \<open>Reliable delivery\<close>

lemma bitLength_le: "p < 2 ^ n \<Longrightarrow> bitLength p \<le> n"
proof (induction n arbitrary: p)
  case (Suc n)
  then have "p div 2 < 2 ^ n" by (simp add: less_mult_imp_div_less)
  then show ?case using Suc.IH [of "p div 2"] by (simp add: bitLength.simps [of p])
qed (simp add: bitLength.simps)

lemma roundFloat64_le: "roundFloat64 p \<le> 2 * p"
proof (cases "bitLength p \<le> 53")
  case False
  let ?s = "bitLength p - 53"
  have "2 ^ ?s \<le> p" using bitLength_le [of p ?s] False by (cases "p < 2 ^ ?s") simp_all
  then have "1 \<le> p div 2 ^ ?s" by (simp add: Suc_le_eq div_greater_zero_iff)
  then have "p div 2 ^ ?s + 1 \<le> 2 * (p div 2 ^ ?s)" by simp
  then have "(p div 2 ^ ?s + 1) * 2 ^ ?s \<le> 2 * (p div 2 ^ ?s * 2 ^ ?s)" by (metis mult.assoc mult_le_mono1)
  also have "\<dots> \<le> 2 * p" by simp
  finally have up: "(p div 2 ^ ?s + 1) * 2 ^ ?s \<le> 2 * p" .
  moreover have "p div 2 ^ ?s * 2 ^ ?s \<le> 2 * p" using div_times_less_eq_dividend [of p "2 ^ ?s"] by linarith
  ultimately show ?thesis using False by (simp add: roundFloat64_def Let_def)
qed (simp add: roundFloat64_def)

lemma eightTenths_le: "0 \<le> w \<Longrightarrow> w \<le> 8000 \<Longrightarrow> eightTenths w \<le> 12800"
proof -
  assume w: "0 \<le> w" "w \<le> 8000"
  have "bitLength (nat w) \<le> 13" using w by (intro bitLength_le) simp
  then have small: "roundFloat64 (nat w) = nat w" using w by (simp add: roundFloat64_def)
  have "roundFloat64 (nat w * 3602879701896397) div 2 ^ 52 \<le> (2 * (nat w * 3602879701896397)) div 2 ^ 52"
    using roundFloat64_le by (rule div_le_mono)
  also have "\<dots> \<le> (2 * (8000 * 3602879701896397)) div 2 ^ 52"
    using w by (intro div_le_mono mult_le_mono) simp_all
  also have "\<dots> \<le> 12800" by simp
  finally have "int (roundFloat64 (nat w * 3602879701896397) div 2 ^ 52) \<le> 12800" by linarith
  then show ?thesis using w by (cases "w = 0") (simp_all add: eightTenths_def scaleFloat64_def small)
qed

lemma windowsFit_New:
  assumes "cf_WindowSize cfgA \<le> 8000" "cf_WindowSize cfgB \<le> 8000"
  shows "windowsFit (NewARQ i1 s1 qA cA m1 cfgA t1) (NewARQ i2 s2 qB cB m2 cfgB t2)"
proof -
  have "eightTenths (max (cf_WindowSize cfgA) 300) \<le> 12800" using assms(1) by (intro eightTenths_le) simp_all
  then have "nat (max (eightTenths (max (cf_WindowSize cfgA) 300)) 50) \<le> 12800" by simp
  moreover have "nat (max (max (cf_WindowSize cfgB) 300) (max (cf_WindowSize cfgB) 300 * 2)) \<le> 16000" using assms(2) by simp
  ultimately show ?thesis by (simp add: windowsFit_def NewARQ_def Let_def)
qed

context arq_link
begin

lemma linkInv_initial:
  assumes "linkInitial qA qB s" "qinvA qA" "queuedA qA = {}" "qinvB qB" "queuedB qB = {}"
  shows "linkInv s"
proof -
  obtain streamID sessionID connA mtuA cfgA tA connB mtuB cfgB tB where
    s: "s = linkStart (NewARQ streamID sessionID qA connA mtuA cfgA tA) (NewARQ streamID sessionID qB connB mtuB cfgB tB)"
    and cfg: "\<not> cf_IsVirtual cfgA" "\<not> cf_IsVirtual cfgB" "\<forall>c. connB = Some c \<longrightarrow> connWritten c = []"
      "cf_WindowSize cfgA \<le> 8000" "cf_WindowSize cfgB \<le> 8000"
    using assms(1) by (auto simp: linkInitial_def)
  let ?a = "NewARQ streamID sessionID qA connA mtuA cfgA tA" and ?b = "NewARQ streamID sessionID qB connB mtuB cfgB tB"
  have "sender.senderOk [] False ?a"
    using assms cfg by (simp add: sender.senderOk_def NewARQ_def Let_def controlsOnly_def sndData_def sendOver_def le_max_iff_disj)
  moreover have "receiver.receiverOk [] 0 ?b"
    using assms cfg by (simp add: receiver.receiverOk_def NewARQ_def Let_def controlsOnly_def gomap_wf_def buffered_def)
  moreover have "writerOk [] 0 WaitFlush ?b"
    using cfg(3) by (simp add: writerOk_def NewARQ_def Let_def written_def split: option.split)
  moreover have "linkHistory [] 0 [] [] ?b" "linkComplete [] False 0 [] ?a ?b"
    by (simp_all add: linkHistory_def linkComplete_def NewARQ_def Let_def)
  ultimately show ?thesis using windowsFit_New [OF cfg(4,5)] by (simp add: linkInv_def s linkStart_def)
qed

lemma linkInv_reachable:
  assumes "linkReachable EA queuedA takesA EB queuedB takesB qA qB s" "qinvA qA" "queuedA qA = {}" "qinvB qB" "queuedB qB = {}"
  shows "linkInv s"
  using assms(1) by (induction rule: linkReachable.induct) (use assms(2-) in \<open>auto intro: linkInv_initial linkInv_step\<close>)

text \<open>What reached the local connection is a prefix of what the sender read.\<close>

lemma delivered_prefix:
  assumes "linkInv s"
  shows "prefix (written (lkB s)) (concat (lkChunks s))"
proof -
  have "prefix (written (lkB s)) (concat (take (lkTaken s) (lkChunks s)))"
    using linkInvD(3) [OF assms] by (auto simp: writerOk_def prefix_def split: writerPc.splits) metis
  moreover have "concat (lkChunks s) = concat (take (lkTaken s) (lkChunks s)) @ concat (drop (lkTaken s) (lkChunks s))"
    by (metis append_take_drop_id concat_append)
  ultimately show ?thesis by (metis prefix_order.trans prefixI)
qed

text \<open>An empty send buffer means that everything was delivered.\<close>

lemma drained_delivered:
  assumes inv: "linkInv s" and idle: "a_sndBuf (lkA s) = []" "\<not> sendOver (lkA s)" "\<not> receiveOver (lkB s)"
    and writer: "lkWriter s = WaitFlush \<or> lkWriter s = Collecting" "mget (a_rcvBuf (lkB s)) (a_rcvNxt (lkB s)) = None"
  shows "written (lkB s) = concat (lkChunks s)"
proof -
  note D = linkInvD [OF inv]
  have all: "\<forall>k < length (lkChunks s). got (lkTaken s) (lkB s) k"
    using D(6) idle by (auto simp: linkComplete_def sndData_def)
  have "length (lkChunks s) \<le> lkTaken s"
  proof (rule ccontr)
    assume "\<not> length (lkChunks s) \<le> lkTaken s"
    then have "got (lkTaken s) (lkB s) (lkTaken s)" using all by simp
    then show False using writer(2) D(2) by (simp add: got_def receiver.receiverOk_def)
  qed
  moreover have "written (lkB s) = concat (take (lkTaken s) (lkChunks s))" using D(3) writer(1) by (auto simp: writerOk_def)
  ultimately show ?thesis by simp
qed

end

end
