(* ===== verification/Tx_Queue.thy ===== *)
theory Tx_Queue
  imports Arq_Link Mlq Vpn_Proto
begin

text \<open>
  The stream objects that own a transmit queue: \<open>Stream_server\<close> (\<open>udpserver/stream_server.go\<close>) and
  \<open>Stream_client\<close> (\<open>client/stream_client.go\<close>). Both implement the packet queue that the reliable
  transport pushes into: a multi-level queue keyed by packet identity, in which a chunk of data is
  queued once, as \<open>DATA\<close> or as \<open>RESEND\<close>. The contract \<open>packet_queue\<close> states what the transport relies on.
\<close>

section \<open>Packets\<close>

record streamTXPacket =
  tx_PacketType :: u8
  tx_SequenceNum :: u16
  tx_FragmentID :: u8
  tx_TotalFragments :: u8
  tx_CompressionType :: u8
  tx_Payload :: bytes
  tx_CreatedAt :: instant
  tx_TTL :: duration

record clientStreamTXPacket = streamTXPacket +
  tx_isControlCounted :: bool

section \<open>The stream of the server\<close>

text \<open>
  The stream without its transport, which holds this record as its enqueuer. Of the upstream
  connection only its presence matters here; \<open>ss_closedReports\<close> lists the calls of \<open>onClosed\<close>.
\<close>

record Stream_server =
  ss_ID :: u16
  ss_TXQueue :: "streamTXPacket mlq"
  ss_Status :: string
  ss_LastActivity :: instant
  ss_CloseTime :: instant
  ss_hasUpstream :: bool
  ss_TargetHost :: gostring
  ss_TargetPort :: u16
  ss_Connected :: bool
  ss_cleaned :: bool
  ss_closedReports :: "(u16 \<times> instant \<times> string) list"

definition NewStreamServer :: "u16 \<Rightarrow> instant \<Rightarrow> Stream_server" where
  "NewStreamServer streamID now =
     \<lparr>ss_ID = streamID, ss_TXQueue = mlq_New, ss_Status = ''PENDING'', ss_LastActivity = now, ss_CloseTime = 0, ss_hasUpstream = False,
      ss_TargetHost = [], ss_TargetPort = 0, ss_Connected = False, ss_cleaned = False, ss_closedReports = []\<rparr>"

text \<open>The decision both streams share: may the packet enter next to what is queued already.\<close>

definition dataQueued :: "'p mlq \<Rightarrow> u16 \<Rightarrow> u8 \<Rightarrow> u16 \<Rightarrow> u8 \<Rightarrow> bool" where
  "dataQueued q streamID packetType sequenceNum fragmentID \<longleftrightarrow>
     mlq_Get q (PacketIdentityKey streamID packetType sequenceNum fragmentID) \<noteq> None"

definition duplicateData :: "'p mlq \<Rightarrow> u16 \<Rightarrow> u8 \<Rightarrow> u16 \<Rightarrow> u8 \<Rightarrow> bool" where
  "duplicateData q streamID packetType sequenceNum fragmentID \<longleftrightarrow>
     packetType = PACKET_STREAM_DATA \<and>
       (dataQueued q streamID PACKET_STREAM_DATA sequenceNum fragmentID \<or> dataQueued q streamID PACKET_STREAM_RESEND sequenceNum fragmentID) \<or>
     packetType = PACKET_STREAM_RESEND \<and> dataQueued q streamID PACKET_STREAM_RESEND sequenceNum fragmentID"

definition ss_PushTXPacket ::
  "instant \<Rightarrow> int \<Rightarrow> u8 \<Rightarrow> u16 \<Rightarrow> u8 \<Rightarrow> u8 \<Rightarrow> u8 \<Rightarrow> duration \<Rightarrow> bytes \<Rightarrow> Stream_server \<Rightarrow> bool \<times> Stream_server" where
  "ss_PushTXPacket now priority packetType sequenceNum fragmentID totalFragments compressionType ttl payload s =
     (let s = s\<lparr>ss_LastActivity := now\<rparr>;
          priority = NormalizePacketPriority packetType priority;
          dataKey = PacketIdentityKey (ss_ID s) PACKET_STREAM_DATA sequenceNum fragmentID;
          key = PacketIdentityKey (ss_ID s) packetType sequenceNum fragmentID;
          pkt = \<lparr>tx_PacketType = packetType, tx_SequenceNum = sequenceNum, tx_FragmentID = fragmentID, tx_TotalFragments = totalFragments,
                 tx_CompressionType = compressionType, tx_Payload = payload, tx_CreatedAt = now, tx_TTL = ttl\<rparr>
      in if duplicateData (ss_TXQueue s) (ss_ID s) packetType sequenceNum fragmentID then (False, s)
         else
           let (q, ok) = mlq_Push (ss_TXQueue s) priority key pkt
           in if \<not> ok then (False, s\<lparr>ss_TXQueue := q\<rparr>)
              else (True, s\<lparr>ss_TXQueue := if packetType = PACKET_STREAM_RESEND then fst (mlq_RemoveByKey q dataKey) else q\<rparr>))"

definition ss_RemoveQueuedData :: "u16 \<Rightarrow> Stream_server \<Rightarrow> bool \<times> Stream_server" where
  "ss_RemoveQueuedData sequenceNum s =
     (let (q1, r1) = mlq_RemoveByKey (ss_TXQueue s) (PacketIdentityKey (ss_ID s) PACKET_STREAM_DATA sequenceNum 0);
          (q2, r2) = mlq_RemoveByKey q1 (PacketIdentityKey (ss_ID s) PACKET_STREAM_RESEND sequenceNum 0)
      in (r1 \<noteq> None \<or> r2 \<noteq> None, s\<lparr>ss_TXQueue := q2\<rparr>))"

definition ss_RemoveQueuedDataNack :: "u16 \<Rightarrow> Stream_server \<Rightarrow> bool \<times> Stream_server" where
  "ss_RemoveQueuedDataNack sequenceNum s =
     (let (q, r) = mlq_RemoveByKey (ss_TXQueue s) (PacketIdentityKey (ss_ID s) PACKET_STREAM_DATA_NACK sequenceNum 0)
      in (r \<noteq> None, s\<lparr>ss_TXQueue := q\<rparr>))"

definition ss_ClearTXQueue :: "Stream_server \<Rightarrow> Stream_server" where
  "ss_ClearTXQueue s = s\<lparr>ss_TXQueue := fst (mlq_Clear (ss_TXQueue s))\<rparr>"

definition ss_FastTXQueueSize :: "Stream_server \<Rightarrow> int" where
  "ss_FastTXQueueSize s = mlq_FastSize (ss_TXQueue s)"

definition ss_PopNextTXPacket :: "Stream_server \<Rightarrow> Stream_server \<times> (streamTXPacket \<times> nat) option" where
  "ss_PopNextTXPacket s = (let (q, r) = mlq_Pop (ss_TXQueue s) in (s\<lparr>ss_TXQueue := q\<rparr>, r))"

definition ss_PopAnyTXPacket :: "int \<Rightarrow> (streamTXPacket \<Rightarrow> bool) \<Rightarrow> Stream_server \<Rightarrow> Stream_server \<times> streamTXPacket option" where
  "ss_PopAnyTXPacket maxPriority predicate s =
     (let (q, r) = mlq_PopAnyIf (ss_TXQueue s) maxPriority (Some predicate) in (s\<lparr>ss_TXQueue := q\<rparr>, r))"

definition ss_cleanupResources :: "instant \<Rightarrow> Stream_server \<Rightarrow> Stream_server" where
  "ss_cleanupResources now s =
     ss_ClearTXQueue (s\<lparr>ss_Status := ''CLOSED'', ss_CloseTime := now, ss_Connected := False, ss_hasUpstream := False\<rparr>)"

definition ss_finalizeAfterARQClose :: "instant \<Rightarrow> string \<Rightarrow> Stream_server \<Rightarrow> Stream_server" where
  "ss_finalizeAfterARQClose now reason s =
     (if ss_cleaned s then s
      else
        let s = ss_cleanupResources now (s\<lparr>ss_cleaned := True\<rparr>)
        in s\<lparr>ss_closedReports := ss_closedReports s @ [(ss_ID s, now, reason)]\<rparr>)"

definition serverOps :: "instant \<Rightarrow> Stream_server enqueuerOps" where
  "serverOps now =
     \<lparr>pushTX = ss_PushTXPacket now, removeQueuedData = \<lambda>sn s. snd (ss_RemoveQueuedData sn s),
      removeQueuedDataNack = \<lambda>sn s. snd (ss_RemoveQueuedDataNack sn s), onARQClosed = ss_finalizeAfterARQClose now\<rparr>"

text \<open>
  With the transport: the upstream connection is the transport's local connection, so closing the one
  closes the other.
\<close>

definition ss_attachUpstreamConn :: "instant \<Rightarrow> gostring \<Rightarrow> u16 \<Rightarrow> string \<Rightarrow> Stream_server arq \<Rightarrow> bool \<times> Stream_server arq" where
  "ss_attachUpstreamConn now host port status a =
     (let s = a_enqueuer a in
      if ss_Status s = ''CLOSED'' \<or> ss_CloseTime s \<noteq> 0 \<or> a_closed a \<or> ss_hasUpstream s \<or> ss_Connected s then (False, a)
      else
        let s = s\<lparr>ss_hasUpstream := True, ss_TargetHost := host, ss_TargetPort := port, ss_Connected := True\<rparr>;
            s = (if status \<noteq> '''' then s\<lparr>ss_Status := status\<rparr> else s)
        in (True, a\<lparr>a_enqueuer := s\<lparr>ss_LastActivity := now\<rparr>\<rparr>))"

definition ss_closeUpstreamOnly :: "instant \<Rightarrow> string \<Rightarrow> Stream_server arq \<Rightarrow> Stream_server arq" where
  "ss_closeUpstreamOnly now status a =
     (let s = a_enqueuer a;
          s' = (if status \<noteq> '''' then s\<lparr>ss_Status := status\<rparr> else if ss_Status s \<noteq> ''CLOSED'' then s\<lparr>ss_Status := ''CLOSING''\<rparr> else s)
      in a\<lparr>a_enqueuer := s'\<lparr>ss_CloseTime := now, ss_Connected := False, ss_hasUpstream := False\<rparr>,
           a_localConn := if ss_hasUpstream s then closeConn (a_localConn a) else a_localConn a\<rparr>)"

definition ss_CloseStream :: "instant \<Rightarrow> bool \<Rightarrow> duration \<Rightarrow> string \<Rightarrow> Stream_server arq \<Rightarrow> Stream_server arq" where
  "ss_CloseStream now force ttl reason a =
     (if force then Close (serverOps now) now reason (noClose\<lparr>SendRST := True, closeTTL := ttl\<rparr>) (ss_closeUpstreamOnly now ''CLOSED'' a)
      else Close (serverOps now) now reason (noClose\<lparr>SendCloseRead := True, AfterDrain := True, closeTTL := ttl\<rparr>) a)"

definition ss_NoteTXPacketDequeued :: "instant \<Rightarrow> streamTXPacket \<Rightarrow> Stream_server arq \<Rightarrow> Stream_server arq" where
  "ss_NoteTXPacketDequeued now packet a = NoteTXPacketDequeued now (tx_PacketType packet) (tx_SequenceNum packet) (tx_FragmentID packet) a"

section \<open>The stream of the client\<close>

text \<open>
  The pool of packet objects is not modelled: a packet is a value. \<open>sc_closedReports\<close> lists the calls
  of \<open>rememberClosedStream\<close>; \<open>sc_released\<close> tells that the client forgot the stream.
\<close>

record Stream_client =
  sc_StreamID :: u16
  sc_txQueue :: "clientStreamTXPacket mlq"
  sc_controlCount :: int
  sc_Status :: string
  sc_terminalSince :: instant
  sc_released :: bool
  sc_closedReports :: "(u16 \<times> string \<times> instant) list"

definition new_stream :: "u16 \<Rightarrow> Stream_client" where
  "new_stream streamID =
     \<lparr>sc_StreamID = streamID, sc_txQueue = mlq_New, sc_controlCount = 0, sc_Status = ''PENDING'', sc_terminalSince = 0,
      sc_released = False, sc_closedReports = []\<rparr>"

definition sc_PushTXPacket ::
  "instant \<Rightarrow> int \<Rightarrow> u8 \<Rightarrow> u16 \<Rightarrow> u8 \<Rightarrow> u8 \<Rightarrow> u8 \<Rightarrow> duration \<Rightarrow> bytes \<Rightarrow> Stream_client \<Rightarrow> bool \<times> Stream_client" where
  "sc_PushTXPacket now priority packetType sequenceNum fragmentID totalFragments compressionType ttl payload s =
     (let dataKey = PacketIdentityKey (sc_StreamID s) PACKET_STREAM_DATA sequenceNum fragmentID;
          key = PacketIdentityKey (sc_StreamID s) packetType sequenceNum fragmentID;
          priority = NormalizePacketPriority packetType priority
      in if packetType = PACKET_PING \<and> 500 < mlq_FastSize (sc_txQueue s) then (False, s)
         else if duplicateData (sc_txQueue s) (sc_StreamID s) packetType sequenceNum fragmentID then (False, s)
         else
           let counted = IsPackableControlPacket packetType (length payload);
               p = \<lparr>tx_PacketType = packetType, tx_SequenceNum = sequenceNum, tx_FragmentID = fragmentID, tx_TotalFragments = totalFragments,
                    tx_CompressionType = compressionType, tx_Payload = payload, tx_CreatedAt = now, tx_TTL = ttl, tx_isControlCounted = counted\<rparr>;
               (q, ok) = mlq_Push (sc_txQueue s) priority key p
           in if \<not> ok then (False, s\<lparr>sc_txQueue := q\<rparr>)
              else (True, s\<lparr>sc_txQueue := if packetType = PACKET_STREAM_RESEND then fst (mlq_RemoveByKey q dataKey) else q,
                            sc_controlCount := if counted then sc_controlCount s + 1 else sc_controlCount s\<rparr>))"

definition sc_removeByKey :: "u64 \<Rightarrow> Stream_client \<Rightarrow> bool \<times> Stream_client" where
  "sc_removeByKey key s =
     (let (q, r) = mlq_RemoveByKey (sc_txQueue s) key
      in case r of
           None \<Rightarrow> (False, s\<lparr>sc_txQueue := q\<rparr>)
         | Some p \<Rightarrow> (True, s\<lparr>sc_txQueue := q, sc_controlCount := if tx_isControlCounted p then sc_controlCount s - 1 else sc_controlCount s\<rparr>))"

definition sc_RemoveQueuedData :: "u16 \<Rightarrow> Stream_client \<Rightarrow> bool \<times> Stream_client" where
  "sc_RemoveQueuedData sequenceNum s =
     (let (r1, s) = sc_removeByKey (PacketIdentityKey (sc_StreamID s) PACKET_STREAM_DATA sequenceNum 0) s;
          (r2, s) = sc_removeByKey (PacketIdentityKey (sc_StreamID s) PACKET_STREAM_RESEND sequenceNum 0) s
      in (r1 \<or> r2, s))"

definition sc_RemoveQueuedDataNack :: "u16 \<Rightarrow> Stream_client \<Rightarrow> bool \<times> Stream_client" where
  "sc_RemoveQueuedDataNack sequenceNum s = sc_removeByKey (PacketIdentityKey (sc_StreamID s) PACKET_STREAM_DATA_NACK sequenceNum 0) s"

definition GetQueuedPacket :: "u8 \<Rightarrow> u16 \<Rightarrow> u8 \<Rightarrow> Stream_client \<Rightarrow> clientStreamTXPacket option" where
  "GetQueuedPacket packetType sequenceNum fragmentID s =
     mlq_Get (sc_txQueue s) (PacketIdentityKey (sc_StreamID s) packetType sequenceNum fragmentID)"

definition sc_cleanupResources :: "Stream_client \<Rightarrow> Stream_client" where
  "sc_cleanupResources s = s\<lparr>sc_txQueue := fst (mlq_Clear (sc_txQueue s)), sc_controlCount := 0, sc_Status := ''CLOSED''\<rparr>"

definition sc_finalizeAfterARQClose :: "Stream_client \<Rightarrow> Stream_client" where
  "sc_finalizeAfterARQClose s = (if sc_released s then s else sc_cleanupResources (s\<lparr>sc_released := True\<rparr>))"

definition sc_OnARQClosed :: "instant \<Rightarrow> string \<Rightarrow> Stream_client \<Rightarrow> Stream_client" where
  "sc_OnARQClosed now reason s = sc_finalizeAfterARQClose (s\<lparr>sc_closedReports := sc_closedReports s @ [(sc_StreamID s, reason, now)]\<rparr>)"

definition clientOps :: "instant \<Rightarrow> Stream_client enqueuerOps" where
  "clientOps now =
     \<lparr>pushTX = sc_PushTXPacket now, removeQueuedData = \<lambda>sn s. snd (sc_RemoveQueuedData sn s),
      removeQueuedDataNack = \<lambda>sn s. snd (sc_RemoveQueuedDataNack sn s), onARQClosed = sc_OnARQClosed now\<rparr>"

definition MarkTerminal :: "instant \<Rightarrow> Stream_client \<Rightarrow> Stream_client" where
  "MarkTerminal now s = (if sc_terminalSince s = 0 then s\<lparr>sc_terminalSince := now\<rparr> else s)"

definition ClearTerminal :: "Stream_client \<Rightarrow> Stream_client" where
  "ClearTerminal s = s\<lparr>sc_terminalSince := 0\<rparr>"

definition sc_NoteTXPacketDequeued :: "instant \<Rightarrow> clientStreamTXPacket \<Rightarrow> Stream_client arq \<Rightarrow> Stream_client arq" where
  "sc_NoteTXPacketDequeued now packet a =
     (let s = a_enqueuer a;
          a = a\<lparr>a_enqueuer := if tx_isControlCounted packet then s\<lparr>sc_controlCount := sc_controlCount s - 1\<rparr> else s\<rparr>
      in NoteTXPacketDequeued now (tx_PacketType packet) (tx_SequenceNum packet) (tx_FragmentID packet) a)"

definition sc_PopNextTXPacket :: "instant \<Rightarrow> Stream_client arq \<Rightarrow> Stream_client arq \<times> (clientStreamTXPacket \<times> nat) option" where
  "sc_PopNextTXPacket now a =
     (let (q, r) = mlq_Pop (sc_txQueue (a_enqueuer a));
          a = a\<lparr>a_enqueuer := (a_enqueuer a)\<lparr>sc_txQueue := q\<rparr>\<rparr>
      in case r of
           None \<Rightarrow> (a, None)
         | Some (packet, priority) \<Rightarrow> (sc_NoteTXPacketDequeued now packet a, Some (packet, priority)))"

definition sc_Close :: "instant \<Rightarrow> Stream_client arq \<Rightarrow> Stream_client arq" where
  "sc_Close now a =
     (let a = Close (clientOps now) now ''Stream_client.Close cleanup'' (noClose\<lparr>Force := True\<rparr>) a
      in a\<lparr>a_enqueuer := sc_finalizeAfterARQClose (a_enqueuer a)\<rparr>)"

definition sc_CloseStream :: "instant \<Rightarrow> bool \<Rightarrow> duration \<Rightarrow> Stream_client arq \<Rightarrow> Stream_client arq" where
  "sc_CloseStream now force ttl a =
     (if force then
        let s = (MarkTerminal now (a_enqueuer a))\<lparr>sc_Status := ''CANCELLED''\<rparr>;
            a = a\<lparr>a_enqueuer := s, a_localConn := closeConn (a_localConn a)\<rparr>
        in Close (clientOps now) now ''Close stream requested'' (noClose\<lparr>SendRST := True, closeTTL := ttl\<rparr>) a
      else Close (clientOps now) now ''Close stream requested'' (noClose\<lparr>SendCloseRead := True, AfterDrain := True, closeTTL := ttl\<rparr>) a)"

section \<open>Contents of a queue\<close>

definition entries :: "'p mlq \<Rightarrow> (u64 \<times> 'p) set" where
  "entries q = set (concat (mlq_levels q))"

definition viewOf :: "'x streamTXPacket_scheme \<Rightarrow> packetView" where
  "viewOf p = (tx_PacketType p, tx_SequenceNum p, tx_Payload p)"

definition queuedViews :: "'x streamTXPacket_scheme mlq \<Rightarrow> packetView set" where
  "queuedViews q = (\<lambda>(_, p). viewOf p) ` entries q"

lemma entries_push:
  assumes "mlq_inv q"
  shows "entries (fst (mlq_Push q pr k x)) \<subseteq> insert (k, x) (entries q)"
  using set_concat_update_append [of "levelOf pr" "mlq_levels q" "(k, x)"] mq.lev_lt [OF assms, of pr]
  by (auto simp: entries_def mlq_levels_Push [OF assms] simp del: set_concat)

lemma entries_remove: "mlq_inv q \<Longrightarrow> entries (fst (mlq_RemoveByKey q k)) = {e \<in> entries q. fst e \<noteq> k}"
  by (auto simp: entries_def mlq_levels_RemoveByKey)

lemma entries_clear: "entries (fst (mlq_Clear q)) = {}"
  by (simp add: entries_def mlq_Clear_def mlq_levels_def)

lemma entries_pop:
  assumes inv: "mlq_inv q" and pop: "mlq_Pop q = (q', Some (x, p))"
  shows "mlq_inv q'" and "x \<in> snd ` entries q" and "entries q' \<subseteq> entries q"
proof -
  obtain k rest where l: "p < 6" "mlq_levels q ! p = (k, x) # rest" "mlq_levels q' = (mlq_levels q)[p := rest]"
    using mlq_Pop_Some [OF inv, of x p] pop by auto
  have "p < length (mlq_levels q)" using l(1) inv by simp
  then have "mlq_levels q ! p \<in> set (mlq_levels q)" by (rule nth_mem)
  then show "x \<in> snd ` entries q" using l(2) by (force simp: entries_def)
  have "set (mlq_levels q') \<subseteq> insert rest (set (mlq_levels q))" unfolding l(3) by (rule set_update_subset_insert)
  moreover have "set rest \<subseteq> entries q" using \<open>mlq_levels q ! p \<in> _\<close> l(2) by (auto simp: entries_def intro!: bexI [of _ "mlq_levels q ! p"])
  ultimately show "entries q' \<subseteq> entries q" by (auto simp: entries_def)
  show "mlq_inv q'" using mlq_Pop_inv [OF inv] pop by (metis fst_conv)
qed

lemma entries_popAny:
  assumes inv: "mlq_inv q" and pop: "mlq_PopAnyIf q maxPriority predicate = (q', Some x)"
  shows "mlq_inv q'" and "x \<in> snd ` entries q" and "entries q' \<subseteq> entries q"
proof -
  let ?l = "concat (take (nat (maxPriority + 1)) (mlq_levels q))"
  obtain k y where f: "find (\<lambda>y. accepts predicate (snd y)) ?l = Some (k, y)" "x = y"
      "mlq_levels q' = map (filter (\<lambda>y. fst y \<noteq> k)) (mlq_levels q)"
    using mlq_PopAnyIf_spec [OF inv, where predicate = predicate and maxPriority = maxPriority] pop by (auto split: option.splits)
  have "(k, y) \<in> set ?l" using f(1) by (auto simp: find_Some_iff simp del: set_concat)
  then show "x \<in> snd ` entries q" using f(2) by (force simp: entries_def dest: in_set_takeD)
  show "entries q' \<subseteq> entries q" using f(3) by (auto simp: entries_def)
  show "mlq_inv q'" using mlq_PopAnyIf_inv [OF inv] pop by (metis fst_conv)
qed

section \<open>Both streams provide the packet queue\<close>

definition ss_takes :: "Stream_server \<Rightarrow> packetView \<Rightarrow> Stream_server \<Rightarrow> bool" where
  "ss_takes s v s' \<longleftrightarrow>
     (\<exists>p priority. ss_PopNextTXPacket s = (s', Some (p, priority)) \<and> v = viewOf p) \<or>
     (\<exists>maxPriority predicate p. ss_PopAnyTXPacket maxPriority predicate s = (s', Some p) \<and> v = viewOf p)"

lemma queuedViews_push:
  assumes "mlq_inv q" "viewOf p = v"
  shows "queuedViews (fst (mlq_Push q pr k p)) \<subseteq> insert v (queuedViews q)"
  using entries_push [OF assms(1), of pr k p] assms(2) by (force simp: queuedViews_def)

lemma queuedViews_remove: "mlq_inv q \<Longrightarrow> queuedViews (fst (mlq_RemoveByKey q k)) \<subseteq> queuedViews q"
  by (auto simp: queuedViews_def entries_remove)

lemma removed_queue:
  "mlq_inv q \<Longrightarrow> mlq_inv (fst (mlq_RemoveByKey q k)) \<and> queuedViews (fst (mlq_RemoveByKey q k)) \<subseteq> queuedViews q"
  by (simp add: mlq_RemoveByKey_inv queuedViews_remove)

lemma removed_queue2:
  "mlq_inv q \<Longrightarrow> queuedViews (fst (mlq_RemoveByKey (fst (mlq_RemoveByKey q k)) l)) \<subseteq> queuedViews q"
  using removed_queue by blast

lemma queuedViews_push_remove:
  assumes "mlq_inv q" "viewOf p = v"
  shows "queuedViews (fst (mlq_RemoveByKey (fst (mlq_Push q pr k p)) l)) \<subseteq> insert v (queuedViews q)"
  using queuedViews_push [OF assms] removed_queue [OF mlq_Push_inv [OF assms(1)]] by blast

lemmas queue_laws = mlq_Push_inv mlq_RemoveByKey_inv mlq_Clear_inv removed_queue removed_queue2
  queuedViews_push queuedViews_push_remove viewOf_def

lemma ss_push_queue:
  assumes "mlq_inv (ss_TXQueue s)"
  shows "mlq_inv (ss_TXQueue (snd (ss_PushTXPacket now pr t sn f tf c ttl payload s))) \<and>
    queuedViews (ss_TXQueue (snd (ss_PushTXPacket now pr t sn f tf c ttl payload s))) \<subseteq> insert (t, sn, payload) (queuedViews (ss_TXQueue s))"
  using assms by (simp add: ss_PushTXPacket_def Let_def split_beta queue_laws subset_insertI)

lemma ss_remove_queue:
  assumes "mlq_inv (ss_TXQueue s)"
  shows "mlq_inv (ss_TXQueue (snd (ss_RemoveQueuedData sn s))) \<and> queuedViews (ss_TXQueue (snd (ss_RemoveQueuedData sn s))) \<subseteq> queuedViews (ss_TXQueue s)"
    and "mlq_inv (ss_TXQueue (snd (ss_RemoveQueuedDataNack sn s))) \<and> queuedViews (ss_TXQueue (snd (ss_RemoveQueuedDataNack sn s))) \<subseteq> queuedViews (ss_TXQueue s)"
  by (simp_all add: ss_RemoveQueuedData_def ss_RemoveQueuedDataNack_def Let_def split_beta assms queue_laws)

lemma ss_closed_queue:
  assumes "mlq_inv (ss_TXQueue s)"
  shows "mlq_inv (ss_TXQueue (ss_finalizeAfterARQClose now reason s)) \<and>
    queuedViews (ss_TXQueue (ss_finalizeAfterARQClose now reason s)) \<subseteq> queuedViews (ss_TXQueue s)"
  using assms by (simp add: ss_finalizeAfterARQClose_def ss_cleanupResources_def ss_ClearTXQueue_def Let_def mlq_Clear_inv queuedViews_def entries_clear)

lemma ss_takes_queue:
  assumes "ss_takes s v s'" "mlq_inv (ss_TXQueue s)"
  shows "mlq_inv (ss_TXQueue s') \<and> v \<in> queuedViews (ss_TXQueue s) \<and> queuedViews (ss_TXQueue s') \<subseteq> queuedViews (ss_TXQueue s)"
  using assms(1) unfolding ss_takes_def
proof (elim disjE exE conjE)
  fix p priority assume p: "ss_PopNextTXPacket s = (s', Some (p, priority))" "v = viewOf p"
  then have "mlq_Pop (ss_TXQueue s) = (ss_TXQueue s', Some (p, priority))"
    by (auto simp: ss_PopNextTXPacket_def split_beta Let_def prod_eq_iff)
  from entries_pop [OF assms(2) this] p(2) show ?thesis by (force simp: queuedViews_def)
next
  fix maxPriority predicate p assume p: "ss_PopAnyTXPacket maxPriority predicate s = (s', Some p)" "v = viewOf p"
  then have "mlq_PopAnyIf (ss_TXQueue s) maxPriority (Some predicate) = (ss_TXQueue s', Some p)"
    by (auto simp: ss_PopAnyTXPacket_def split_beta Let_def prod_eq_iff)
  from entries_popAny [OF assms(2) this] p(2) show ?thesis by (force simp: queuedViews_def)
qed

interpretation srv: packet_source serverOps "\<lambda>s. mlq_inv (ss_TXQueue s)" "\<lambda>s. queuedViews (ss_TXQueue s)" ss_takes
  by unfold_locales
    (use ss_push_queue ss_remove_queue ss_closed_queue ss_takes_queue in \<open>simp_all add: serverOps_def\<close>)

definition sc_takes :: "Stream_client \<Rightarrow> packetView \<Rightarrow> Stream_client \<Rightarrow> bool" where
  "sc_takes s v s' \<longleftrightarrow>
     (\<exists>p priority q. mlq_Pop (sc_txQueue s) = (q, Some (p, priority)) \<and> v = viewOf p \<and>
        s' = s\<lparr>sc_txQueue := q, sc_controlCount := if tx_isControlCounted p then sc_controlCount s - 1 else sc_controlCount s\<rparr>)"

lemma sc_PopNextTXPacket_takes:
  assumes "sc_PopNextTXPacket now a = (a', Some (p, priority))"
  shows "\<exists>q. sc_takes (a_enqueuer a) (viewOf p) q \<and>
    a' = NoteTXPacketDequeued now (tx_PacketType p) (tx_SequenceNum p) (tx_FragmentID p) (a\<lparr>a_enqueuer := q\<rparr>)"
proof -
  obtain q where q: "mlq_Pop (sc_txQueue (a_enqueuer a)) = (q, Some (p, priority))"
    using assms by (cases "mlq_Pop (sc_txQueue (a_enqueuer a))") (auto simp: sc_PopNextTXPacket_def Let_def split: option.splits)
  let ?s = "a_enqueuer a"
  let ?c = "if tx_isControlCounted p then sc_controlCount ?s - 1 else sc_controlCount ?s"
  have "sc_takes ?s (viewOf p) (?s\<lparr>sc_txQueue := q, sc_controlCount := ?c\<rparr>)"
    using q by (auto simp: sc_takes_def)
  moreover have "a' = NoteTXPacketDequeued now (tx_PacketType p) (tx_SequenceNum p) (tx_FragmentID p)
      (a\<lparr>a_enqueuer := ?s\<lparr>sc_txQueue := q, sc_controlCount := ?c\<rparr>\<rparr>)"
    using assms q by (auto simp: sc_PopNextTXPacket_def sc_NoteTXPacketDequeued_def Let_def)
  ultimately show ?thesis by blast
qed

lemma sc_push_queue:
  assumes "mlq_inv (sc_txQueue s)"
  shows "mlq_inv (sc_txQueue (snd (sc_PushTXPacket now pr t sn f tf c ttl payload s))) \<and>
    queuedViews (sc_txQueue (snd (sc_PushTXPacket now pr t sn f tf c ttl payload s))) \<subseteq> insert (t, sn, payload) (queuedViews (sc_txQueue s))"
  using assms by (simp add: sc_PushTXPacket_def Let_def split_beta queue_laws subset_insertI)

lemma sc_removeByKey_queue [simp]:
  "sc_txQueue (snd (sc_removeByKey k s)) = fst (mlq_RemoveByKey (sc_txQueue s) k)" "sc_StreamID (snd (sc_removeByKey k s)) = sc_StreamID s"
  by (simp_all add: sc_removeByKey_def Let_def split_beta split: option.splits)

lemma sc_remove_queue:
  assumes "mlq_inv (sc_txQueue s)"
  shows "mlq_inv (sc_txQueue (snd (sc_RemoveQueuedData sn s))) \<and> queuedViews (sc_txQueue (snd (sc_RemoveQueuedData sn s))) \<subseteq> queuedViews (sc_txQueue s)"
    and "mlq_inv (sc_txQueue (snd (sc_RemoveQueuedDataNack sn s))) \<and> queuedViews (sc_txQueue (snd (sc_RemoveQueuedDataNack sn s))) \<subseteq> queuedViews (sc_txQueue s)"
  by (simp_all add: sc_RemoveQueuedData_def sc_RemoveQueuedDataNack_def Let_def split_beta assms queue_laws)

lemma sc_closed_queue:
  assumes "mlq_inv (sc_txQueue s)"
  shows "mlq_inv (sc_txQueue (sc_OnARQClosed now reason s)) \<and>
    queuedViews (sc_txQueue (sc_OnARQClosed now reason s)) \<subseteq> queuedViews (sc_txQueue s)"
  using assms by (simp add: sc_OnARQClosed_def sc_finalizeAfterARQClose_def sc_cleanupResources_def mlq_Clear_inv queuedViews_def entries_clear)

lemma sc_takes_queue:
  assumes "sc_takes s v s'" "mlq_inv (sc_txQueue s)"
  shows "mlq_inv (sc_txQueue s') \<and> v \<in> queuedViews (sc_txQueue s) \<and> queuedViews (sc_txQueue s') \<subseteq> queuedViews (sc_txQueue s)"
proof -
  obtain p priority where "mlq_Pop (sc_txQueue s) = (sc_txQueue s', Some (p, priority))" "v = viewOf p"
    using assms(1) by (auto simp: sc_takes_def)
  with entries_pop [OF assms(2) this(1)] show ?thesis by (force simp: queuedViews_def)
qed

interpretation cli: packet_source clientOps "\<lambda>s. mlq_inv (sc_txQueue s)" "\<lambda>s. queuedViews (sc_txQueue s)" sc_takes
  by unfold_locales
    (use sc_push_queue sc_remove_queue sc_closed_queue sc_takes_queue in \<open>simp_all add: clientOps_def\<close>)

interpretation upload: arq_link
  clientOps "\<lambda>s. mlq_inv (sc_txQueue s)" "\<lambda>s. queuedViews (sc_txQueue s)" sc_takes
  serverOps "\<lambda>s. mlq_inv (ss_TXQueue s)" "\<lambda>s. queuedViews (ss_TXQueue s)" ss_takes
  by unfold_locales

interpretation download: arq_link
  serverOps "\<lambda>s. mlq_inv (ss_TXQueue s)" "\<lambda>s. queuedViews (ss_TXQueue s)" ss_takes
  clientOps "\<lambda>s. mlq_inv (sc_txQueue s)" "\<lambda>s. queuedViews (sc_txQueue s)" sc_takes
  by unfold_locales

lemma queuedViews_New [simp]: "queuedViews mlq_New = {}"
  by (simp add: queuedViews_def entries_def mlq_levels_New)

end
