(* ===== verification/Stream_Delivery.thy ===== *)
theory Stream_Delivery
  imports Tx_Queue
begin

text \<open>
  Reliable delivery of a stream, end to end: the transport of the client and the transport of the server
  with the transmit queues they really use, and a network between them that loses, repeats and reorders
  packets (\<open>Arq_Link\<close>). The upload direction has the client as the sender, the download direction the
  server. The run at the end executes the whole path for one chunk.
\<close>

section \<open>Delivery\<close>

abbreviation uploadReachable :: "u16 \<Rightarrow> instant \<Rightarrow> (Stream_client, Stream_server) link \<Rightarrow> bool" where
  "uploadReachable streamID start \<equiv>
     linkReachable clientOps (\<lambda>s. queuedViews (sc_txQueue s)) sc_takes serverOps (\<lambda>s. queuedViews (ss_TXQueue s)) ss_takes
       (new_stream streamID) (NewStreamServer streamID start)"


lemma new_stream_queues [simp]: "sc_txQueue (new_stream streamID) = mlq_New" "ss_TXQueue (NewStreamServer streamID now) = mlq_New"
  by (simp_all add: new_stream_def NewStreamServer_def)

lemma upload_linkInv: "uploadReachable streamID start s \<Longrightarrow> upload.linkInv s"
  by (erule upload.linkInv_reachable) (simp_all add: mlq_inv_New)


text \<open>
  C1. Whatever the network loses, repeats or reorders, the bytes that the server has written to the
  upstream connection are a prefix of the bytes that the client has read from the local connection:
  nothing is lost in the middle, repeated, reordered or invented.
\<close>

theorem upload_in_order:
  assumes "uploadReachable streamID start s"
  shows "prefix (written (lkB s)) (concat (lkChunks s))"
  using upload.delivered_prefix [OF upload_linkInv [OF assms]] .


text \<open>
  C11. Once every chunk of the client is acknowledged, the stream is not ended at either side and the
  writer of the server waits with nothing more to collect, the server has written every byte that the
  client has read.
\<close>

theorem upload_drained_delivered:
  assumes "uploadReachable streamID start s" "a_sndBuf (lkA s) = []" "\<not> sendOver (lkA s)" "\<not> receiveOver (lkB s)"
    "lkWriter s \<in> {WaitFlush, Collecting}" "mget (a_rcvBuf (lkB s)) (a_rcvNxt (lkB s)) = None"
  shows "written (lkB s) = concat (lkChunks s)"
  using upload.drained_delivered [OF upload_linkInv [OF assms(1)]] assms(2-) by blast

section \<open>A run\<close>

text \<open>One chunk of two bytes goes from the client to the server and its acknowledgement comes back.\<close>

definition runConfig :: arqConfig where
  "runConfig = \<lparr>cf_WindowSize = 600, cf_RTO = second, cf_MaxRTO = 5 * second, cf_IsVirtual = False, cf_StartPaused = False,
     cf_EnableControlReliability = True, cf_ControlRTO = second, cf_ControlMaxRTO = 5 * second, cf_ControlMaxRetries = 5,
     cf_InactivityTimeout = 0, cf_DataPacketTTL = 0, cf_MaxDataRetries = 0, cf_ControlPacketTTL = 0, cf_DataNackMaxGap = 0,
     cf_DataNackInitialDelay = 0, cf_DataNackRepeat = 0, cf_TerminalDrainTimeout = 0, cf_TerminalAckWaitTimeout = 0,
     cf_CompressionType = 0, cf_IsClient = True, cf_InboundQueueSize = 64\<rparr>"

definition runConn :: localConn where
  "runConn = \<lparr>connWritten = [], connWriteClosed = False, connClosed = False\<rparr>"

definition runEnd :: "'q \<Rightarrow> 'q arq" where
  "runEnd q = NewARQ 7 1 q (Some runConn) 100 runConfig 1"

lemma eightTenths_600: "eightTenths 600 = 480"
  by (simp add: eightTenths_def scaleFloat64_def roundFloat64_def bitLength.simps)

lemma runEnd_code [code]:
  "runEnd q =
     \<lparr>a_streamID = 7, a_sessionID = 1, a_ioReady = True, a_streamWorkersStarted = False,
       a_enqueuer = q, a_localConn = Some runConn, a_mtu = 100, a_compressionType = 0,
       a_sndNxt = 0, a_rcvNxt = 0, a_sndBuf = [], a_rcvBuf = [], a_controlSndBuf = [],
       a_state = StateOpen, a_closed = False, a_closeReason = '''', a_lastActivity = 1,
       a_closeReadSent = False, a_closeReadReceived = False, a_closeReadAcked = False, a_closeReadSeqSent = None,
       a_closeWriteSent = False, a_closeWriteReceived = False, a_closeWriteAcked = False, a_closeWriteSeqSent = None,
       a_rstReceived = False, a_rstSent = False, a_rstAcked = False, a_rstSeqSent = None,
       a_localWriteClosed = False, a_localWriterBroken = False, a_localWritePending = False, a_stopLocalRead = False,
       a_deferredClose = False, a_deferredReason = '''', a_deferredDeadline = 0, a_deferredPacket = 0,
       a_clientEOFAt = 0, a_closeReadAckedAt = 0, a_lastDuplicateAckAt = 0,
       a_waitingAck = False, a_waitingAckFor = 0, a_ackWaitDeadline = 0,
       a_drainProgressAt = 0, a_drainQueueFailAt = 0, a_drainQueueFails = 0, a_drainStallLogged = False,
       a_IsClient = True, a_windowSize = 600, a_receiveWindowSize = 1200,
       a_limit = 480, a_windowNotFull = True, a_rto = second, a_maxRTO = 5 * second,
       a_inactivityTimeout = 120 * second,
       a_dataPacketTTL = 120 * second,
       a_maxDataRetries = 60,
       a_terminalDrainTimeout = 60 * second,
       a_terminalAckWait = 30 * second,
       a_enableControlReliability = True, a_controlRto = second, a_controlMaxRto = 5 * second,
       a_controlMaxRetries = 5,
       a_controlPacketTTL = 120 * second,
       a_dataAdaptiveRTO = \<lparr>srtt = 0, rttvar = 0, currentBase = second, initialized = False\<rparr>,
       a_controlAdaptiveRTO = \<lparr>srtt = 0, rttvar = 0, currentBase = second, initialized = False\<rparr>,
       a_dataNackMaxGap = 0,
       a_dataNackInitialDelay = 0,
       a_dataNackRepeatInterval = 100 * millisecond,
       a_isVirtual = False, a_firstDataNackSeen = [], a_lastDataNackSent = [],
       a_ctxDone = False, a_flushSignal = False, a_rxChan = [], a_rxCap = 64, a_pendingInbound = 0\<rparr>"
  by (simp add: runEnd_def NewARQ_def runConfig_def Let_def eightTenths_600 inboundQueueSize_def)

definition run0 :: "(Stream_client, Stream_server) link" where
  "run0 = linkStart (runEnd (new_stream 7)) (runEnd (NewStreamServer 7 1))"

definition runStep1 :: "(Stream_client, Stream_server) link \<Rightarrow> (Stream_client, Stream_server) link" where
  "runStep1 s = s\<lparr>lkReading := True\<rparr>"

definition runStep2 :: "(Stream_client, Stream_server) link \<Rightarrow> (Stream_client, Stream_server) link" where
  "runStep2 s = s\<lparr>lkReading := False, lkA := snd (snd (ioLoopRead (clientOps 2) 2 [104, 105] None 0 (lkA s))), lkChunks := lkChunks s @ [[104, 105]]\<rparr>"

definition popClient :: "Stream_client \<Rightarrow> Stream_client" where
  "popClient s = s\<lparr>sc_txQueue := fst (mlq_Pop (sc_txQueue s))\<rparr>"

definition runStep3 :: "(Stream_client, Stream_server) link \<Rightarrow> (Stream_client, Stream_server) link" where
  "runStep3 s = s\<lparr>lkA := NoteTXPacketDequeued 3 PACKET_STREAM_DATA 0 0 ((lkA s)\<lparr>a_enqueuer := popClient (a_enqueuer (lkA s))\<rparr>),
     lkData := (0, [104, 105]) # lkData s\<rparr>"

definition runStep4 :: "(Stream_client, Stream_server) link \<Rightarrow> (Stream_client, Stream_server) link" where
  "runStep4 s = s\<lparr>lkB := snd (ReceiveData (serverOps 4) 4 0 [104, 105] (lkB s)), lkRx := lkRx s @ [0]\<rparr>"

definition runStep5 :: "(Stream_client, Stream_server) link \<Rightarrow> (Stream_client, Stream_server) link" where
  "runStep5 s = s\<lparr>lkB := rxLoopReceive (serverOps 5) 5 (lkB s), lkRx := tl (lkRx s)\<rparr>"

definition runStep6 :: "(Stream_client, Stream_server) link \<Rightarrow> (Stream_client, Stream_server) link" where
  "runStep6 s = s\<lparr>lkB := snd (writeLoopWake (lkB s)), lkWriter := fst (writeLoopWake (lkB s))\<rparr>"

definition runStep7 :: "(Stream_client, Stream_server) link \<Rightarrow> (Stream_client, Stream_server) link" where
  "runStep7 s = s\<lparr>lkB := snd (writeLoopCollect (serverOps 7) 7 (lkB s)), lkWriter := fst (writeLoopCollect (serverOps 7) 7 (lkB s)),
     lkTaken := lkTaken s + collected (lkB s)\<rparr>"

definition runStep8 :: "(Stream_client, Stream_server) link \<Rightarrow> (Stream_client, Stream_server) link" where
  "runStep8 s = s\<lparr>lkB := snd (writeLoopWrite (serverOps 8) 8 2 None [104, 105] 0 (lkB s)),
     lkWriter := fst (writeLoopWrite (serverOps 8) 8 2 None [104, 105] 0 (lkB s))\<rparr>"

definition popServer :: "Stream_server \<Rightarrow> Stream_server" where
  "popServer s = s\<lparr>ss_TXQueue := fst (mlq_Pop (ss_TXQueue s))\<rparr>"

definition runStep9 :: "(Stream_client, Stream_server) link \<Rightarrow> (Stream_client, Stream_server) link" where
  "runStep9 s = s\<lparr>lkB := NoteTXPacketDequeued 9 PACKET_STREAM_DATA_ACK 0 0 ((lkB s)\<lparr>a_enqueuer := popServer (a_enqueuer (lkB s))\<rparr>),
     lkAcks := 0 # lkAcks s\<rparr>"

definition runStep10 :: "(Stream_client, Stream_server) link \<Rightarrow> (Stream_client, Stream_server) link" where
  "runStep10 s = s\<lparr>lkA := snd (ReceiveAck (clientOps 10) 10 0 (lkA s))\<rparr>"

definition run1 :: "(Stream_client, Stream_server) link" where
  "run1 = runStep1 run0"

definition run2 :: "(Stream_client, Stream_server) link" where
  "run2 = runStep2 run1"

definition run3 :: "(Stream_client, Stream_server) link" where
  "run3 = runStep3 run2"

definition run4 :: "(Stream_client, Stream_server) link" where
  "run4 = runStep4 run3"

definition run5 :: "(Stream_client, Stream_server) link" where
  "run5 = runStep5 run4"

definition run6 :: "(Stream_client, Stream_server) link" where
  "run6 = runStep6 run5"

definition run7 :: "(Stream_client, Stream_server) link" where
  "run7 = runStep7 run6"

definition run8 :: "(Stream_client, Stream_server) link" where
  "run8 = runStep8 run7"

definition run9 :: "(Stream_client, Stream_server) link" where
  "run9 = runStep9 run8"

definition run10 :: "(Stream_client, Stream_server) link" where
  "run10 = runStep10 run9"

abbreviation upStep :: "(Stream_client, Stream_server) link \<Rightarrow> (Stream_client, Stream_server) link \<Rightarrow> bool" where
  "upStep \<equiv> linkStep clientOps (\<lambda>s. queuedViews (sc_txQueue s)) sc_takes serverOps (\<lambda>s. queuedViews (ss_TXQueue s)) ss_takes"

lemma run0_reachable: "uploadReachable 7 1 run0"
proof (rule link_start)
  show "linkInitial (new_stream 7) (NewStreamServer 7 1) run0"
    unfolding linkInitial_def run0_def runEnd_def
    by (intro exI conjI, rule refl) (simp_all add: runConfig_def runConn_def)
qed

lemma run1_step: "upStep run0 run1"
  unfolding run1_def runStep1_def by (rule read_starts) code_simp

lemma run1_ends: "lkA run1 = runEnd (new_stream 7)" "lkB run1 = runEnd (NewStreamServer 7 1)" "lkReading run1"
  by (simp_all add: run1_def runStep1_def run0_def linkStart_def)

lemma run2_step: "upStep run1 run2"
  unfolding run2_def runStep2_def
proof (rule read_returns)
  show "numberFree (\<lambda>s. queuedViews (sc_txQueue s)) (\<lambda>s. queuedViews (ss_TXQueue s)) run1"
    by (simp add: numberFree_def Let_def run1_ends runEnd_code sndData_def)
qed (simp_all add: run1_ends)

lemma popClient_takes:
  assumes "case snd (mlq_Pop (sc_txQueue s)) of None \<Rightarrow> False | Some (p, _) \<Rightarrow> viewOf p = v \<and> \<not> tx_isControlCounted p"
  shows "sc_takes s v (popClient s)"
proof -
  obtain p priority where p: "snd (mlq_Pop (sc_txQueue s)) = Some (p, priority)" "viewOf p = v" "\<not> tx_isControlCounted p"
    using assms by (auto split: option.splits)
  then have "mlq_Pop (sc_txQueue s) = (fst (mlq_Pop (sc_txQueue s)), Some (p, priority))" by (simp add: prod_eq_iff)
  with p(2,3) show ?thesis unfolding sc_takes_def popClient_def by auto
qed

lemma popServer_takes:
  assumes "case snd (mlq_Pop (ss_TXQueue s)) of None \<Rightarrow> False | Some (p, _) \<Rightarrow> viewOf p = v"
  shows "ss_takes s v (popServer s)"
proof -
  obtain p priority where p: "snd (mlq_Pop (ss_TXQueue s)) = Some (p, priority)" "viewOf p = v"
    using assms by (auto split: option.splits)
  then have "ss_PopNextTXPacket s = (popServer s, Some (p, priority))"
    by (simp add: ss_PopNextTXPacket_def popServer_def split_beta Let_def)
  with p(2) show ?thesis unfolding ss_takes_def by blast
qed

lemma run3_step: "upStep run2 run3"
proof -
  have t: "sc_takes (a_enqueuer (lkA run2)) (PACKET_STREAM_DATA, 0, [104, 105]) (popClient (a_enqueuer (lkA run2)))"
    by (rule popClient_takes) code_simp
  have l: "lastIndex 0 (length (lkChunks run2)) = 0" by code_simp
  show ?thesis
    unfolding run3_def runStep3_def
    using transmit [where takesA = sc_takes and s = run2 and f = 0 and now = 3, OF t] by (simp add: l isDataType_def)
qed

lemma run4_step: "upStep run3 run4"
proof -
  have "(0, [104, 105]) \<in> set (lkData run3)" by code_simp
  moreover have "fst (ReceiveData (serverOps 4) 4 (of_nat 0) [104, 105] (lkB run3))" by code_simp
  ultimately show ?thesis
    unfolding run4_def runStep4_def
    using deliver [of 0 "[104, 105]" run3 serverOps 4 True "snd (ReceiveData (serverOps 4) 4 0 [104, 105] (lkB run3))"]
    by (simp add: prod_eq_iff)
qed

lemma run5_step: "upStep run4 run5"
proof -
  have "a_rxChan (lkB run4) \<noteq> []" by code_simp
  moreover have "lkTaken run4 = 0"
    by (simp add: run4_def runStep4_def run3_def runStep3_def run2_def runStep2_def run1_def runStep1_def run0_def linkStart_def)
  ultimately show ?thesis unfolding run5_def runStep5_def by (intro process) simp_all
qed

lemma run6_step: "upStep run5 run6"
proof -
  have "lkWriter run5 = WaitFlush" by code_simp
  then show ?thesis unfolding run6_def runStep6_def using writer_woken [of run5] by (simp add: prod_eq_iff)
qed

lemma run7_step: "upStep run6 run7"
proof -
  have "lkWriter run6 = Collecting" by code_simp
  then show ?thesis unfolding run7_def runStep7_def using collect [of run6 serverOps 7] by (simp add: prod_eq_iff)
qed

lemma run8_step: "upStep run7 run8"
proof -
  have "lkWriter run7 = Writing [104, 105] 0" by code_simp
  then show ?thesis unfolding run8_def runStep8_def using chunk_written [of run7 "[104, 105]" 0 serverOps 8 2 None] by (simp add: prod_eq_iff)
qed

lemma run_chunks: "lkChunks run8 = [[104, 105]]" "lkChunks run9 = [[104, 105]]"
  by (simp_all add: run9_def runStep9_def run8_def runStep8_def run7_def runStep7_def run6_def runStep6_def run5_def runStep5_def
    run4_def runStep4_def run3_def runStep3_def run2_def runStep2_def run1_def runStep1_def run0_def linkStart_def)

lemma run9_step: "upStep run8 run9"
proof -
  have t: "ss_takes (a_enqueuer (lkB run8)) (PACKET_STREAM_DATA_ACK, 0, []) (popServer (a_enqueuer (lkB run8)))"
    by (rule popServer_takes) code_simp
  have l: "lastIndex 0 (length (lkChunks run8)) = 0" by (simp add: run_chunks lastIndex_def)
  show ?thesis
    unfolding run9_def runStep9_def
    using acknowledge [where takesB = ss_takes and s = run8 and f = 0 and now = 9, OF t] by (simp add: l)
qed

lemma run10_step: "upStep run9 run10"
proof -
  have "0 \<in> set (lkAcks run9)" by (simp add: run9_def runStep9_def)
  moreover have "lkChunks run9 = [[104, 105]]" by (rule run_chunks)
  ultimately show ?thesis unfolding run10_def runStep10_def using deliver_ack [of 0 run9] by simp
qed

lemma run10_reachable: "uploadReachable 7 1 run10"
  by (rule link_step [OF link_step [OF link_step [OF link_step [OF link_step [OF link_step [OF link_step [OF link_step [OF
        link_step [OF link_step [OF run0_reachable run1_step] run2_step] run3_step] run4_step] run5_step] run6_step] run7_step]
        run8_step] run9_step] run10_step])

definition runOver :: "(Stream_client, Stream_server) link \<Rightarrow> bool" where
  "runOver s \<longleftrightarrow> a_sndBuf (lkA s) = [] \<and> \<not> sendOver (lkA s) \<and> \<not> receiveOver (lkB s) \<and> lkWriter s = Collecting \<and>
     mget (a_rcvBuf (lkB s)) (a_rcvNxt (lkB s)) = None \<and> written (lkB s) = [104, 105]"

lemma run10_over: "runOver run10"
  by code_simp

theorem upload_in_order_witness: "\<exists>s. uploadReachable 7 1 s \<and> written (lkB s) = [104, 105] \<and> prefix (written (lkB s)) (concat (lkChunks s))"
  using run10_reachable run10_over upload_in_order [OF run10_reachable] by (auto simp: runOver_def)

theorem upload_drained_delivered_witness: "uploadReachable 7 1 run10 \<and> written (lkB run10) = concat (lkChunks run10)"
  using upload_drained_delivered [OF run10_reachable] run10_over run10_reachable by (simp add: runOver_def)



end
