(* ===== verification/Spec2Isabelle.thy ===== *)
theory Spec2Isabelle
  imports Prelude Enums Mlq Dns_Answers Domain_Matcher Tunnel_Query Fragment_Store Inflight Socks_Proto Socks_Rate_Limit Socks_Handshake Stream_Ids Stream_Delivery
begin

text \<open>
  A verification of MasterDNS, the DNS tunnel of the repository (\<open>src/masterdns/internal\<close>; paths below are
  relative to it). The client accepts SOCKS connections, cuts what it reads from them into packets and
  sends these inside DNS queries; the server unpacks them, connects to the destination and sends what
  comes back inside TXT answers.

  \<^bold>\<open>Parts and how they interact.\<close> A SOCKS handshake (\<open>client/socks_manager.go\<close>, guarded by the limiter of
  failed logins) yields a destination, which travels to the server in fragments. From then on each
  side runs a reliable transport (\<open>arq/arq.go\<close>) per stream. The transport hands packets to the transmit
  queue of its stream (\<open>client/stream_client.go\<close>, \<open>udpserver/stream_server.go\<close>), a multi-level priority queue
  (\<open>mlq/mlq.go\<close>). A packet taken from the queue becomes a frame (\<open>vpnproto\<close>): header, optional compression
  (\<open>compression\<close>), encryption (\<open>security/codec.go\<close>) and base 36 text (\<open>basecodec\<close>). The client puts the text
  into the name of a query (\<open>dnsparser/transport.go\<close>, \<open>client/tunnel_query.go\<close>); the server parses the request
  (\<open>dnsparser/parser.go\<close>), matches its name against the allowed domains (\<open>domainmatcher\<close>) and decodes the frame.
  In the other direction the frame is cut into TXT answers and put together by the client.

  \<^bold>\<open>Theories.\<close>
  \<^item> \<open>Prelude\<close>: machine words, bytes, big-endian reads and writes, slices, Go maps as association lists with
    distinct keys, Go times and the saturating \<open>time.Sub\<close>. \<open>Enums\<close>: packet types, acknowledgement table, identity
    keys and priorities (\<open>enums\<close>).
  \<^item> \<open>Mlq\<close>: the queue with its lists, census and counter; the locale \<open>keyed_queue\<close> is the contract of a
    keyed priority queue, interpreted on it. Drain order, reachable-state invariant, conditional pop.
  \<^item> \<open>Base_Codec\<close>, \<open>Codec\<close>, \<open>Compression\<close>, \<open>Vpn_Proto\<close>: text encodings, the six encryption methods, compression and the
    frame format, each with its round trip; frames are canonical; packed control blocks.
  \<^item> \<open>Dns_Parser\<close>, \<open>Dns_Response\<close>, \<open>Dns_Transport\<close>, \<open>Dns_Answers\<close>: message parsers (agreement of the strict and the
    full one, safe walk over compressed names), local answers, tunnel queries with the exact capacity
    of a name, and the way of a packet through TXT answers in any order.
  \<^item> \<open>Domain_Matcher\<close>, \<open>Tunnel_Query\<close>: the domain trie against longest-suffix matching; the client's query builder.
  \<^item> \<open>Fragment_Store\<close>, \<open>Inflight\<close>: reassembly of fragments against a set specification, at most one delivery; the
    manager of concurrent equal requests as a step relation with pointers and channels.
  \<^item> \<open>Net_Ip\<close>, \<open>Socks_Proto\<close>, \<open>Socks_Rate_Limit\<close>, \<open>Socks_Handshake\<close>: address text, SOCKS targets and datagrams, the limiter,
    and the handshakes of SOCKS 4, 4a and 5. A connection is the list of bytes that the peer sends.
  \<^item> \<open>Arq_State\<close>, \<open>Arq_Control\<close>, \<open>Arq_Data\<close>: the state of the transport as the record \<open>arq\<close> and one definition per
    operation, terminal states and retransmission included; the goroutine loops are functions for one
    iteration, split where the code blocks without its lock.
  \<^item> \<open>Arq_Frame\<close>, \<open>Arq_Link\<close>: what each operation keeps, for any queue that satisfies the locale \<open>packet_queue\<close>; two
    transports with a network between them as the step relation \<open>linkStep\<close>, and its invariant in the locale
    \<open>arq_link\<close>. \<open>Tx_Queue\<close> models both streams and interprets the locales on them, \<open>Stream_Delivery\<close> states
    the delivery properties and runs one chunk through the whole path. \<open>Stream_Ids\<close>: allocation of stream IDs.
  \<^item> This theory: the uplink from a frame at the client to the same frame at the server, and a SOCKS
    destination from the handshake to the parsed target at the server.

  \<^bold>\<open>Conventions.\<close> Unsigned integers have the width of the source and wrap around; lengths and counters
  are \<open>nat\<close> or \<open>int\<close>. Times are nanoseconds since Go's zero time, 0 being that time; durations are unbounded
  integers except in the estimator of the retransmission timeout, where the 64-bit wrap-around is
  written out. Clock readings and random bytes are arguments. Errors are datatypes, panics are error
  values of their own (\<open>PanicIndexRange\<close>, \<open>PanicCounterOverflow\<close>) or \<open>None\<close>. An operation that the code runs under one lock is one
  step. Strings are byte lists; \<open>ToLower\<close> and \<open>TrimSpace\<close> treat ASCII only, which covers host names. Callbacks are
  functions, never nil, and a slice expression whose bounds the code has checked is total.

  \<^bold>\<open>Hypotheses on code outside the repository.\<close> \<open>crypto_ok\<close>: digest sizes, ChaCha20 as an involution as long as
  its block counter suffices and a panic otherwise, AES-GCM opening what it sealed. \<open>compressors_ok\<close>: each decompressor inverts
  its compressor. \<open>entropy_ok\<close>: the random source delivers the bytes it is asked for. Each is met by a concrete instance
  in the witnesses.

  \<^bold>\<open>Bounds.\<close> No definition needs fuel: loops are recursive functions with a termination proof. Decompression is limited to
  10 MB as in the code. The delivery theorems assume window sizes up to 8000, the limit of the
  configuration loader, and a network that is not so slow that a 16-bit sequence number comes around: a
  data packet is processed before the receiver is \<open>2 ^ 15\<close> chunks past it, an acknowledgement arrives within
  \<open>2 ^ 16\<close> chunks, and a number is reused only when nothing with it waits at either end (\<open>numberFree\<close>). Loss, repetition and
  reordering are otherwise unrestricted.

  \<^bold>\<open>Not modelled.\<close> The resolver balancer and MTU discovery of the client (statistics over answers of third parties),
  the dispatcher and the session negotiation, the session table of the server, the DNS cache, the
  configuration loader, logging and the programs' entry points: goroutines, sockets, files and timers around the
  modelled operations. Base 32 text, the key file and the session accept policy. Scheduling inside a locked operation,
  object pools and memory reuse. Liveness of the transport under a network that loses for ever is
  not claimed: the delivery theorems say what is true of every reachable state. The other parts of the repository (the applications under
  \<open>YPtun\<close>, the vendored cores such as sing-box and xray-core, and the other tunnels) are programs of their own.
\<close>

section \<open>The uplink\<close>

lemma map_sum_id_Inr [simp]: "map_sum f id x = Inr y \<longleftrightarrow> x = Inr y"
  by (cases x) simp_all

lemma normalizeDomain_lower: "map asciiLower (normalizeDomain d) = normalizeDomain d"
  by (simp add: normalizeDomain_def TrimSuffixDot_def ToLower_def map_butlast comp_def)

lemma built_query_asks:
  assumes "buildTXTQuestionPacketPrepared (wireName ls) t edns counter = (pkt, counter')"
  shows "asks ls t pkt"
proof -
  have p: "pkt = dnsHeaderBytes (ucast (counter + 1)) 0x0100 1 0 0 (if 0 < edns then 1 else 0) @
      wireName ls @ be16 t @ be16 DNSQ_CLASS_IN @ optRecord edns"
    using assms by (auto simp: buildTXTQuestionPacketPrepared_def nextDNSRequestID_def Let_def)
  show ?thesis
    unfolding asks_def p by (auto simp: query_header_likely simp del: append_assoc intro!: exI [of _ ls])
qed

text \<open>
  C9. The uplink: a frame that the client compresses, encrypts and puts into a query is recovered by
  the server, with every carried field and the payload, from every request that asks the same
  question, whatever ID, flags, letter case and further records a resolver gives it: the request
  parses, the matcher processes it under the client's domain, and its labels decode to the frame. The
  server is configured for the client: its allowed domains contain the client's domain and
  no domain below it, none of them starts with a dot, the domain is stable under trimming (it has no further
  trailing dot or space), and the encoded frame has at least the minimum label length.
  Building the query succeeded, so ChaCha20 did not run out of blocks.
\<close>

theorem uplink_round_trip:
  assumes "compressors_ok cs" "crypto_ok cp" "entropy_ok rand" "0 \<le> mth" "mth \<le> 5"
    and "NewCodec cp mth key = Inr c"
    and "validType (optPacketType opts)" "length (optPayload opts) \<le> 10485760"
    and "buildEncodedAutoWithCompressionTrace cs (Some c) rand k opts = Inr enc"
    and "buildTunnelTXTQuery cs (Some c) rand k domain opts counter = Inr (pkt, counter')"
    and "m = newMatcher domains l" "minLabelLength m \<le> int (length enc)"
    and "ownDomain (normalizeDomain domain) (allowedDomains m)"
    and "TrimSuffixDot (TrimSpace (normalizeDomain domain)) = normalizeDomain domain"
  shows "asks (labelChunks enc @ nameLabels (normalizeDomain domain)) DNS_RECORD_TYPE_TXT pkt \<and>
    (\<forall>msg. asks (labelChunks enc @ nameLabels (normalizeDomain domain)) DNS_RECORD_TYPE_TXT msg \<longrightarrow>
      (\<exists>lp p. ParseDNSRequestLite msg = Inr lp \<and> dAction (Match m lp) = ActionProcess \<and>
         dBaseDomain (Match m lp) = normalizeDomain domain \<and>
         ParseInflatedFromLabels cs (dLabels (Match m lp)) (Some c) = Inr p \<and> carries opts p))"
proof -
  let ?nd = "normalizeDomain domain" and ?ls = "labelChunks enc @ nameLabels (normalizeDomain domain)"
  have e: "BuildEncodedAuto cs opts (Some c) rand k = Inr enc" using assms(9) by (simp add: encodedAuto_eq)
  have s: "set enc \<subseteq> set lowerBase36Alphabet"
      "\<And>t. map asciiLower t = enc \<Longrightarrow> \<exists>p. ParseInflatedFromLabels cs t (Some c) = Inr p \<and> carries opts p"
    using sealed_frame [OF assms(1-5,7,8), of key k] assms(6) e by (auto split: if_splits)
  have low: "map asciiLower enc = enc" by (rule map_asciiLower_alphabet [OF s(1)])
  obtain p where p: "ParseInflatedFromLabels cs enc (Some c) = Inr p" "carries opts p" using s(2) [OF low] by blast
  then have ne: "enc \<noteq> []" by (auto simp: ParseInflatedFromLabels_def ParseFromLabels_def)
  obtain dq where dq: "PrepareTunnelDomainQname domain = Inr (?nd, dq)" "encodeDNSNameStrict ?nd = Inr dq" "?nd \<noteq> []"
    and b: "BuildTunnelTXTQuestionPacketPrepared ?nd dq enc DNS_RECORD_TYPE_TXT EDnsSafeUDPSize counter = Inr (pkt, counter')"
    using assms(9,10)
    by (auto simp: buildTunnelTXTQuery_def buildTunnelTXTQuestionBytes_def BuildTunnelTXTQuestionPacket_def
      PrepareTunnelDomainQname_def normalizeDomain_def Let_def split: if_splits sum.splits)
  have w: "labelsOk ?ls"
      "buildTXTQuestionPacketPrepared (wireName ?ls) DNS_RECORD_TYPE_TXT EDnsSafeUDPSize counter = (pkt, counter')"
    using BuildTunnelTXTQuestionPacketPrepared_wire [OF dq(2,3) b] by auto
  have nls: "?ls \<noteq> []" using ne by (simp add: labelChunks_Cons)
  show ?thesis
  proof (intro conjI allI impI)
    show "asks ?ls DNS_RECORD_TYPE_TXT pkt" by (rule built_query_asks [OF w(2)])
    fix msg assume a: "asks ?ls DNS_RECORD_TYPE_TXT msg"
    obtain lp where lp: "ParseDNSRequestLite msg = Inr lp" "lHasQuestion lp"
        "qName (lFirstQuestion lp) = map asciiLower (dotJoin ?ls)" "qType (lFirstQuestion lp) = DNS_RECORD_TYPE_TXT"
      using asks_parse [OF a w(1) nls] by blast
    have "dAction (Match m lp) = ActionProcess \<and> dLabels (Match m lp) = enc \<and> dBaseDomain (Match m lp) = ?nd"
      by (rule match_tunnel_name [OF assms(11,13,14) dq(3) normalizeDomain_lower ne s(1) assms(12) lp(2-4)])
    then show "\<exists>lp p. ParseDNSRequestLite msg = Inr lp \<and> dAction (Match m lp) = ActionProcess \<and>
         dBaseDomain (Match m lp) = ?nd \<and>
         ParseInflatedFromLabels cs (dLabels (Match m lp)) (Some c) = Inr p \<and> carries opts p"
      using lp(1) p by auto
  qed
qed

definition pingOptions :: buildOptions where
  "pingOptions = \<lparr>optSessionID = 3, optPacketType = PACKET_PING, optSessionCookie = 9, optStreamID = 0,
     optSequenceNum = 0, optFragmentID = 0, optTotalFragments = 0, optCompressionType = 0, optPayload = [8, 8]\<rparr>"

theorem uplink_round_trip_witness:
  "\<exists>c pkt lp p. NewCodec demoCrypto 0 [1] = Inr c \<and>
    buildTunnelTXTQuery demoCompressors (Some c) (\<lambda>n. Some (replicate n 7)) 100 [69, 120, 46] pingOptions 6 = Inr (pkt, 7) \<and>
    ParseDNSRequestLite pkt = Inr lp \<and> dAction (Match (newMatcher [[101, 120]] 0) lp) = ActionProcess \<and>
    ParseInflatedFromLabels demoCompressors (dLabels (Match (newMatcher [[101, 120]] 0) lp)) (Some c) = Inr p \<and>
    SessionID p = 3 \<and> Payload p = [8, 8]"
proof -
  let ?r = "\<lambda>n. Some (replicate n 7) :: bytes option" and ?raw = "[3, PACKET_PING, 9, computeHeaderCheckByte [3, PACKET_PING, 9], 8, 8]"
  have v: "validType (optPacketType pingOptions)" "length (optPayload pingOptions) \<le> 10485760"
    by (simp_all add: pingOptions_def validType_def packetFlags_table validOnly_def)
  obtain c where c: "NewCodec demoCrypto 0 [1] = Inr c" "cmethod c = 0"
    using NewCodec_cipher [OF demoCrypto_ok, of 0 ?r "[1]"] demoEntropy_ok by auto
  have raw: "BuildRawAuto demoCompressors pingOptions 100 = Inr ?raw"
    by (simp add: BuildRawAuto_def prepareOptions_def PreparePayload_def pingOptions_def NormalizeAvailableType_def
      NormalizeType_def BuildRaw_def packetFlags_table validOnly_def streamAndSeq_def fragTypes_def compTypes_def headerBytes_def Let_def)
  let ?enc = "encodeBlocks ?raw"
  have e: "buildEncodedAutoWithCompressionTrace demoCompressors (Some c) ?r 100 pingOptions = Inr ?enc"
    using c(2) raw by (simp add: buildEncodedAutoWithCompressionTrace_def EncryptAndEncodeBytes_def EncodeToBytes_def EncodeLowerBase36Bytes_eq)
  have len: "length ?enc = 10" by (simp add: length_encodeBlocks lowerBase36EncodedCharsByBytes_def)
  have nd: "normalizeDomain [69, 120, 46] = [101, 120]"
    by (simp add: normalizeDomain_def TrimSuffixDot_def ToLower_def TrimSpace_def isSpaceASCII_def asciiLower_def)
  have q: "\<exists>pkt. buildTunnelTXTQuery demoCompressors (Some c) ?r 100 [69, 120, 46] pingOptions 6 = Inr (pkt, 7)"
    using len nd
    by (simp add: buildTunnelTXTQuery_def e buildTunnelTXTQuestionBytes_def BuildTunnelTXTQuestionPacket_def
      PrepareTunnelDomainQname_def normalizeDomain_def encodeDNSNameStrict_def TrimSuffixDot_def TrimSpace_def isSpaceASCII_def
      BuildTunnelTXTQuestionPacketPrepared_def encodedQNameLen_def buildTXTQuestionPacketPrepared_def nextDNSRequestID_def Let_def)
  let ?m = "newMatcher [[101, 120]] 0"
  have a: "allowedDomains ?m = [[101, 120]]" "minLabelLength ?m = 3"
    by (simp_all add: newMatcher_def normalizeDomains_def normalizeDomain_def TrimSuffixDot_def ToLower_def TrimSpace_def
      isSpaceASCII_def asciiLower_def Let_def)
  obtain pkt where pkt: "buildTunnelTXTQuery demoCompressors (Some c) ?r 100 [69, 120, 46] pingOptions 6 = Inr (pkt, 7)"
    using q by blast
  have o: "ownDomain (normalizeDomain [69, 120, 46]) (allowedDomains ?m)" "minLabelLength ?m \<le> int (length ?enc)"
      "TrimSuffixDot (TrimSpace (normalizeDomain [69, 120, 46])) = normalizeDomain [69, 120, 46]"
    unfolding nd a by (simp_all add: ownDomain_def len TrimSuffixDot_def TrimSpace_def isSpaceASCII_def)
  show ?thesis
    using uplink_round_trip [OF demoCompressors_ok demoCrypto_ok demoEntropy_ok _ _ c(1) v e pkt refl o(2,1,3)] c(1) pkt
    by (auto simp: carries_def pingOptions_def)
qed

section \<open>A SOCKS request across the tunnel\<close>

text \<open>The calls that the server makes for the fragments of a SOCKS5 SYN, as they arrive.\<close>

definition synCall :: "'k \<Rightarrow> bytes list \<Rightarrow> 'k fragCall \<Rightarrow> bool" where
  "synCall k ds call \<longleftrightarrow>
     (case call of (k', p, i, n, _) \<Rightarrow> k' = k \<longrightarrow> n = of_nat (length ds) \<and> unat i < length ds \<and> p = ds ! unat i)"

lemma expectedResults_delivers:
  assumes "{..<length ds} \<subseteq> seen \<union> set ids" and "\<not> {..<length ds} \<subseteq> seen"
  shows "filter (\<lambda>(_, ready, _). ready) (expectedResults ds seen ids) = [(concat ds, True, False)]"
  using assms
proof (induction ids arbitrary: seen)
  case (Cons i ids)
  have late: "filter (\<lambda>(_, ready, _). ready) (expectedResults ds s ids) = []" if "{..<length ds} \<subseteq> s" for s
    using that by (induction ids arbitrary: s) (auto simp: expectedResult_def subset_insertI2)
  show ?case
  proof (cases "{..<length ds} \<subseteq> insert i seen")
    case True
    then show ?thesis
      using Cons.prems(2) late [OF True] by (simp add: expectedResult_def)
  next
    case False
    then show ?thesis
      using Cons.IH [of "insert i seen"] Cons.prems by (simp add: expectedResult_def)
  qed
qed simp

text \<open>
  C3. A SOCKS destination crosses the tunnel. A client that accepts SOCKS5 without authentication
  forwards a CONNECT request of an address that is not banned, with the IPv4, IPv6 or domain name
  destination it carries. The destination is cut into at most 255 fragments. When all of them
  reach the server within the retention time, in any order, with repetitions and with any other
  traffic, exactly one call reports the payload complete, and parsing it gives the destination of the request.
\<close>

theorem socks_destination_end_to_end:
  assumes "\<not> SOCKS5Auth cfg" and "\<not> blockedBy ip checked lim" and "length methods \<le> 255"
    and "SOCKS5_AUTH_METHOD_NO_AUTH \<in> set methods" and "hostForm atyp blk host"
    and "0 < mtu" and "3 + int (length blk) \<le> 255 * mtu"
    and "0 < r" and "store_ok s" and "mget (items s) k = None" and "mget (completed s) k = None"
  shows "\<exists>target ds. HandleSOCKS5 cfg ip checked now lim
             (SOCKS5_VERSION # of_nat (length methods) # methods @ [SOCKS5_VERSION, SOCKS5_CMD_CONNECT, 0, atyp] @ blk @ be16 port @ rest) =
             ([SOCKS5_VERSION, SOCKS5_AUTH_METHOD_NO_AUTH], lim, SocksConnect host port atyp SOCKS5_VERSION) \<and>
           connectTargetPayload host port atyp = Some target \<and> fragmentPayload target mtu = Some ds \<and>
           (\<forall>calls. (\<forall>call \<in> set calls. synCall k ds call \<and> (case call of (_, _, _, _, t) \<Rightarrow> t0 \<le> t \<and> t < t0 + r)) \<and>
                    {..<length ds} \<subseteq> (\<lambda>(_, _, i, _). unat i) ` set (filter (\<lambda>(k', _). k' = k) calls) \<longrightarrow>
              filter (\<lambda>(_, ready, _). ready) (map snd (filter (\<lambda>(k', _). k' = k) (collectAll r calls s))) = [(target, True, False)]) \<and>
           ParseTargetPayload target = Inr \<lparr>AddressType = atyp, Host = host, Port = port\<rparr>"
proof -
  let ?target = "atyp # blk @ be16 port"
  obtain ds where ds: "fragmentPayload ?target mtu = Some ds" "concat ds = ?target" "[] \<notin> set ds" "length ds \<le> 255" "ds \<noteq> []"
    using fragmentPayload_pieces [of mtu ?target] assms(6,7) by auto
  then have ok: "fragments_ok ds"
    by (cases ds) (auto simp: fragments_ok_def)
  have start: "viewTracks ds t0 r {} (keyView k s)"
    using assms(10,11) ds(5) by (auto simp: viewTracks_def keyView_def)
  have "filter (\<lambda>(_, ready, _). ready) (map snd (filter (\<lambda>(k', _). k' = k) (collectAll r calls s))) = [(?target, True, False)]"
    if c: "\<forall>call \<in> set calls. synCall k ds call \<and> (case call of (_, _, _, _, t) \<Rightarrow> t0 \<le> t \<and> t < t0 + r)"
      and all: "{..<length ds} \<subseteq> (\<lambda>(_, _, i, _). unat i) ` set (filter (\<lambda>(k', _). k' = k) calls)" for calls
  proof -
    let ?ids = "map (\<lambda>(_, _, i, _). unat i) (filter (\<lambda>(k', _). k' = k) calls)"
    have "map snd (filter (\<lambda>(k', _). k' = k) (collectAll r calls s)) = expectedResults ds {} ?ids"
      using c by (intro collectAll_tracks [OF ok assms(8,9) start]) (auto simp: synCall_def)
    moreover have "filter (\<lambda>(_, ready, _). ready) (expectedResults ds {} ?ids) = [(concat ds, True, False)]"
      using all ds(5) by (intro expectedResults_delivers) auto
    ultimately show ?thesis
      using ds(2) by simp
  qed
  then show ?thesis
    using HandleSOCKS5_connect [OF assms(1-5)] connectTargetPayload_form [OF assms(5)] ds(1)
      ParseTargetPayload_block(1) [OF assms(5), of port "[]"]
    by (intro exI [of _ ?target] exI [of _ ds]) simp
qed

definition openConfig :: socksConfig where
  "openConfig = \<lparr>SOCKS5Auth = False, SOCKS5User = [], SOCKS5Pass = []\<rparr>"

theorem socks_destination_end_to_end_witness:
  "\<exists>target ds. HandleSOCKS5 openConfig [49] 1 2 None
       (SOCKS5_VERSION # of_nat (length [0 :: u8]) # [0] @ [SOCKS5_VERSION, SOCKS5_CMD_CONNECT, 0, SOCKS5_ATYP_DOMAIN] @ [2, 97, 98] @ be16 80 @ []) =
       ([SOCKS5_VERSION, SOCKS5_AUTH_METHOD_NO_AUTH], None, SocksConnect [97, 98] 80 SOCKS5_ATYP_DOMAIN SOCKS5_VERSION) \<and>
     connectTargetPayload [97, 98] 80 SOCKS5_ATYP_DOMAIN = Some target \<and> fragmentPayload target 2 = Some ds \<and>
     (\<forall>calls. (\<forall>call \<in> set calls. synCall (7 :: nat) ds call \<and> (case call of (_, _, _, _, t) \<Rightarrow> 5 \<le> t \<and> t < 5 + second)) \<and>
              {..<length ds} \<subseteq> (\<lambda>(_, _, i, _). unat i) ` set (filter (\<lambda>(k', _). k' = 7) calls) \<longrightarrow>
        filter (\<lambda>(_, ready, _). ready) (map snd (filter (\<lambda>(k', _). k' = 7) (collectAll second calls fragNew))) = [(target, True, False)]) \<and>
     ParseTargetPayload target = Inr \<lparr>AddressType = SOCKS5_ATYP_DOMAIN, Host = [97, 98], Port = 80\<rparr>"
proof (rule socks_destination_end_to_end)
  show "hostForm SOCKS5_ATYP_DOMAIN [2, 97, 98] [97, 98]"
    by (simp add: hostForm_def)
  show "store_ok (fragNew :: nat fragStore)"
    by simp
qed (simp_all add: openConfig_def blockedBy_def fragNew_def)

end
